(* ===== verification/Prelude.thy ===== *)
theory Prelude
  imports Main
begin

text \<open>
  What every component of the development shares: the part of the Go language that the
  modelled code relies on (run-time panics as values, slices with bounds checks, truncating
  remainder), a generic notion of reachable state with the invariant rule as a locale, and
  quorums of a finite set of servers.
\<close>

section \<open>Run-time panics\<close>

text \<open>
  A Go operation that may panic returns a value of \<open>'a res\<close>: \<open>Inl\<close> is the panic, \<open>Inr\<close> the
  normal result. \<open>rbind\<close> is sequencing: a panic ends the computation.
\<close>

datatype go_panic =
    IndexOutOfRange
  | SliceOutOfRange
  | DivideByZero
  | MakeLenOutOfRange
  | NilDereference
  | LogFatal
  | AppPanic
  | StackOverflow
  | ReflectPanic
  | CloseOfClosedChannel
  | TestFatal
  | TypeAssertion

type_synonym 'a res = "go_panic + 'a"

named_theorems go_simps \<open>unfolding rules for the Go operations\<close>
named_theorems panic_free \<open>operations that return normally\<close>

fun rbind :: "'a res \<Rightarrow> ('a \<Rightarrow> 'b res) \<Rightarrow> 'b res" where
  "rbind (Inl e) f = Inl e"
| "rbind (Inr x) f = f x"

lemma rbind_Inr_iff [simp]:
  "rbind m f = Inr y \<longleftrightarrow> (\<exists>x. m = Inr x \<and> f x = Inr y)"
  by (cases m) auto

lemma rbind_assoc: "rbind (rbind m f) g = rbind m (\<lambda>x. rbind (f x) g)"
  by (cases m) auto

lemma rbind_Inl_iff:
  "rbind m f = Inl e \<longleftrightarrow> m = Inl e \<or> (\<exists>x. m = Inr x \<and> f x = Inl e)"
  by (cases m) auto

definition returns :: "'a res \<Rightarrow> bool" where
  "returns m = (case m of Inl _ \<Rightarrow> False | Inr _ \<Rightarrow> True)"

lemma returns_simps [simp]: "returns (Inr x)" "\<not> returns (Inl e)"
  by (simp_all add: returns_def)

lemma returns_iff: "returns m \<longleftrightarrow> (\<exists>x. m = Inr x)"
  by (cases m) (auto simp: returns_def)

lemma returns_rbind [simp]:
  "returns (rbind m f) \<longleftrightarrow> (\<exists>x. m = Inr x \<and> returns (f x))"
  by (cases m) auto

section \<open>Slices\<close>

text \<open>
  \<open>xs[i]\<close>, \<open>xs[i] = v\<close>, \<open>xs[i:]\<close>, \<open>xs[:j]\<close> and \<open>make([]T, n)\<close>. Go's \<open>int\<close> is a HOL \<open>int\<close>, so that
  a negative index is a value that the bounds check refuses. (\<open>xs[:j]\<close> with \<open>j\<close> between length
  and capacity, which Go allows, is not reached by the modelled code: its guards keep
  \<open>j\<close> below the length.)
\<close>

definition go_index :: "'a list \<Rightarrow> int \<Rightarrow> 'a res" where
  "go_index xs i =
     (if 0 \<le> i \<and> i < int (length xs) then Inr (xs ! nat i) else Inl IndexOutOfRange)"

definition go_update :: "'a list \<Rightarrow> int \<Rightarrow> 'a \<Rightarrow> 'a list res" where
  "go_update xs i v =
     (if 0 \<le> i \<and> i < int (length xs) then Inr (xs[nat i := v]) else Inl IndexOutOfRange)"

definition slice_from :: "'a list \<Rightarrow> int \<Rightarrow> 'a list res" where
  "slice_from xs i =
     (if 0 \<le> i \<and> i \<le> int (length xs) then Inr (drop (nat i) xs) else Inl SliceOutOfRange)"

definition slice_to :: "'a list \<Rightarrow> int \<Rightarrow> 'a list res" where
  "slice_to xs j =
     (if 0 \<le> j \<and> j \<le> int (length xs) then Inr (take (nat j) xs) else Inl SliceOutOfRange)"

definition go_make :: "int \<Rightarrow> 'a \<Rightarrow> 'a list res" where
  "go_make n zero = (if 0 \<le> n then Inr (replicate (nat n) zero) else Inl MakeLenOutOfRange)"

lemmas slice_defs = go_index_def go_update_def slice_from_def slice_to_def go_make_def
declare slice_defs [go_simps]

lemma go_index_Inr [simp]:
  "go_index xs i = Inr v \<longleftrightarrow> 0 \<le> i \<and> i < int (length xs) \<and> v = xs ! nat i"
  by (auto simp: go_index_def)

lemma go_update_Inr [simp]:
  "go_update xs i v = Inr ys \<longleftrightarrow> 0 \<le> i \<and> i < int (length xs) \<and> ys = xs[nat i := v]"
  by (auto simp: go_update_def)

lemma slice_from_Inr [simp]:
  "slice_from xs i = Inr ys \<longleftrightarrow> 0 \<le> i \<and> i \<le> int (length xs) \<and> ys = drop (nat i) xs"
  by (auto simp: slice_from_def)

lemma slice_to_Inr [simp]:
  "slice_to xs i = Inr ys \<longleftrightarrow> 0 \<le> i \<and> i \<le> int (length xs) \<and> ys = take (nat i) xs"
  by (auto simp: slice_to_def)

text \<open>Go's \<open>%\<close> truncates towards zero and panics on a zero divisor.\<close>

definition go_rem :: "int \<Rightarrow> int \<Rightarrow> int res" where
  "go_rem a b = (if b = 0 then Inl DivideByZero else Inr (sgn a * (\<bar>a\<bar> mod \<bar>b\<bar>)))"

lemma go_rem_nonneg: "0 \<le> a \<Longrightarrow> 0 < b \<Longrightarrow> go_rem a b = Inr (a mod b)"
  by (cases "a = 0") (auto simp: go_rem_def sgn_if)

section \<open>Loops\<close>

text \<open>\<open>for _, x := range xs\<close> with a body that may panic, and the rule for invariants of such a loop.\<close>

fun forEach :: "'a list \<Rightarrow> ('a \<Rightarrow> 's \<Rightarrow> 's res) \<Rightarrow> 's \<Rightarrow> 's res" where
  "forEach [] f s = Inr s"
| "forEach (x # xs) f s = rbind (f x s) (forEach xs f)"

lemma forEach_append: "forEach (xs @ ys) f s = rbind (forEach xs f s) (forEach ys f)"
proof (induction xs arbitrary: s)
  case (Cons x xs)
  then show ?case by (cases "f x s") simp_all
qed simp

lemma forEach_snoc: "forEach (xs @ [x]) f s = rbind (forEach xs f s) (f x)"
proof -
  have "rbind m (forEach [] f) = m" for m by (cases m) simp_all
  then have "forEach [x] f = f x" by (simp add: fun_eq_iff)
  then show ?thesis by (simp only: forEach_append)
qed

lemma forEach_rule:
  assumes "forEach xs f s = Inr t" "P [] s"
    and "\<And>ys y zs s t. xs = ys @ y # zs \<Longrightarrow> P ys s \<Longrightarrow> f y s = Inr t \<Longrightarrow> P (ys @ [y]) t"
  shows "P xs t"
  using assms
proof (induction xs arbitrary: t rule: rev_induct)
  case Nil
  then show ?case by simp
next
  case (snoc x xs)
  from snoc.prems(1) obtain u where u: "forEach xs f s = Inr u" "f x u = Inr t"
    by (auto simp: forEach_append)
  have "P xs u"
    by (rule snoc.IH [OF u(1) snoc.prems(2)]) (use snoc.prems(3) in force)
  with u(2) snoc.prems(3) [of xs x "[]"] show ?case by simp
qed

lemma forEach_returns:
  assumes "P [] s"
    and "\<And>ys y zs s. xs = ys @ y # zs \<Longrightarrow> P ys s \<Longrightarrow> \<exists>t. f y s = Inr t \<and> P (ys @ [y]) t"
  shows "\<exists>t. forEach xs f s = Inr t \<and> P xs t"
  using assms
proof (induction xs rule: rev_induct)
  case Nil
  then show ?case by simp
next
  case (snoc x xs)
  have "\<exists>t. forEach xs f s = Inr t \<and> P xs t"
    by (rule snoc.IH [OF snoc.prems(1)]) (use snoc.prems(2) in force)
  then obtain u where "forEach xs f s = Inr u" "P xs u" by blast
  with snoc.prems(2) [of xs x "[]" u] show ?case by (auto simp: forEach_append)
qed

section \<open>Reachable states and the invariant rule\<close>

inductive reach :: "('s \<Rightarrow> bool) \<Rightarrow> ('s \<Rightarrow> 'e \<Rightarrow> 's \<Rightarrow> bool) \<Rightarrow> 's \<Rightarrow> bool"
  for init :: "'s \<Rightarrow> bool" and step :: "'s \<Rightarrow> 'e \<Rightarrow> 's \<Rightarrow> bool" where
  reach_init: "init s \<Longrightarrow> reach init step s"
| reach_step: "reach init step s \<Longrightarrow> step s e t \<Longrightarrow> reach init step t"

locale invariant_system =
  fixes init :: "'s \<Rightarrow> bool"
    and step :: "'s \<Rightarrow> 'e \<Rightarrow> 's \<Rightarrow> bool"
    and inv :: "'s \<Rightarrow> bool"
  assumes inv_init: "init s \<Longrightarrow> inv s"
    and inv_step: "inv s \<Longrightarrow> step s e t \<Longrightarrow> inv t"
begin

lemma reach_inv: "reach init step s \<Longrightarrow> inv s"
proof (induction rule: reach.induct)
  case (reach_init s)
  then show ?case by (rule inv_init)
next
  case (reach_step s e t)
  from reach_step.IH reach_step.hyps(2) show ?case by (rule inv_step)
qed

end

text \<open>
  Progress: as long as the goal is not reached a step is possible, and every step goes down in a well-founded order. So no run goes on forever, and a
  run that cannot go on has reached the goal.
\<close>

locale progress_system =
  fixes step :: "'s \<Rightarrow> 'e \<Rightarrow> 's \<Rightarrow> bool"
    and inv :: "'s \<Rightarrow> bool"
    and goal :: "'s \<Rightarrow> bool"
    and rank :: "'s \<Rightarrow> 'r"
    and below :: "('r \<times> 'r) set"
  assumes below_wf: "wf below"
    and keeps: "inv s \<Longrightarrow> step s e t \<Longrightarrow> inv t"
    and descends: "inv s \<Longrightarrow> step s e t \<Longrightarrow> (rank t, rank s) \<in> below"
    and goes_on: "inv s \<Longrightarrow> \<not> goal s \<Longrightarrow> \<exists>e t. step s e t"
begin

lemma run_inv: "reach (\<lambda>x. x = s) step t \<Longrightarrow> inv s \<Longrightarrow> inv t"
  by (induction rule: reach.induct) (auto intro: keeps)

lemma no_endless_run:
  assumes "inv (f 0)"
  shows "\<not> (\<forall>i. \<exists>e. step (f i) e (f (Suc i)))"
proof
  assume run: "\<forall>i. \<exists>e. step (f i) e (f (Suc i))"
  have "inv (f i)" for i by (induction i) (use assms run keeps in blast)+
  then have "\<forall>i. (rank (f (Suc i)), rank (f i)) \<in> below" using run descends by blast
  then have "\<exists>r. \<forall>i. (r (Suc i), r i) \<in> below" by (intro exI [of _ "\<lambda>i. rank (f i)"])
  then show False using below_wf by (simp add: wf_iff_no_infinite_down_chain)
qed

lemma ends_at_goal: "inv s \<Longrightarrow> reach (\<lambda>x. x = s) step t \<Longrightarrow> (\<And>e u. \<not> step t e u) \<Longrightarrow> goal t"
  using run_inv goes_on by blast

lemma goal_reachable: "inv s \<Longrightarrow> \<exists>t. reach (\<lambda>x. x = s) step t \<and> goal t"
proof (induction "rank s" arbitrary: s rule: wf_induct_rule [OF below_wf])
  case 1
  show ?case
  proof (cases "goal s")
    case True
    then show ?thesis by (blast intro: reach_init)
  next
    case False
    from goes_on [OF "1.prems" False] obtain e u where u: "step s e u" by blast
    from "1.hyps" [OF descends [OF "1.prems" u] keeps [OF "1.prems" u]]
    obtain t where t: "reach (\<lambda>x. x = u) step t" "goal t" by blast
    have "reach (\<lambda>x. x = s) step u" using reach_init [of "\<lambda>x. x = s"] u by (blast intro: reach_step)
    with t(1) have "reach (\<lambda>x. x = s) step t" by (induction rule: reach.induct) (auto intro: reach_step)
    with t(2) show ?thesis by blast
  qed
qed

end

lemma reach_mono:
  assumes "reach init step s"
    and "\<And>s e t. step s e t \<Longrightarrow> step' s e t"
  shows "reach init step' s"
  using assms(1)
proof (induction rule: reach.induct)
  case (reach_init s)
  then show ?case by (rule reach.reach_init)
next
  case (reach_step s e t)
  from reach_step.IH assms(2) [OF reach_step.hyps(2)] show ?case
    by (rule reach.reach_step)
qed

lemma reach_weaken_init:
  assumes "reach init step s" "\<And>s. init s \<Longrightarrow> init' s"
  shows "reach init' step s"
  using assms(1)
proof (induction rule: reach.induct)
  case (reach_init s)
  then show ?case by (intro reach.reach_init assms(2))
next
  case (reach_step s e t)
  from reach_step.IH reach_step.hyps(2) show ?case by (rule reach.reach_step)
qed

lemma reach_trans:
  assumes "reach (\<lambda>v. v = t) step u" "reach init step t"
  shows "reach init step u"
  using assms(1)
proof (induction rule: reach.induct)
  case (reach_init s)
  with assms(2) show ?case by simp
next
  case (reach_step s e t)
  from reach_step.IH reach_step.hyps(2) show ?case by (rule reach.reach_step)
qed

section \<open>Quorums\<close>

text \<open>
  What leader election and commitment rely on: two quorums share a server. A strict majority
  of \<open>{0..<n}\<close> is a quorum, which is the code's test \<open>count > len(peers)/2\<close>.
\<close>

locale quorum_system =
  fixes quorum :: "nat set \<Rightarrow> bool"
  assumes intersect: "quorum P \<Longrightarrow> quorum Q \<Longrightarrow> P \<inter> Q \<noteq> {}"
begin

lemma quorum_nonempty: "quorum Q \<Longrightarrow> Q \<noteq> {}"
  using intersect [of Q Q] by auto

text \<open>
  If each server backs at most one candidate, then at most one candidate is backed by a quorum.
\<close>

lemma unique_winner:
  assumes one: "\<And>v c d. backs v c \<Longrightarrow> backs v d \<Longrightarrow> c = d"
    and P: "quorum P" "\<And>v. v \<in> P \<Longrightarrow> backs v a"
    and Q: "quorum Q" "\<And>v. v \<in> Q \<Longrightarrow> backs v b"
  shows "a = b"
proof -
  from P(1) Q(1) have "P \<inter> Q \<noteq> {}" by (rule intersect)
  then obtain v where "v \<in> P" "v \<in> Q" by blast
  with P(2) Q(2) one show ?thesis by blast
qed

end

definition majority :: "nat \<Rightarrow> nat set \<Rightarrow> bool" where
  "majority n Q \<longleftrightarrow> Q \<subseteq> {0..<n} \<and> n div 2 < card Q"

lemma majority_intersect:
  assumes "majority n P" "majority n Q"
  shows "P \<inter> Q \<noteq> {}"
proof
  assume disj: "P \<inter> Q = {}"
  have fin: "finite P" "finite Q"
    using assms by (auto simp: majority_def intro: finite_subset)
  have "card P + card Q = card (P \<union> Q)"
    using disj fin by (simp add: card_Un_disjoint)
  also have "\<dots> \<le> card {0..<n}"
    using assms by (intro card_mono) (auto simp: majority_def)
  finally have "card P + card Q \<le> n" by simp
  moreover have "n div 2 < card P" "n div 2 < card Q"
    using assms by (simp_all add: majority_def)
  ultimately show False by linarith
qed

interpretation maj: quorum_system "majority n" for n
  by unfold_locales (rule majority_intersect)

section \<open>Lists\<close>

lemma take_nth_eq:
  "take k xs = take k ys \<Longrightarrow> i < k \<Longrightarrow> i < length xs \<Longrightarrow> i < length ys \<Longrightarrow> xs ! i = ys ! i"
  by (metis nth_take)

lemma count_ge_antimono:
  fixes i j :: int
  assumes "i \<le> j"
  shows "length (filter (\<lambda>m. j \<le> m) ms) \<le> length (filter (\<lambda>m. i \<le> m) ms)"
  using assms by (induction ms) auto

end
