(* ===== verification/Stable_Storage.thy ===== *)
theory Stable_Storage
  imports Prelude
begin

text \<open>
  \<open>raft/persister.go\<close>: the store that survives a crash of a Raft server. A byte slice is a
  list over a type of bytes \<open>'b\<close>; the Go \<open>nil\<close> slice is the empty list, as the only test the
  clients make on it is \<open>data == nil || len(data) < 1\<close>. The mutex of the struct makes each
  method atomic, so each method is one function on the record. The contract that recovery
  relies on, the last value written is the value read, is the locale \<open>stable_store\<close>.
\<close>

section \<open>The persister\<close>

record 'b Persister =
  raftstate :: "'b list"
  snapshot :: "'b list"

definition MakePersister :: "'b Persister" where
  "MakePersister = \<lparr>raftstate = [], snapshot = []\<rparr>"

definition Copy :: "'b Persister \<Rightarrow> 'b Persister" where
  "Copy ps =
     (let np = MakePersister;
          np = np\<lparr>raftstate := raftstate ps\<rparr>;
          np = np\<lparr>snapshot := snapshot ps\<rparr>
      in np)"

definition SaveRaftState :: "'b list \<Rightarrow> 'b Persister \<Rightarrow> 'b Persister" where
  "SaveRaftState state ps = ps\<lparr>raftstate := state\<rparr>"

definition ReadRaftState :: "'b Persister \<Rightarrow> 'b list" where
  "ReadRaftState ps = raftstate ps"

definition RaftStateSize :: "'b Persister \<Rightarrow> nat" where
  "RaftStateSize ps = length (raftstate ps)"

definition SaveStateAndSnapshot :: "'b list \<Rightarrow> 'b list \<Rightarrow> 'b Persister \<Rightarrow> 'b Persister" where
  "SaveStateAndSnapshot state snap ps = ps\<lparr>raftstate := state, snapshot := snap\<rparr>"

definition ReadSnapshot :: "'b Persister \<Rightarrow> 'b list" where
  "ReadSnapshot ps = snapshot ps"

definition SnapshotSize :: "'b Persister \<Rightarrow> nat" where
  "SnapshotSize ps = length (snapshot ps)"

lemmas persister_defs =
  MakePersister_def Copy_def SaveRaftState_def ReadRaftState_def RaftStateSize_def
  SaveStateAndSnapshot_def ReadSnapshot_def SnapshotSize_def

lemma Copy_id [simp]: "Copy (ps :: 'b Persister) = ps"
  by (simp add: persister_defs)

section \<open>The contract of a stable store\<close>

locale stable_store =
  fixes save :: "'v \<Rightarrow> 's \<Rightarrow> 's"
    and load :: "'s \<Rightarrow> 'v"
  assumes load_save: "load (save v s) = v"
begin

text \<open>After any sequence of writes the store holds the last of them.\<close>

lemma load_fold_save:
  "load (fold save vs s) = (if vs = [] then load s else last vs)"
  by (induction vs arbitrary: s) (auto simp: load_save)

end

interpretation raft_store: stable_store SaveRaftState ReadRaftState
  by unfold_locales (simp add: persister_defs)

interpretation snapshot_store:
  stable_store "\<lambda>(st, sn) ps. SaveStateAndSnapshot st sn ps"
    "\<lambda>ps. (ReadRaftState ps, ReadSnapshot ps)"
  by unfold_locales (auto simp: persister_defs)

text \<open>
  A write of the Raft state leaves the snapshot alone (and the sizes reported are those of what
  was written).
\<close>

lemma SaveRaftState_frame [simp]:
  "ReadSnapshot (SaveRaftState st ps) = ReadSnapshot ps"
  "SnapshotSize (SaveRaftState st ps) = SnapshotSize ps"
  "RaftStateSize (SaveRaftState st ps) = length st"
  "ReadRaftState (SaveRaftState st ps) = st"
  by (simp_all add: persister_defs)

end
