(* ===== verification/Raft_State.thy ===== *)
theory Raft_State
  imports Stable_Storage
begin

text \<open>
  \<open>raft/raft.go\<close> and \<open>raft/util.go\<close>: the state of one Raft server and the operations on it that
  send no message. A command (an \<open>interface{}\<close>) is a value of \<open>'c option\<close>, \<open>None\<close> being
  \<open>nil\<close>. Go's \<open>int\<close> is a HOL \<open>int\<close>: terms and indices would need \<open>2^63\<close> elections or
  log entries to wrap around. Each definition is one region of code that runs under the
  server's mutex.
\<close>

section \<open>The election timer\<close>

text \<open>
  \<open>time.Timer\<close>: whether it is running, whether its channel (of capacity one) holds a value,
  and when it expires. Times are in nanoseconds. An \<open>env\<close> is what the runtime supplies to one
  call: the value of \<open>time.Now()\<close> and that of \<open>rand.Int63()\<close>.
\<close>

record Timer =
  tm_active :: bool
  tm_fired :: bool
  tm_when :: int

type_synonym env = "int \<times> int"

definition timerStop :: "Timer \<Rightarrow> bool \<times> Timer" where
  "timerStop tm = (tm_active tm, tm\<lparr>tm_active := False\<rparr>)"

definition timerReset :: "int \<Rightarrow> Timer \<Rightarrow> bool \<times> Timer" where
  "timerReset at tm = (tm_active tm, tm\<lparr>tm_active := True, tm_when := at\<rparr>)"

definition timerExpire :: "Timer \<Rightarrow> Timer" where
  "timerExpire tm = tm\<lparr>tm_active := False, tm_fired := True\<rparr>"

definition ElectionTimeout :: int where
  "ElectionTimeout = 500 * 1000000"

definition RPCTimeout :: int where
  "RPCTimeout = 200 * 1000000"

definition HeartbeatInterval :: int where
  "HeartbeatInterval = 50 * 1000000"

definition randTimeout :: "int \<Rightarrow> int \<Rightarrow> int res" where
  "randTimeout rnd t = rbind (go_rem rnd t) (\<lambda>r. Inr (t + r))"

text \<open>
  \<open>resetTimer\<close>, for a positive duration: stop the timer, drop an expiry nobody has read, start it
  again.
\<close>

definition resetTimer :: "env \<Rightarrow> Timer \<Rightarrow> int \<Rightarrow> (bool \<times> Timer) res" where
  "resetTimer env tm t =
     (let (stopped, tm) = timerStop tm;
          tm = (if \<not> stopped then tm\<lparr>tm_fired := False\<rparr> else tm)
      in rbind (randTimeout (snd env) t) (\<lambda>d. Inr (timerReset (fst env + d) tm)))"

lemma randTimeout_bounds:
  assumes "0 < t" "0 \<le> rnd"
  shows "\<exists>d. randTimeout rnd t = Inr d \<and> t \<le> d \<and> d < 2 * t"
  using assms by (auto simp: randTimeout_def go_rem_nonneg)

lemma timeouts_positive [simp]: "0 < ElectionTimeout" "0 < RPCTimeout" "0 < HeartbeatInterval"
  by (simp_all add: ElectionTimeout_def RPCTimeout_def HeartbeatInterval_def)

section \<open>The server\<close>

datatype Role = Follower | Candidate | Leader

record 'c LogEntry =
  ent_Term :: int
  ent_Index :: int
  ent_Command :: "'c option"

record 'c ApplyMsg =
  CommandValid :: bool
  msg_Command :: "'c option"
  CommandIndex :: int

text \<open>
  What \<open>labgob\<close> writes to a buffer, one element per call of \<open>Encode\<close>: the persistent state is
  two integers and a log.
\<close>

datatype 'c gobval = GobInt int | GobLog "'c LogEntry list"

text \<open>
  \<open>peers\<close> is the number of end points, \<open>len(rf.peers)\<close>; \<open>applyCh\<close> is the sequence of messages
  sent on the channel so far.
\<close>

record 'c Raft =
  peers :: nat
  persister :: "'c gobval Persister"
  me :: int
  dead :: int
  role :: Role
  applyCh :: "'c ApplyMsg list"
  electionTimer :: Timer
  currentTerm :: int
  votedFor :: int
  logEntries :: "'c LogEntry list"
  commitIndex :: int
  lastApplied :: int
  nextIndex :: "int list"
  matchIndex :: "int list"

definition resetElectionTimer :: "env \<Rightarrow> 'c Raft \<Rightarrow> 'c Raft res" where
  "resetElectionTimer env rf =
     rbind (resetTimer env (electionTimer rf) ElectionTimeout)
       (\<lambda>(_, tm). Inr (rf\<lparr>electionTimer := tm\<rparr>))"

text \<open>The timer as \<open>resetElectionTimer\<close> leaves it.\<close>

definition rearmed :: "env \<Rightarrow> Timer \<Rightarrow> Timer" where
  "rearmed env tm =
     \<lparr>tm_active = True,
      tm_fired = (tm_active tm \<and> tm_fired tm),
      tm_when = fst env + ElectionTimeout
                + sgn (snd env) * (\<bar>snd env\<bar> mod ElectionTimeout)\<rparr>"

lemma resetElectionTimer_eq [simp]:
  "resetElectionTimer env rf = Inr (rf\<lparr>electionTimer := rearmed env (electionTimer rf)\<rparr>)"
  by (auto simp: resetElectionTimer_def resetTimer_def timerStop_def timerReset_def
      randTimeout_def go_rem_def rearmed_def ElectionTimeout_def add.assoc
      split: if_splits)

definition lastLogTermIndex :: "'c Raft \<Rightarrow> int \<times> int" where
  "lastLogTermIndex rf =
     (if logEntries rf = [] then (0, 0)
      else let lastEntry = logEntries rf ! (length (logEntries rf) - 1)
           in (ent_Term lastEntry, ent_Index lastEntry))"

definition GetState :: "'c Raft \<Rightarrow> int \<times> bool" where
  "GetState rf = (currentTerm rf, role rf = Leader)"

definition persist :: "'c Raft \<Rightarrow> 'c Raft" where
  "persist rf =
     (let w = [];
          w = w @ [GobInt (currentTerm rf)];
          w = w @ [GobInt (votedFor rf)];
          w = w @ [GobLog (logEntries rf)];
          data = w
      in rf\<lparr>persister := SaveRaftState data (persister rf)\<rparr>)"

text \<open>
  \<open>Decode\<close> reads the next value of the stream: \<open>None\<close> is its error, at the end of the stream or
  when the value is of another type.
\<close>

fun decodeInt :: "'c gobval list \<Rightarrow> (int \<times> 'c gobval list) option" where
  "decodeInt (GobInt n # r) = Some (n, r)"
| "decodeInt _ = None"

fun decodeLog :: "'c gobval list \<Rightarrow> ('c LogEntry list \<times> 'c gobval list) option" where
  "decodeLog (GobLog l # r) = Some (l, r)"
| "decodeLog _ = None"

definition readPersist :: "'c gobval list \<Rightarrow> 'c Raft \<Rightarrow> 'c Raft" where
  "readPersist data rf =
     (if length data < 1 then rf
      else case decodeInt data of
        None \<Rightarrow> rf
      | Some (t, d) \<Rightarrow>
          (case decodeInt d of
             None \<Rightarrow> rf
           | Some (v, d) \<Rightarrow>
               (case decodeLog d of
                  None \<Rightarrow> rf
                | Some (l, d) \<Rightarrow> rf\<lparr>currentTerm := t, votedFor := v, logEntries := l\<rparr>)))"

text \<open>
  \<open>changeRole\<close> for the three roles; the error of its default branch needs a role that is none
  of them. It panics if the server's own index is not one of its peers.
\<close>

definition changeRole :: "env \<Rightarrow> Role \<Rightarrow> 'c Raft \<Rightarrow> 'c Raft res" where
  "changeRole env r rf0 =
     rbind (resetElectionTimer env (rf0\<lparr>role := r\<rparr>)) (\<lambda>rf.
       case r of
         Follower \<Rightarrow> Inr rf
       | Candidate \<Rightarrow> Inr (rf\<lparr>currentTerm := currentTerm rf + 1, votedFor := me rf\<rparr>)
       | Leader \<Rightarrow>
           (let (_, lastLogIndex) = lastLogTermIndex rf;
                rf = rf\<lparr>votedFor := -1,
                        nextIndex := replicate (peers rf) (lastLogIndex + 1)\<rparr>
            in rbind (go_update (replicate (peers rf) 0) (me rf) lastLogIndex) (\<lambda>m.
                 Inr (rf\<lparr>matchIndex := m\<rparr>))))"

text \<open>
  \<open>Start\<close> reads the state in one critical section (\<open>rf.GetState()\<close>) and works in a second one, so
  the term and role it acts on are those of an earlier moment: they are arguments of
  \<open>StartLocked\<close>. \<open>Start\<close> is the case of nothing happening in between.
\<close>

definition StartLocked :: "int \<Rightarrow> bool \<Rightarrow> 'c option \<Rightarrow> 'c Raft
    \<Rightarrow> ('c Raft \<times> int \<times> int \<times> bool) res" where
  "StartLocked tm isLeader command rf =
     (let (_, lastIndex) = lastLogTermIndex rf
      in if \<not> isLeader then Inr (rf, lastIndex, tm, isLeader)
         else let index = lastIndex + 1;
                  rf = rf\<lparr>logEntries := logEntries rf @
                      [\<lparr>ent_Term = currentTerm rf, ent_Index = index,
                        ent_Command = command\<rparr>]\<rparr>
              in rbind (go_update (matchIndex rf) (me rf) index) (\<lambda>m.
                   Inr (persist (rf\<lparr>matchIndex := m\<rparr>), index, tm, isLeader)))"

definition Start :: "'c option \<Rightarrow> 'c Raft \<Rightarrow> ('c Raft \<times> int \<times> int \<times> bool) res" where
  "Start command rf =
     (let (tm, isLeader) = GetState rf in StartLocked tm isLeader command rf)"

definition Kill :: "'c Raft \<Rightarrow> 'c Raft" where
  "Kill rf = rf\<lparr>dead := 1\<rparr>"

definition killed :: "'c Raft \<Rightarrow> bool" where
  "killed rf \<longleftrightarrow> (let z = dead rf in z = 1)"

text \<open>
  \<open>Make\<close> up to the goroutines it starts: the zero struct, the fields it sets, the recovery (which
  the code runs twice, around the placeholder entry) and the new timer.
\<close>

definition newRaft :: "nat \<Rightarrow> int \<Rightarrow> 'c gobval Persister \<Rightarrow> 'c Raft" where
  "newRaft n i ps =
     \<lparr>peers = n, persister = ps, me = i, dead = 0, role = Follower, applyCh = [],
      electionTimer = \<lparr>tm_active = False, tm_fired = False, tm_when = 0\<rparr>,
      currentTerm = 0, votedFor = -1, logEntries = [], commitIndex = 0, lastApplied = 0,
      nextIndex = [], matchIndex = []\<rparr>"

definition Make :: "env \<Rightarrow> nat \<Rightarrow> int \<Rightarrow> 'c gobval Persister \<Rightarrow> 'c Raft res" where
  "Make env n i ps =
     (let rf = newRaft n i ps;
          rf = readPersist (ReadRaftState ps) rf;
          rf = (if logEntries rf = []
                then rf\<lparr>logEntries := logEntries rf @
                       [\<lparr>ent_Term = 0, ent_Index = 0, ent_Command = None\<rparr>]\<rparr>
                else rf);
          rf = readPersist (ReadRaftState ps) rf;
          rf = rf\<lparr>nextIndex := replicate (peers rf) 0, matchIndex := replicate (peers rf) 0\<rparr>
      in rbind (randTimeout (snd env) ElectionTimeout) (\<lambda>d.
           Inr (rf\<lparr>electionTimer :=
                    \<lparr>tm_active = True, tm_fired = False, tm_when = fst env + d\<rparr>\<rparr>)))"

text \<open>One round of the goroutine that delivers committed entries on \<open>applyCh\<close>.\<close>

definition applyRound :: "'c Raft \<Rightarrow> 'c Raft res" where
  "applyRound rf =
     (if lastApplied rf < commitIndex rf
      then let rf = rf\<lparr>lastApplied := lastApplied rf + 1\<rparr>
           in rbind (go_index (logEntries rf) (lastApplied rf)) (\<lambda>e.
                let msg = \<lparr>CommandValid = True, msg_Command = ent_Command e,
                           CommandIndex = lastApplied rf\<rparr>
                in Inr (rf\<lparr>applyCh := applyCh rf @ [msg]\<rparr>))
      else Inr rf)"

fun applyRounds :: "nat \<Rightarrow> 'c Raft \<Rightarrow> 'c Raft res" where
  "applyRounds 0 rf = Inr rf"
| "applyRounds (Suc n) rf = rbind (applyRound rf) (applyRounds n)"

section \<open>Role changes\<close>

lemma changeRole_Follower [simp]:
  "changeRole env Follower rf =
     Inr (rf\<lparr>role := Follower, electionTimer := rearmed env (electionTimer rf)\<rparr>)"
  by (simp add: changeRole_def)

lemma changeRole_Candidate [simp]:
  "changeRole env Candidate rf =
     Inr (rf\<lparr>role := Candidate, electionTimer := rearmed env (electionTimer rf),
             currentTerm := currentTerm rf + 1, votedFor := me rf\<rparr>)"
  by (simp add: changeRole_def)

lemma changeRole_Leader:
  assumes "0 \<le> me rf" "me rf < int (peers rf)"
  shows "changeRole env Leader rf =
     Inr (rf\<lparr>role := Leader, electionTimer := rearmed env (electionTimer rf),
             votedFor := -1,
             nextIndex := replicate (peers rf) (snd (lastLogTermIndex rf) + 1),
             matchIndex := (replicate (peers rf) 0)[nat (me rf) := snd (lastLogTermIndex rf)]\<rparr>)"
  using assms
  by (simp add: changeRole_def lastLogTermIndex_def Let_def go_update_def split: prod.splits)

lemma changeRole_Leader_Inr:
  assumes "changeRole env Leader rf = Inr rf'"
  shows "0 \<le> me rf \<and> me rf < int (peers rf)"
  using assms
  by (auto simp: changeRole_def Let_def split: prod.splits)

lemma changeRole_Leader_fields:
  assumes "changeRole env Leader rf = Inr rf'"
  shows "role rf' = Leader" "votedFor rf' = -1" "currentTerm rf' = currentTerm rf"
    "me rf' = me rf" "peers rf' = peers rf" "logEntries rf' = logEntries rf"
    "persister rf' = persister rf" "commitIndex rf' = commitIndex rf"
    "lastApplied rf' = lastApplied rf" "applyCh rf' = applyCh rf"
    "nextIndex rf' = replicate (peers rf) (snd (lastLogTermIndex rf) + 1)"
    "matchIndex rf' = (replicate (peers rf) 0)[nat (me rf) := snd (lastLogTermIndex rf)]"
  using assms changeRole_Leader [of rf env] changeRole_Leader_Inr [OF assms] by auto

lemma lastLogTermIndex_nonempty:
  "logEntries rf \<noteq> [] \<Longrightarrow>
     lastLogTermIndex rf = (ent_Term (last (logEntries rf)), ent_Index (last (logEntries rf)))"
  by (simp add: lastLogTermIndex_def last_conv_nth Let_def)

lemma lastLogTermIndex_cong:
  "logEntries rf = logEntries rf' \<Longrightarrow> lastLogTermIndex rf = lastLogTermIndex rf'"
  by (simp add: lastLogTermIndex_def)

section \<open>Persistence and recovery\<close>

lemma persist_sel [simp]:
  "peers (persist rf) = peers rf" "me (persist rf) = me rf" "dead (persist rf) = dead rf"
  "role (persist rf) = role rf" "applyCh (persist rf) = applyCh rf"
  "electionTimer (persist rf) = electionTimer rf"
  "currentTerm (persist rf) = currentTerm rf" "votedFor (persist rf) = votedFor rf"
  "logEntries (persist rf) = logEntries rf" "commitIndex (persist rf) = commitIndex rf"
  "lastApplied (persist rf) = lastApplied rf" "nextIndex (persist rf) = nextIndex rf"
  "matchIndex (persist rf) = matchIndex rf"
  by (simp_all add: persist_def Let_def)

text \<open>
  \<open>durable\<close> is the state that a server would come back with if it crashed now: the term, the
  vote and the log that \<open>Make\<close> reads from its persister.
\<close>

definition durable :: "'c gobval Persister \<Rightarrow> int \<times> int \<times> 'c LogEntry list" where
  "durable ps =
     (let rf = readPersist (ReadRaftState ps) (newRaft 0 0 ps)
      in (currentTerm rf, votedFor rf, logEntries rf))"

definition persistent :: "'c Raft \<Rightarrow> int \<times> int \<times> 'c LogEntry list" where
  "persistent rf = (currentTerm rf, votedFor rf, logEntries rf)"

lemma durable_persist [simp]: "durable (persister (persist rf)) = persistent rf"
  by (simp add: durable_def persist_def readPersist_def persistent_def Let_def)

lemma readPersist_cases:
  "(\<forall>rf. readPersist d rf = rf) \<or>
   (\<exists>t v l. \<forall>rf. readPersist d rf = rf\<lparr>currentTerm := t, votedFor := v, logEntries := l\<rparr>)"
proof (cases "\<exists>t v l r. d = GobInt t # GobInt v # GobLog l # r")
  case True
  then obtain t v l r where "d = GobInt t # GobInt v # GobLog l # r" by blast
  then have "readPersist d rf = rf\<lparr>currentTerm := t, votedFor := v, logEntries := l\<rparr>"
    for rf :: "'a Raft"
    by (simp add: readPersist_def)
  then show ?thesis by blast
next
  case False
  then have "readPersist d rf = rf" for rf :: "'a Raft"
    by (auto simp: readPersist_def split: option.splits elim!: decodeInt.elims decodeLog.elims)
  then show ?thesis by blast
qed

lemma Make_persistent:
  assumes "Make env n i ps = Inr rf"
  shows "currentTerm rf = fst (durable ps)" "votedFor rf = fst (snd (durable ps))"
    and "snd (snd (durable ps)) \<noteq> [] \<Longrightarrow> logEntries rf = snd (snd (durable ps))"
    and "peers rf = n" "me rf = i" "role rf = Follower" "persister rf = ps"
    and "nextIndex rf = replicate n 0" "matchIndex rf = replicate n 0"
    and "commitIndex rf = 0" "lastApplied rf = 0" "applyCh rf = []"
  using assms readPersist_cases [of "ReadRaftState ps"]
  by (auto simp: Make_def durable_def Let_def newRaft_def split: if_splits)

lemma Make_returns [panic_free]: "\<exists>rf. Make env n i ps = Inr rf"
  by (auto simp: Make_def Let_def randTimeout_def go_rem_def ElectionTimeout_def)

text \<open>
  The contract the crash steps of the cluster use: whatever a server does to its volatile state
  after its last call of \<open>persist\<close>, a restart brings back the view it had at that call.
\<close>

locale crash_recovery =
  fixes save :: "'n \<Rightarrow> 'n"
    and disk :: "'n \<Rightarrow> 'd"
    and boot :: "'d \<Rightarrow> 'n res"
    and view :: "'n \<Rightarrow> 'v"
    and good :: "'v \<Rightarrow> bool"
  assumes boot_save: "good (view n) \<Longrightarrow> boot (disk (save n)) = Inr m \<Longrightarrow> view m = view n"
    and boot_disk: "boot d = Inr m \<Longrightarrow> disk m = d"
    and boots: "\<exists>m. boot d = Inr m"
begin

lemma restart_view:
  assumes "good (view n)" and "disk m = disk (save n)"
  obtains k where "boot (disk m) = Inr k" and "view k = view n" and "disk k = disk m"
  using assms boot_save boot_disk boots by metis

text \<open>Crashing again before anything is written changes nothing.\<close>

lemma restart_twice:
  assumes "boot (disk n) = Inr m" and "boot (disk m) = Inr k"
  shows "boot (disk n) = Inr k"
  using assms boot_disk by metis

end

interpretation raft_crash:
  crash_recovery persist persister "Make env n i" persistent "\<lambda>v. snd (snd v) \<noteq> []" for env n i
proof unfold_locales
  fix rf rf' :: "'a Raft"
  assume "snd (snd (persistent rf)) \<noteq> []" "Make env n i (persister (persist rf)) = Inr rf'"
  then show "persistent rf' = persistent rf"
    using Make_persistent(1-3) [of env n i "persister (persist rf)" rf']
    by (simp add: persistent_def)
next
  fix ps :: "'a gobval Persister" and rf :: "'a Raft"
  assume "Make env n i ps = Inr rf"
  then show "persister rf = ps" by (rule Make_persistent(7))
next
  fix ps :: "'a gobval Persister"
  show "\<exists>rf. Make env n i ps = Inr rf" by (rule Make_returns)
qed

section \<open>The log\<close>

text \<open>
  A log is well formed when it starts with an entry and the entry at position \<open>k\<close> carries index
  \<open>k\<close>, which is what the code assumes when it uses an \<open>Index\<close> as a slice position.
\<close>

definition log_wf :: "'c LogEntry list \<Rightarrow> bool" where
  "log_wf l \<longleftrightarrow> l \<noteq> [] \<and> (\<forall>k < length l. ent_Index (l ! k) = int k)"

lemma log_wf_nonempty: "log_wf l \<Longrightarrow> l \<noteq> []"
  by (simp add: log_wf_def)

lemma log_wf_nth: "log_wf l \<Longrightarrow> k < length l \<Longrightarrow> ent_Index (l ! k) = int k"
  by (simp add: log_wf_def)

lemma log_wf_take: "log_wf l \<Longrightarrow> 0 < k \<Longrightarrow> log_wf (take k l)"
  by (auto simp: log_wf_def)

lemma log_wf_append:
  "log_wf l \<Longrightarrow> (\<And>k. k < length es \<Longrightarrow> ent_Index (es ! k) = int (length l + k)) \<Longrightarrow>
   log_wf (l @ es)"
  by (auto simp: log_wf_def nth_append)

lemma log_wf_drop_append:
  "log_wf l \<Longrightarrow> log_wf f \<Longrightarrow> length f = n \<Longrightarrow> n \<le> length l \<Longrightarrow> log_wf (f @ drop n l)"
  by (rule log_wf_append) (auto simp: log_wf_nth)

lemma lastLogTermIndex_wf:
  "log_wf (logEntries rf) \<Longrightarrow>
   snd (lastLogTermIndex rf) = int (length (logEntries rf)) - 1"
  by (cases "logEntries rf")
     (auto simp: lastLogTermIndex_def Let_def log_wf_def of_nat_diff)

section \<open>Start\<close>

lemma StartLocked_leader:
  assumes "0 \<le> me rf" "me rf < int (length (matchIndex rf))"
  shows "StartLocked tm True c rf =
     (let i = snd (lastLogTermIndex rf) + 1 in
      Inr (persist (rf\<lparr>logEntries := logEntries rf @
               [\<lparr>ent_Term = currentTerm rf, ent_Index = i, ent_Command = c\<rparr>],
             matchIndex := (matchIndex rf)[nat (me rf) := i]\<rparr>), i, tm, True))"
  using assms by (simp add: StartLocked_def Let_def go_update_def split: prod.splits)

lemma StartLocked_not_leader [simp]:
  "StartLocked tm False c rf = Inr (rf, snd (lastLogTermIndex rf), tm, False)"
  by (simp add: StartLocked_def split: prod.splits)

lemma StartLocked_Inr:
  assumes "StartLocked tm isLeader c rf = Inr (rf', res)"
  shows "rf' = rf \<or>
    (isLeader \<and> (\<exists>m. rf' = persist (rf\<lparr>logEntries := logEntries rf @
        [\<lparr>ent_Term = currentTerm rf, ent_Index = snd (lastLogTermIndex rf) + 1, ent_Command = c\<rparr>],
      matchIndex := m\<rparr>) \<and> length m = length (matchIndex rf)))"
proof (cases isLeader)
  case False
  with assms show ?thesis by simp
next
  case True
  obtain a b where l: "lastLogTermIndex rf = (a, b)" by fastforce
  from assms True have "\<exists>m. go_update (matchIndex rf) (me rf) (b + 1) = Inr m \<and>
      rf' = persist (rf\<lparr>logEntries := logEntries rf @
        [\<lparr>ent_Term = currentTerm rf, ent_Index = b + 1, ent_Command = c\<rparr>], matchIndex := m\<rparr>)"
    by (auto simp: StartLocked_def l Let_def)
  with True l show ?thesis by auto
qed

section \<open>Applying committed entries\<close>

definition apply_msg :: "'c LogEntry list \<Rightarrow> nat \<Rightarrow> 'c ApplyMsg" where
  "apply_msg l k =
     \<lparr>CommandValid = True, msg_Command = ent_Command (l ! k), CommandIndex = int k\<rparr>"

text \<open>The last entry that can be applied: committed, and in the log.\<close>

definition applicable :: "'c Raft \<Rightarrow> int" where
  "applicable rf = min (commitIndex rf) (int (length (logEntries rf)) - 1)"

lemma applyRound_step:
  assumes "0 \<le> lastApplied rf" "lastApplied rf < commitIndex rf"
    and "lastApplied rf + 1 < int (length (logEntries rf))"
  shows "applyRound rf =
     Inr (rf\<lparr>lastApplied := lastApplied rf + 1,
             applyCh := applyCh rf @ [apply_msg (logEntries rf) (nat (lastApplied rf + 1))]\<rparr>)"
  using assms by (simp add: applyRound_def go_index_def apply_msg_def Let_def)

lemma applyRound_idle [simp]: "\<not> lastApplied rf < commitIndex rf \<Longrightarrow> applyRound rf = Inr rf"
  by (simp add: applyRound_def)

lemma applyRound_panics:
  "0 \<le> lastApplied rf \<Longrightarrow> applyRound rf = Inl IndexOutOfRange \<longleftrightarrow>
     lastApplied rf < commitIndex rf \<and> int (length (logEntries rf)) \<le> lastApplied rf + 1"
  by (auto simp: applyRound_def go_index_def Let_def)

lemma applyRounds_idle: "\<not> lastApplied rf < commitIndex rf \<Longrightarrow> applyRounds n rf = Inr rf"
  by (induction n) auto

lemma applyRounds_deliver:
  assumes "0 \<le> lastApplied rf" "0 < n \<longrightarrow> lastApplied rf + int n \<le> commitIndex rf"
    and "0 < n \<longrightarrow> lastApplied rf + int n < int (length (logEntries rf))"
  shows "applyRounds n rf =
     Inr (rf\<lparr>lastApplied := lastApplied rf + int n,
             applyCh := applyCh rf @
               map (apply_msg (logEntries rf))
                 [nat (lastApplied rf) + 1 ..< nat (lastApplied rf) + 1 + n]\<rparr>)"
  using assms
proof (induction n arbitrary: rf)
  case 0
  then show ?case by simp
next
  case (Suc n)
  let ?rf = "rf\<lparr>lastApplied := lastApplied rf + 1,
      applyCh := applyCh rf @ [apply_msg (logEntries rf) (nat (lastApplied rf + 1))]\<rparr>"
  have "applyRounds (Suc n) rf = applyRounds n ?rf"
    using Suc.prems by (simp add: applyRound_step)
  also have "\<dots> = Inr (?rf\<lparr>lastApplied := lastApplied ?rf + int n,
      applyCh := applyCh ?rf @ map (apply_msg (logEntries ?rf))
        [nat (lastApplied ?rf) + 1 ..< nat (lastApplied ?rf) + 1 + n]\<rparr>)"
    using Suc.prems by (intro Suc.IH) auto
  finally have run: "applyRounds (Suc n) rf = \<dots>" .
  have upt: "[nat (lastApplied rf) + 1 ..< nat (lastApplied rf) + 1 + Suc n]
      = (nat (lastApplied rf) + 1)
        # [nat (lastApplied rf) + 2 ..< nat (lastApplied rf) + 1 + Suc n]"
    by (simp add: upt_conv_Cons del: upt_Suc)
  show ?case
    using Suc.prems by (simp only: run upt) (simp add: nat_add_distrib add.assoc del: upt_Suc)
qed

section \<open>Properties\<close>

text \<open>
  C18: recovery. If a server persists its state and then crashes, whatever happened to its volatile
  state in between, \<open>Make\<close> on the same persister returns, as a follower, with the term, the
  vote and the log it had when it persisted.
\<close>

theorem recovery:
  fixes rf crashed :: "'c Raft"
  assumes "logEntries rf \<noteq> []"
    and "persister crashed = persister (persist rf)"
  shows "\<exists>rf'. Make env n i (Copy (persister crashed)) = Inr rf' \<and>
     currentTerm rf' = currentTerm rf \<and> votedFor rf' = votedFor rf \<and>
     logEntries rf' = logEntries rf \<and> role rf' = Follower \<and>
     commitIndex rf' = 0 \<and> lastApplied rf' = 0"
proof -
  obtain rf' where r: "Make env n i (persister crashed) = Inr rf'" "persistent rf' = persistent rf"
    using raft_crash.restart_view [of rf crashed env n i] assms by (auto simp: persistent_def)
  with Make_persistent(6,10,11) [OF r(1)] show ?thesis by (auto simp: persistent_def)
qed

definition sampleServer :: "nat \<Rightarrow> int \<Rightarrow> Role \<Rightarrow> int \<Rightarrow> int \<Rightarrow> 'c LogEntry list \<Rightarrow> 'c Raft" where
  "sampleServer n i r t v l =
     (newRaft n i MakePersister)\<lparr>role := r, currentTerm := t, votedFor := v, logEntries := l,
        nextIndex := replicate n (int (length l)), matchIndex := replicate n 0\<rparr>"

definition mkEntry :: "int \<Rightarrow> int \<Rightarrow> 'c option \<Rightarrow> 'c LogEntry" where
  "mkEntry t i c = \<lparr>ent_Term = t, ent_Index = i, ent_Command = c\<rparr>"

lemma sampleServer_sel [simp]:
  "me (sampleServer n i r t v l) = i" "role (sampleServer n i r t v l) = r"
  "currentTerm (sampleServer n i r t v l) = t" "votedFor (sampleServer n i r t v l) = v"
  "logEntries (sampleServer n i r t v l) = l" "peers (sampleServer n i r t v l) = n"
  "commitIndex (sampleServer n i r t v l) = 0" "lastApplied (sampleServer n i r t v l) = 0"
  "nextIndex (sampleServer n i r t v l) = replicate n (int (length l))"
  "matchIndex (sampleServer n i r t v l) = replicate n 0" "applyCh (sampleServer n i r t v l) = []"
  by (simp_all add: sampleServer_def newRaft_def)

lemma mkEntry_sel [simp]:
  "ent_Term (mkEntry t i c) = t" "ent_Index (mkEntry t i c) = i" "ent_Command (mkEntry t i c) = c"
  by (simp_all add: mkEntry_def)

theorem recovery_witness:
  "\<exists>rf'. Make (7, 9) 3 1 (Copy (persister (Kill (persist
       (sampleServer 3 1 Leader 4 2 [mkEntry 0 0 None, mkEntry 4 1 (Some ''x'')]))))) = Inr rf' \<and>
     currentTerm rf' = 4 \<and> votedFor rf' = 2 \<and>
     logEntries rf' = [mkEntry 0 0 None, mkEntry 4 1 (Some ''x'')] \<and> role rf' = Follower \<and>
     commitIndex rf' = 0 \<and> lastApplied rf' = 0"
  using recovery [of "sampleServer 3 1 Leader 4 2 [mkEntry 0 0 None, mkEntry 4 1 (Some ''x'')]"
      "Kill (persist (sampleServer 3 1 Leader 4 2 [mkEntry 0 0 None, mkEntry 4 1 (Some ''x'')]))" "(7, 9)" 3 1]
  by (simp add: sampleServer_def Kill_def)

text \<open>
  C28: applying. The apply goroutine sends the entries between \<open>lastApplied\<close> and \<open>commitIndex\<close> that the log holds, each exactly once
  and in the order of the log, in as many rounds. After that it idles, if it has reached the commit index. If the commit index lies beyond
  the end of the log, the next round panics.
\<close>

theorem apply_in_order:
  assumes "0 \<le> lastApplied rf"
  shows "\<exists>rf'. applyRounds (nat (applicable rf - lastApplied rf)) rf = Inr rf' \<and>
     lastApplied rf' = max (lastApplied rf) (applicable rf) \<and>
     applyCh rf' = applyCh rf @ map (apply_msg (logEntries rf)) [nat (lastApplied rf) + 1 ..< nat (applicable rf) + 1] \<and>
     logEntries rf' = logEntries rf \<and>
     (if commitIndex rf \<le> lastApplied rf' then applyRounds k rf' = Inr rf' else applyRound rf' = Inl IndexOutOfRange)"
proof -
  let ?n = "nat (applicable rf - lastApplied rf)"
  let ?rf = "rf\<lparr>lastApplied := lastApplied rf + int ?n,
     applyCh := applyCh rf @ map (apply_msg (logEntries rf))
       [nat (lastApplied rf) + 1 ..< nat (lastApplied rf) + 1 + ?n]\<rparr>"
  have "applyRounds ?n rf = Inr ?rf"
    using assms by (intro applyRounds_deliver) (auto simp: applicable_def)
  moreover have "[nat (lastApplied rf) + 1 ..< nat (lastApplied rf) + 1 + ?n] = [nat (lastApplied rf) + 1 ..< nat (applicable rf) + 1]"
    using assms by (cases "lastApplied rf \<le> applicable rf") (simp_all add: nat_diff_distrib del: upt_Suc)
  moreover have max: "lastApplied ?rf = max (lastApplied rf) (applicable rf)" by simp
  moreover have "applyRounds k ?rf = Inr ?rf" if "commitIndex rf \<le> lastApplied ?rf"
    using that by (intro applyRounds_idle) simp
  moreover have "applyRound ?rf = Inl IndexOutOfRange" if "\<not> commitIndex rf \<le> lastApplied ?rf"
    using that assms by (subst applyRound_panics) (auto simp: applicable_def max_def min_def split: if_splits)
  ultimately show ?thesis by (intro exI [of _ ?rf]) (simp del: upt_Suc)
qed

theorem apply_in_order_witness:
  "\<exists>rf'. applyRounds 2 ((sampleServer 3 0 Follower 1 (-1)
        [mkEntry 0 0 None, mkEntry 1 1 (Some ''x''), mkEntry 1 2 (Some ''y'')])\<lparr>commitIndex := 2\<rparr>) = Inr rf' \<and>
     lastApplied rf' = 2 \<and>
     applyCh rf' =
       [\<lparr>CommandValid = True, msg_Command = Some ''x'', CommandIndex = 1\<rparr>,
        \<lparr>CommandValid = True, msg_Command = Some ''y'', CommandIndex = 2\<rparr>] \<and> applyRounds 5 rf' = Inr rf'"
  using apply_in_order [of "(sampleServer 3 0 Follower 1 (-1)
      [mkEntry 0 0 None, mkEntry 1 1 (Some ''x''), mkEntry 1 2 (Some ''y'')])\<lparr>commitIndex := 2\<rparr>" 5]
  by (auto simp: sampleServer_def newRaft_def apply_msg_def applicable_def mkEntry_def upt_rec simp del: applyRounds.simps)

text \<open>
  C29: \<open>Start\<close>. On a leader with a well-formed log it returns the index after the last one, the
  current term and true; the log has grown by exactly that entry, stays well formed, is on
  disk, and the leader counts itself as holding it. On any other server it changes nothing and
  returns false.
\<close>

theorem Start_appends:
  assumes "0 \<le> me rf" "me rf < int (length (matchIndex rf))" "log_wf (logEntries rf)"
  shows "\<exists>rf'. Start c rf = Inr (rf',
       (if role rf = Leader then int (length (logEntries rf)) else int (length (logEntries rf)) - 1),
       currentTerm rf, role rf = Leader) \<and>
     (if role rf = Leader
      then logEntries rf' = logEntries rf @
             [\<lparr>ent_Term = currentTerm rf, ent_Index = int (length (logEntries rf)), ent_Command = c\<rparr>]
           \<and> log_wf (logEntries rf')
           \<and> durable (persister rf') = (currentTerm rf, votedFor rf, logEntries rf')
           \<and> matchIndex rf' ! nat (me rf) = int (length (logEntries rf))
      else rf' = rf)"
proof (cases "role rf = Leader")
  case True
  let ?e = "\<lparr>ent_Term = currentTerm rf, ent_Index = int (length (logEntries rf)), ent_Command = c\<rparr>"
  have "log_wf (logEntries rf @ [?e])"
    using assms(3) by (rule log_wf_append) simp
  moreover have "nat (me rf) < length (matchIndex rf)" using assms by linarith
  ultimately show ?thesis
    using True assms StartLocked_leader [OF assms(1,2), of "currentTerm rf" c]
    by (simp add: Start_def GetState_def lastLogTermIndex_wf Let_def persistent_def)
next
  case False
  with assms(3) show ?thesis
    by (simp add: Start_def GetState_def lastLogTermIndex_wf)
qed

theorem Start_appends_witness:
  "\<exists>rf'. Start (Some ''x'') (sampleServer 3 1 Leader 4 (-1) [mkEntry 0 0 None]) = Inr (rf', 1, 4, True) \<and>
     logEntries rf' = [mkEntry 0 0 None, mkEntry 4 1 (Some ''x'')]"
  using Start_appends [of "sampleServer 3 1 Leader 4 (-1) [mkEntry 0 0 None :: string LogEntry]" "Some ''x''"]
  by (auto simp: sampleServer_def newRaft_def mkEntry_def log_wf_def)

text \<open>
  The election timer. \<open>resetTimer\<close> leaves the timer running, with an expiry between one
  and two timeouts from now, and with no old expiry left in its channel; the durations of the code are such
  that heartbeats come at least six times within the shortest election timeout.
\<close>

theorem resetTimer_fresh:
  assumes "0 < t" "0 \<le> snd env" "\<not> (tm_active tm \<and> tm_fired tm)"
  shows "\<exists>b tm'. resetTimer env tm t = Inr (b, tm') \<and> tm_active tm' \<and> \<not> tm_fired tm' \<and>
     fst env + t \<le> tm_when tm' \<and> tm_when tm' < fst env + 2 * t \<and>
     6 * HeartbeatInterval < ElectionTimeout \<and> RPCTimeout < ElectionTimeout"
proof -
  obtain d where "randTimeout (snd env) t = Inr d" "t \<le> d" "d < 2 * t"
    using randTimeout_bounds assms by blast
  with assms(3) show ?thesis
    by (auto simp: resetTimer_def timerStop_def timerReset_def Let_def
        HeartbeatInterval_def ElectionTimeout_def RPCTimeout_def)
qed

theorem resetTimer_fresh_witness:
  "\<exists>b tm'. resetTimer (1000, 17) \<lparr>tm_active = False, tm_fired = True, tm_when = 900\<rparr> 500 = Inr (b, tm') \<and>
     tm_active tm' \<and> \<not> tm_fired tm' \<and> 1500 \<le> tm_when tm' \<and> tm_when tm' < 2000"
  using resetTimer_fresh [of 500 "(1000, 17)" "\<lparr>tm_active = False, tm_fired = True, tm_when = 900\<rparr>"]
  by auto

end
