(* ===== verification/Raft_Vote.thy ===== *)
theory Raft_Vote
  imports Raft_State
begin

text \<open>
  \<open>raft/vote.go\<close>: the RequestVote handler and an election. \<open>startElection\<close> holds the server's
  mutex from its first to its last statement, while one goroutine per peer waits for that
  peer's answer. It is split at these points: \<open>electionBegin\<close> (up to the sending of the requests),
  \<open>electionReply\<close> (the body of a goroutine once its RPC is over) and \<open>electionEnd\<close> (after
  \<open>wg.Wait()\<close>). The whole, given what each RPC returned in the order the goroutines ran, is
  \<open>startElection\<close>.
\<close>

section \<open>Messages\<close>

record RequestVoteArgs =
  rva_Term :: int
  rva_CandidateId :: int
  rva_LastLogIndex :: int
  rva_LastLogTerm :: int

record RequestVoteReply =
  rvr_Term :: int
  rvr_VoteGranted :: bool

section \<open>The RequestVote handler\<close>

definition RequestVote ::
    "env \<Rightarrow> RequestVoteArgs \<Rightarrow> 'c Raft \<Rightarrow> ('c Raft \<times> RequestVoteReply) res" where
  "RequestVote env args rf0 =
     rbind (resetElectionTimer env rf0) (\<lambda>rf.
     let reply = \<lparr>rvr_Term = currentTerm rf, rvr_VoteGranted = False\<rparr>
     in rbind
       (if rva_Term args > currentTerm rf
        then rbind (changeRole env Follower rf) (\<lambda>rf.
               Inr (rf\<lparr>currentTerm := rva_Term args, votedFor := -1\<rparr>))
        else Inr rf) (\<lambda>rf.
       if rva_Term args < currentTerm rf then Inr (persist rf, reply)
       else let (lastLogTerm, lastLogIndex) = lastLogTermIndex rf
       in if rva_LastLogTerm args < lastLogTerm \<or>
             rva_LastLogTerm args = lastLogTerm \<and> rva_LastLogIndex args < lastLogIndex
       then Inr (persist rf, reply)
       else if role rf = Leader then Inr (persist rf, reply)
       else if votedFor rf = -1 \<or> votedFor rf = rva_CandidateId args
       then let rf = rf\<lparr>currentTerm := rva_Term args, votedFor := rva_CandidateId args\<rparr>;
                reply = reply\<lparr>rvr_VoteGranted := True\<rparr>
            in rbind (changeRole env Follower rf) (\<lambda>rf. Inr (persist rf, reply))
       else Inr (persist rf, reply)))"

section \<open>An election\<close>

definition electionBegin ::
    "env \<Rightarrow> 'c Raft \<Rightarrow> ('c Raft \<times> RequestVoteArgs) res" where
  "electionBegin env rf =
     rbind (changeRole env Candidate rf) (\<lambda>rf.
       let (lastLogTerm, lastLogIndex) = lastLogTermIndex rf
       in Inr (rf, \<lparr>rva_Term = currentTerm rf, rva_CandidateId = me rf,
                    rva_LastLogIndex = lastLogIndex, rva_LastLogTerm = lastLogTerm\<rparr>))"

fun electionReply :: "env \<Rightarrow> RequestVoteArgs \<Rightarrow> RequestVoteReply option
    \<Rightarrow> 'c Raft \<times> int \<Rightarrow> ('c Raft \<times> int) res" where
  "electionReply env args None (rf, voteCount) = Inr (rf, voteCount)"
| "electionReply env args (Some reply) (rf, voteCount) =
     rbind (if rvr_Term reply > rva_Term args
            then changeRole env Follower (rf\<lparr>currentTerm := rvr_Term reply\<rparr>)
            else Inr rf) (\<lambda>rf.
       Inr (rf, if rvr_VoteGranted reply then voteCount + 1 else voteCount))"

fun electionReplies :: "env \<Rightarrow> RequestVoteArgs \<Rightarrow> RequestVoteReply option list
    \<Rightarrow> 'c Raft \<times> int \<Rightarrow> ('c Raft \<times> int) res" where
  "electionReplies env args [] st = Inr st"
| "electionReplies env args (r # rs) st =
     rbind (electionReply env args r st) (electionReplies env args rs)"

definition electionEnd :: "env \<Rightarrow> int \<Rightarrow> 'c Raft \<Rightarrow> ('c Raft \<times> bool) res" where
  "electionEnd env voteCount rf =
     (if voteCount > int (peers rf div 2)
      then rbind (changeRole env Leader rf) (\<lambda>rf. Inr (persist rf, True))
      else Inr (persist rf, False))"

definition startElection ::
    "env \<Rightarrow> RequestVoteReply option list \<Rightarrow> 'c Raft \<Rightarrow> ('c Raft \<times> bool) res" where
  "startElection env replies rf0 =
     rbind (resetElectionTimer env rf0) (\<lambda>rf.
       if role rf = Leader then Inr (persist rf, False)
       else rbind (electionBegin env rf) (\<lambda>(rf, args).
              rbind (electionReplies env args replies (rf, 1)) (\<lambda>(rf, voteCount).
                electionEnd env voteCount rf)))"

text \<open>
  What the timer goroutine of \<open>Make\<close> does with the outcome of an election it started: a server
  that did not win becomes a follower.
\<close>

definition electionFailed :: "env \<Rightarrow> 'c Raft \<Rightarrow> 'c Raft res" where
  "electionFailed env rf = changeRole env Follower rf"

section \<open>The votes of one server\<close>

text \<open>The order on logs that voting uses: last term first, then length.\<close>

definition log_older :: "RequestVoteArgs \<Rightarrow> 'c Raft \<Rightarrow> bool" where
  "log_older args rf \<longleftrightarrow>
     rva_LastLogTerm args < fst (lastLogTermIndex rf) \<or>
     rva_LastLogTerm args = fst (lastLogTermIndex rf) \<and>
     rva_LastLogIndex args < snd (lastLogTermIndex rf)"

text \<open>Whether a request is granted, as a predicate on the state before it.\<close>

definition grants :: "RequestVoteArgs \<Rightarrow> 'c Raft \<Rightarrow> bool" where
  "grants args rf \<longleftrightarrow>
     \<not> log_older args rf \<and>
     (currentTerm rf < rva_Term args \<or>
      currentTerm rf = rva_Term args \<and> role rf \<noteq> Leader \<and>
      (votedFor rf = -1 \<or> votedFor rf = rva_CandidateId args))"

lemma RequestVote_eq:
  "RequestVote env args rf =
     Inr (let rf1 = rf\<lparr>electionTimer := rearmed env (electionTimer rf)\<rparr>;
              rf2 = (if currentTerm rf < rva_Term args
                     then rf1\<lparr>role := Follower, electionTimer := rearmed env (electionTimer rf1),
                            currentTerm := rva_Term args, votedFor := -1\<rparr>
                     else rf1)
          in (persist (if grants args rf
                       then rf2\<lparr>currentTerm := rva_Term args,
                              votedFor := rva_CandidateId args, role := Follower,
                              electionTimer := rearmed env (electionTimer rf2)\<rparr>
                       else rf2),
              \<lparr>rvr_Term = currentTerm rf, rvr_VoteGranted = grants args rf\<rparr>))"
  by (auto simp: RequestVote_def grants_def log_older_def Let_def lastLogTermIndex_def
      split: prod.splits)

lemma RequestVote_Inr:
  assumes "RequestVote env args rf = Inr (rf', reply)"
  shows "rvr_Term reply = currentTerm rf" "rvr_VoteGranted reply = grants args rf"
    and "currentTerm rf' = max (currentTerm rf) (rva_Term args)"
    and "votedFor rf' = (if grants args rf then rva_CandidateId args
                         else if currentTerm rf < rva_Term args then -1 else votedFor rf)"
    and "role rf' = (if grants args rf \<or> currentTerm rf < rva_Term args then Follower
                     else role rf)"
    and "logEntries rf' = logEntries rf" "me rf' = me rf" "peers rf' = peers rf"
    and "nextIndex rf' = nextIndex rf" "matchIndex rf' = matchIndex rf"
    and "commitIndex rf' = commitIndex rf" "lastApplied rf' = lastApplied rf"
    and "durable (persister rf') = persistent rf'"
    and "tm_active (electionTimer rf')"
  using assms
  by (auto simp: RequestVote_eq Let_def grants_def rearmed_def persistent_def split: if_splits)

lemma RequestVote_returns [panic_free]: "\<exists>rf' reply. RequestVote env args rf = Inr (rf', reply)"
  by (simp add: RequestVote_eq Let_def)

section \<open>The outcome of an election\<close>

lemma electionBegin_eq:
  "electionBegin env rf =
     (let rf' = rf\<lparr>role := Candidate, electionTimer := rearmed env (electionTimer rf),
                   currentTerm := currentTerm rf + 1, votedFor := me rf\<rparr>
      in Inr (rf', \<lparr>rva_Term = currentTerm rf + 1, rva_CandidateId = me rf,
                    rva_LastLogIndex = snd (lastLogTermIndex rf),
                    rva_LastLogTerm = fst (lastLogTermIndex rf)\<rparr>))"
  by (simp add: electionBegin_def Let_def lastLogTermIndex_def split: prod.splits)

lemma electionBegin_fields:
  assumes "electionBegin env rf = Inr (rf', args)"
  shows "role rf' = Candidate" "currentTerm rf' = currentTerm rf + 1" "votedFor rf' = me rf"
    "persister rf' = persister rf" "me rf' = me rf" "peers rf' = peers rf"
    "rva_Term args = currentTerm rf + 1" "rva_CandidateId args = me rf"
    "logEntries rf' = logEntries rf"
  using assms by (auto simp: electionBegin_eq Let_def)

text \<open>The answers that carry a term above the candidate's, and those that grant the vote.\<close>

definition stale_answers :: "int \<Rightarrow> RequestVoteReply option list \<Rightarrow> RequestVoteReply list" where
  "stale_answers t rs = [r. Some r \<leftarrow> rs, rvr_Term r > t]"

definition granted_answers :: "RequestVoteReply option list \<Rightarrow> RequestVoteReply list" where
  "granted_answers rs = [r. Some r \<leftarrow> rs, rvr_VoteGranted r]"

lemma answers_simps [simp]:
  "stale_answers t [] = []" "granted_answers [] = []"
  "stale_answers t (None # rs) = stale_answers t rs"
  "granted_answers (None # rs) = granted_answers rs"
  "stale_answers t (Some r # rs) =
     (if rvr_Term r > t then r # stale_answers t rs else stale_answers t rs)"
  "granted_answers (Some r # rs) =
     (if rvr_VoteGranted r then r # granted_answers rs else granted_answers rs)"
  by (simp_all add: stale_answers_def granted_answers_def)

lemma electionReply_cases:
  assumes "electionReply env args r (rf, n) = Inr (rf', n')"
  shows "(r = None \<and> rf' = rf \<and> n' = n) \<or>
     (\<exists>reply. r = Some reply \<and> n' = n + (if rvr_VoteGranted reply then 1 else 0) \<and>
        rf' = (if rvr_Term reply > rva_Term args
               then rf\<lparr>currentTerm := rvr_Term reply, role := Follower,
                       electionTimer := rearmed env (electionTimer rf)\<rparr>
               else rf))"
  using assms by (cases r) (auto split: if_splits)

lemma electionReplies_result:
  "\<exists>rf'. electionReplies env args rs (rf, n) =
           Inr (rf', n + int (length (granted_answers rs))) \<and>
     currentTerm rf' = (if stale_answers (rva_Term args) rs = [] then currentTerm rf
                        else rvr_Term (last (stale_answers (rva_Term args) rs))) \<and>
     role rf' = (if stale_answers (rva_Term args) rs = [] then role rf else Follower) \<and>
     votedFor rf' = votedFor rf \<and> logEntries rf' = logEntries rf \<and>
     me rf' = me rf \<and> peers rf' = peers rf \<and> persister rf' = persister rf"
proof (induction rs arbitrary: rf n)
  case Nil
  then show ?case by simp
next
  case (Cons r rs)
  show ?case
  proof (cases r)
    case None
    with Cons.IH [of rf n] show ?thesis by auto
  next
    case (Some a)
    let ?rf = "if rvr_Term a > rva_Term args
      then rf\<lparr>currentTerm := rvr_Term a, role := Follower,
              electionTimer := rearmed env (electionTimer rf)\<rparr> else rf"
    let ?n = "if rvr_VoteGranted a then n + 1 else n"
    have "electionReplies env args (r # rs) (rf, n) = electionReplies env args rs (?rf, ?n)"
      by (simp add: Some)
    with Cons.IH [of ?rf ?n] show ?thesis by (auto simp: Some)
  qed
qed

lemma startElection_leader:
  "role rf = Leader \<Longrightarrow>
   startElection env rs rf = Inr (persist (rf\<lparr>electionTimer := rearmed env (electionTimer rf)\<rparr>), False)"
  by (simp add: startElection_def)

text \<open>The state between the last answer and the end of the election.\<close>

lemma startElection_split:
  assumes "role rf \<noteq> Leader"
  obtains rf1 where
    "startElection env rs rf = electionEnd env (1 + int (length (granted_answers rs))) rf1"
    and "currentTerm rf1 = (if stale_answers (currentTerm rf + 1) rs = [] then currentTerm rf + 1
                            else rvr_Term (last (stale_answers (currentTerm rf + 1) rs)))"
    and "role rf1 = (if stale_answers (currentTerm rf + 1) rs = [] then Candidate else Follower)"
    and "votedFor rf1 = me rf" "logEntries rf1 = logEntries rf" "me rf1 = me rf"
    and "peers rf1 = peers rf"
proof -
  let ?rf0 = "rf\<lparr>electionTimer := rearmed env (electionTimer rf)\<rparr>"
  obtain c args where begin_eq: "electionBegin env ?rf0 = Inr (c, args)"
    and c: "currentTerm c = currentTerm rf + 1" "role c = Candidate" "votedFor c = me rf"
      "logEntries c = logEntries rf" "me c = me rf" "peers c = peers rf"
    and a: "rva_Term args = currentTerm rf + 1"
    by (simp add: electionBegin_eq Let_def)
  from electionReplies_result [of env args rs c 1] obtain rf1 where
    rf1: "electionReplies env args rs (c, 1) = Inr (rf1, 1 + int (length (granted_answers rs)))"
    "currentTerm rf1 = (if stale_answers (rva_Term args) rs = [] then currentTerm c
                        else rvr_Term (last (stale_answers (rva_Term args) rs)))"
    "role rf1 = (if stale_answers (rva_Term args) rs = [] then role c else Follower)"
    "votedFor rf1 = votedFor c" "logEntries rf1 = logEntries c" "me rf1 = me c"
    "peers rf1 = peers c"
    by blast
  have "startElection env rs rf = electionEnd env (1 + int (length (granted_answers rs))) rf1"
    using assms by (simp add: startElection_def begin_eq rf1(1))
  then show ?thesis using that rf1 c a by simp
qed

lemma last_stale_gt:
  "stale_answers t rs \<noteq> [] \<Longrightarrow> t < rvr_Term (last (stale_answers t rs))"
  using last_in_set [of "stale_answers t rs"] by (auto simp: stale_answers_def)

section \<open>Properties\<close>

text \<open>
  C8: the RequestVote handler on every branch. It never panics. It grants the vote exactly when the candidate's log is
  not older than the server's and the request is of a later term, or of the server's term
  while it is not the leader and has not voted for another. Its term becomes the larger of the
  two; the vote it answers with is on disk before it answers; and whatever it answers, its
  election timer restarts.
\<close>

theorem RequestVote_correct:
  "\<exists>rf' reply. RequestVote env args rf = Inr (rf', reply) \<and>
     rvr_Term reply = currentTerm rf \<and>
     (rvr_VoteGranted reply \<longleftrightarrow>
        \<not> (rva_LastLogTerm args < fst (lastLogTermIndex rf) \<or>
           rva_LastLogTerm args = fst (lastLogTermIndex rf) \<and>
           rva_LastLogIndex args < snd (lastLogTermIndex rf)) \<and>
        (currentTerm rf < rva_Term args \<or>
         currentTerm rf = rva_Term args \<and> role rf \<noteq> Leader \<and>
         votedFor rf \<in> {-1, rva_CandidateId args})) \<and>
     currentTerm rf' = max (currentTerm rf) (rva_Term args) \<and>
     durable (persister rf') = (currentTerm rf', votedFor rf', logEntries rf) \<and>
     votedFor rf' = (if rvr_VoteGranted reply then rva_CandidateId args
                     else if currentTerm rf < rva_Term args then -1 else votedFor rf) \<and>
     role rf' = (if rvr_VoteGranted reply \<or> currentTerm rf < rva_Term args
                 then Follower else role rf) \<and>
     tm_active (electionTimer rf')"
proof -
  obtain rf' reply where run: "RequestVote env args rf = Inr (rf', reply)"
    using RequestVote_returns by blast
  note r = RequestVote_Inr [OF run]
  have d: "durable (persister rf') = (currentTerm rf', votedFor rf', logEntries rf)"
    using r(6,13) by (simp add: persistent_def)
  have g: "grants args rf \<longleftrightarrow>
      \<not> (rva_LastLogTerm args < fst (lastLogTermIndex rf) \<or>
         rva_LastLogTerm args = fst (lastLogTermIndex rf) \<and>
         rva_LastLogIndex args < snd (lastLogTermIndex rf)) \<and>
      (currentTerm rf < rva_Term args \<or>
       currentTerm rf = rva_Term args \<and> role rf \<noteq> Leader \<and>
       votedFor rf \<in> {-1, rva_CandidateId args})"
    by (simp add: grants_def log_older_def)
  show ?thesis
    unfolding g [symmetric] by (intro exI conjI, rule run) (simp_all add: r(1-5,14) d)
qed

text \<open>
  C20: the outcome of an election. A server that is not leader and whose index is among its
  peers always finishes \<open>startElection\<close> given the answers of its peers. Unless one of them is of a later term and the votes suffice nevertheless, it
  wins exactly when no answer is of a later term and its own vote and the granted ones exceed half of the peers. A winner leads the term it asked for, and has all peers' next index after its last
  log entry. A loser has voted for itself, and its term is the one it asked for, or that of the last
  answer with a later one.
\<close>

theorem startElection_outcome:
  assumes "role rf \<noteq> Leader" "0 \<le> me rf" "me rf < int (peers rf)"
    and "stale_answers (currentTerm rf + 1) rs = [] \<or> 1 + length (granted_answers rs) \<le> peers rf div 2"
  shows "\<exists>rf'. startElection env rs rf =
       Inr (rf', stale_answers (currentTerm rf + 1) rs = [] \<and> peers rf div 2 < 1 + length (granted_answers rs)) \<and>
     currentTerm rf' = (if stale_answers (currentTerm rf + 1) rs = [] then currentTerm rf + 1
                        else rvr_Term (last (stale_answers (currentTerm rf + 1) rs))) \<and>
     currentTerm rf < currentTerm rf' \<and> logEntries rf' = logEntries rf \<and>
     durable (persister rf') = (currentTerm rf', votedFor rf', logEntries rf) \<and>
     (if peers rf div 2 < 1 + length (granted_answers rs)
      then role rf' = Leader \<and> currentTerm rf' = currentTerm rf + 1 \<and> votedFor rf' = -1 \<and>
           nextIndex rf' = replicate (peers rf) (snd (lastLogTermIndex rf) + 1)
      else role rf' \<noteq> Leader \<and> votedFor rf' = me rf)"
proof -
  obtain rf1 where e: "startElection env rs rf =
      electionEnd env (1 + int (length (granted_answers rs))) rf1"
    and t: "currentTerm rf1 = (if stale_answers (currentTerm rf + 1) rs = [] then currentTerm rf + 1
                            else rvr_Term (last (stale_answers (currentTerm rf + 1) rs)))"
    and r: "role rf1 \<noteq> Leader" "votedFor rf1 = me rf" "logEntries rf1 = logEntries rf"
      "me rf1 = me rf" "peers rf1 = peers rf"
    by (rule startElection_split [OF assms(1), of env rs]) (simp split: if_splits)
  have gt: "currentTerm rf < currentTerm rf1"
    using last_stale_gt [of "currentTerm rf + 1" rs] by (auto simp: t)
  have l: "lastLogTermIndex rf1 = lastLogTermIndex rf" by (rule lastLogTermIndex_cong) (rule r(3))
  have w: "int (peers rf div 2) < 1 + int (length (granted_answers rs)) \<longleftrightarrow>
      peers rf div 2 < 1 + length (granted_answers rs)" by linarith
  show ?thesis
    unfolding e
    using assms(2-4) gt r
    by (auto simp: electionEnd_def w changeRole_Leader l persistent_def t)
qed

theorem startElection_outcome_witness:
  "\<exists>rf'. startElection (0, 0) [Some \<lparr>rvr_Term = 4, rvr_VoteGranted = True\<rparr>, None]
       (sampleServer 3 1 Follower 4 (-1) [mkEntry 0 0 (None :: string option)]) = Inr (rf', True) \<and>
     currentTerm rf' = 5 \<and> role rf' = Leader \<and> nextIndex rf' = [1, 1, 1]"
  using startElection_outcome [of "sampleServer 3 1 Follower 4 (-1) [mkEntry 0 0 (None :: string option)]"
      "[Some \<lparr>rvr_Term = 4, rvr_VoteGranted = True\<rparr>, None]" "(0, 0)"]
  by (auto simp: sampleServer_def newRaft_def mkEntry_def lastLogTermIndex_def numeral_3_eq_3)

text \<open>
  A server takes over after a stale answer. If enough votes come in, \<open>startElection\<close> makes the server leader even
  when one of the answers told it of a later term: it then leads that later term, in which nobody
  voted for it. (The comment at the test asks for the opposite: with an old term, do not go
  on.)
\<close>

theorem startElection_leads_unvoted_term:
  assumes "role rf \<noteq> Leader" "0 \<le> me rf" "me rf < int (peers rf)"
    and "stale_answers (currentTerm rf + 1) rs \<noteq> []"
    and "peers rf div 2 < 1 + length (granted_answers rs)"
  shows "\<exists>rf'. startElection env rs rf = Inr (rf', True) \<and> role rf' = Leader \<and>
     currentTerm rf + 1 < currentTerm rf' \<and>
     (\<exists>r \<in> set rs. \<exists>a. r = Some a \<and> currentTerm rf' = rvr_Term a)"
proof -
  let ?s = "stale_answers (currentTerm rf + 1) rs"
  obtain rf1 where e: "startElection env rs rf =
      electionEnd env (1 + int (length (granted_answers rs))) rf1"
    and t: "currentTerm rf1 = rvr_Term (last ?s)" and r: "me rf1 = me rf" "peers rf1 = peers rf"
    by (rule startElection_split [OF assms(1), of env rs]) (simp add: assms(4))
  have "last ?s \<in> set ?s" using assms(4) by (rule last_in_set)
  then have "Some (last ?s) \<in> set rs" by (auto simp: stale_answers_def)
  moreover have "int (peers rf div 2) < 1 + int (length (granted_answers rs))"
    using assms(5) by linarith
  ultimately show ?thesis
    unfolding e using assms(2,3) last_stale_gt [OF assms(4)] t r
    by (auto simp: electionEnd_def changeRole_Leader)
qed

theorem startElection_leads_unvoted_term_witness:
  "\<exists>rf'. startElection (0, 0) [Some \<lparr>rvr_Term = 4, rvr_VoteGranted = True\<rparr>,
                             Some \<lparr>rvr_Term = 9, rvr_VoteGranted = False\<rparr>]
       (sampleServer 3 1 Follower 4 (-1) [mkEntry 0 0 (None :: string option)]) = Inr (rf', True) \<and>
     role rf' = Leader \<and> 5 < currentTerm rf'"
  using startElection_leads_unvoted_term [of "sampleServer 3 1 Follower 4 (-1) [mkEntry 0 0 (None :: string option)]"
      "[Some \<lparr>rvr_Term = 4, rvr_VoteGranted = True\<rparr>, Some \<lparr>rvr_Term = 9, rvr_VoteGranted = False\<rparr>]" "(0, 0)"]
  by (auto simp: sampleServer_def newRaft_def)

end
