(* ===== verification/Raft_Entry.thy ===== *)
theory Raft_Entry
  imports Raft_Vote
begin

text \<open>
  \<open>raft/entry.go\<close>: the replication of the log. \<open>SendHeartbeat\<close> holds the leader's mutex while it
  waits for the peer's answer; it is split there into \<open>heartbeatBegin\<close>, which computes the
  request, and \<open>heartbeatEnd\<close>, which handles the reply (the zero reply when the RPC failed
  or timed out: its result is not looked at). \<open>SendHeartbeat\<close> is their composition.
\<close>

section \<open>Messages\<close>

record 'c AppendEntriesArgs =
  ae_Term :: int
  ae_LeaderId :: int
  ae_PrevLogIndex :: int
  ae_PrevLogTerm :: int
  ae_Entries :: "'c LogEntry list"
  ae_LeaderCommit :: int

record AppendEntriesReply =
  aer_Term :: int
  aer_Success :: bool
  aer_NextIndex :: int

definition zeroReply :: AppendEntriesReply where
  "zeroReply = \<lparr>aer_Term = 0, aer_Success = False, aer_NextIndex = 0\<rparr>"

section \<open>The AppendEntries handler\<close>

text \<open>
  The loop over the new entries: the index of the first one that conflicts with the log, if
  there is one.
\<close>

fun conflictIndex :: "'c LogEntry list \<Rightarrow> 'c LogEntry list \<Rightarrow> int option res" where
  "conflictIndex l [] = Inr None"
| "conflictIndex l (entry # es) =
     (if ent_Index entry < int (length l)
      then rbind (go_index l (ent_Index entry)) (\<lambda>old.
             if ent_Term old \<noteq> ent_Term entry then Inr (Some (ent_Index entry))
             else conflictIndex l es)
      else conflictIndex l es)"

text \<open>
  The condition of the consistency check: the log reaches the entry before the new ones and
  that entry is of another term.
\<close>

definition prevMismatch :: "'c AppendEntriesArgs \<Rightarrow> 'c LogEntry list \<Rightarrow> bool res" where
  "prevMismatch args l =
     (if ae_PrevLogIndex args > 0 \<and> ae_PrevLogIndex args \<le> int (length l) - 1
      then rbind (go_index l (ae_PrevLogIndex args)) (\<lambda>e.
             Inr (ent_Term e \<noteq> ae_PrevLogTerm args))
      else Inr False)"

definition AppendEntries ::
    "env \<Rightarrow> 'c AppendEntriesArgs \<Rightarrow> 'c Raft \<Rightarrow> ('c Raft \<times> AppendEntriesReply) res" where
  "AppendEntries env args rf0 =
     rbind (resetElectionTimer env rf0) (\<lambda>rf.
     let reply = zeroReply in
     if ae_Term args > currentTerm rf
     then let rf = rf\<lparr>currentTerm := ae_Term args\<rparr>;
              reply = reply\<lparr>aer_Term := currentTerm rf, aer_Success := False\<rparr>
          in rbind (changeRole env Follower rf) (\<lambda>rf. Inr (persist rf, reply))
     else if ae_Term args < currentTerm rf
     then Inr (persist rf, reply\<lparr>aer_Term := currentTerm rf, aer_Success := False\<rparr>)
     else rbind (prevMismatch args (logEntries rf)) (\<lambda>mismatch.
     if mismatch
     then rbind (slice_to (logEntries rf) (ae_PrevLogIndex args)) (\<lambda>l.
            Inr (persist (rf\<lparr>logEntries := l\<rparr>),
                 reply\<lparr>aer_Success := False, aer_NextIndex := ae_PrevLogIndex args\<rparr>))
     else rbind (conflictIndex (logEntries rf) (ae_Entries args)) (\<lambda>conflict.
     case conflict of
       Some k \<Rightarrow>
         rbind (slice_to (logEntries rf) k) (\<lambda>l.
           Inr (persist (rf\<lparr>logEntries := l\<rparr>),
                reply\<lparr>aer_Success := False, aer_NextIndex := k\<rparr>))
     | None \<Rightarrow>
         if ae_PrevLogIndex args > int (length (logEntries rf)) - 1
         then Inr (persist rf,
                   reply\<lparr>aer_Success := False, aer_NextIndex := int (length (logEntries rf))\<rparr>)
         else let rf = rf\<lparr>logEntries := logEntries rf @ ae_Entries args\<rparr>;
                  lastIndex = int (length (logEntries rf)) - 1;
                  reply = reply\<lparr>aer_NextIndex := lastIndex + 1, aer_Success := True\<rparr>;
                  rf = (if ae_LeaderCommit args > commitIndex rf
                        then rf\<lparr>commitIndex := (if ae_LeaderCommit args > lastIndex
                                                then lastIndex else ae_LeaderCommit args)\<rparr>
                        else rf)
              in Inr (persist rf, reply))))"

section \<open>The leader's side\<close>

definition getAppendLogs ::
    "int \<Rightarrow> 'c Raft \<Rightarrow> (int \<times> int \<times> 'c LogEntry list) res" where
  "getAppendLogs serverID rf =
     rbind (go_index (nextIndex rf) serverID) (\<lambda>nextIdx.
       let (lastLogTerm, lastLogIndex) = lastLogTermIndex rf
       in if lastLogIndex < nextIdx then Inr (lastLogIndex, lastLogTerm, [])
          else rbind (slice_from (logEntries rf) nextIdx) (\<lambda>logs.
            if logs = [] then Inr (lastLogIndex, lastLogTerm, [])
            else rbind (go_index (logEntries rf) (nextIdx - 1)) (\<lambda>e.
                   Inr (nextIdx - 1, ent_Term e, logs))))"

text \<open>
  The inner loop of \<open>commitLog\<close> counts the servers whose \<open>matchIndex\<close> reaches \<open>i\<close> until it has a
  majority; the outer one does this for each index above \<open>commitIndex\<close>.
\<close>

fun agreed :: "int \<Rightarrow> int \<Rightarrow> int \<Rightarrow> int list \<Rightarrow> bool" where
  "agreed half i agreeCount [] = False"
| "agreed half i agreeCount (m # ms) =
     (if m \<ge> i
      then (if agreeCount + 1 > half then True else agreed half i (agreeCount + 1) ms)
      else agreed half i agreeCount ms)"

definition commitLog :: "'c Raft \<Rightarrow> 'c Raft" where
  "commitLog rf0 =
     fold (\<lambda>i rf. if agreed (int (peers rf div 2)) i 0 (matchIndex rf)
                  then rf\<lparr>commitIndex := i\<rparr> else rf)
       [commitIndex rf0 + 1 .. int (length (logEntries rf0)) - 1] rf0"

definition heartbeatBegin :: "int \<Rightarrow> 'c Raft \<Rightarrow> 'c AppendEntriesArgs res" where
  "heartbeatBegin server rf =
     rbind (getAppendLogs server rf) (\<lambda>(prevLogIndex, prevLogTerm, logs).
       Inr \<lparr>ae_Term = currentTerm rf, ae_LeaderId = me rf, ae_PrevLogIndex = prevLogIndex,
            ae_PrevLogTerm = prevLogTerm, ae_Entries = logs, ae_LeaderCommit = commitIndex rf\<rparr>)"

text \<open>How a reply moves the leader's two indices for the peer.\<close>

definition adjustIndex :: "int \<Rightarrow> AppendEntriesReply \<Rightarrow> 'c Raft \<Rightarrow> 'c Raft res" where
  "adjustIndex server reply rf =
     rbind
       (if aer_NextIndex reply = -1
        then rbind (go_index (nextIndex rf) server) (\<lambda>n.
             rbind (go_update (nextIndex rf) server (n - 1)) (\<lambda>ni.
             rbind (go_update (matchIndex rf) server (n - 1 - 1)) (\<lambda>mi.
               Inr (rf\<lparr>nextIndex := ni, matchIndex := mi\<rparr>))))
        else Inr rf) (\<lambda>rf.
       if aer_NextIndex reply \<noteq> 0 \<and> aer_NextIndex reply \<noteq> -1
       then rbind (go_update (nextIndex rf) server (aer_NextIndex reply)) (\<lambda>ni.
            rbind (go_update (matchIndex rf) server (aer_NextIndex reply - 1)) (\<lambda>mi.
              Inr (rf\<lparr>nextIndex := ni, matchIndex := mi\<rparr>)))
       else Inr rf)"

definition heartbeatEnd :: "env \<Rightarrow> int \<Rightarrow> 'c AppendEntriesArgs \<Rightarrow> AppendEntriesReply
    \<Rightarrow> 'c Raft \<Rightarrow> 'c Raft res" where
  "heartbeatEnd env server args reply rf =
     (if currentTerm rf < aer_Term reply
      then rbind (changeRole env Follower (rf\<lparr>currentTerm := aer_Term reply\<rparr>)) (\<lambda>rf.
             Inr (persist rf))
      else rbind (adjustIndex server reply rf) (\<lambda>rf.
        if length (ae_Entries args) \<noteq> 0 \<and> aer_Success reply
        then rbind (go_index (ae_Entries args) 0) (\<lambda>e.
               if ent_Term e = currentTerm rf
               then Inr (persist (commitLog rf)) else Inr (persist rf))
        else Inr (persist rf)))"

text \<open>The peer is a function from the request to its reply, \<open>None\<close> when the RPC fails.\<close>

definition SendHeartbeat :: "env \<Rightarrow> int \<Rightarrow> ('c AppendEntriesArgs \<Rightarrow> AppendEntriesReply option)
    \<Rightarrow> 'c Raft \<Rightarrow> 'c Raft res" where
  "SendHeartbeat env server peer rf =
     (if me rf = server
      then rbind (resetElectionTimer env rf) (\<lambda>rf. Inr (persist rf))
      else rbind (heartbeatBegin server rf) (\<lambda>args.
             heartbeatEnd env server args
               (case peer args of None \<Rightarrow> zeroReply | Some reply \<Rightarrow> reply) rf))"

text \<open>
  One round of the heartbeat goroutine: the role is looked at once, then every peer is
  sent to.
\<close>

fun heartbeatLoop :: "env \<Rightarrow> (int \<Rightarrow> 'c AppendEntriesArgs \<Rightarrow> AppendEntriesReply option)
    \<Rightarrow> int list \<Rightarrow> 'c Raft \<Rightarrow> 'c Raft res" where
  "heartbeatLoop env net [] rf = Inr rf"
| "heartbeatLoop env net (i # is) rf =
     rbind (SendHeartbeat env i (net i) rf) (heartbeatLoop env net is)"

definition heartbeatRound :: "env \<Rightarrow> (int \<Rightarrow> 'c AppendEntriesArgs \<Rightarrow> AppendEntriesReply option)
    \<Rightarrow> 'c Raft \<Rightarrow> 'c Raft res" where
  "heartbeatRound env net rf =
     (let (_, isLeader) = GetState rf
      in if isLeader then heartbeatLoop env net [0 .. int (peers rf) - 1] rf else Inr rf)"

section \<open>Commitment\<close>

definition supporters :: "int \<Rightarrow> int list \<Rightarrow> nat" where
  "supporters i ms = length (filter (\<lambda>m. i \<le> m) ms)"

lemma agreed_iff:
  "c \<le> half \<Longrightarrow> agreed half i c ms \<longleftrightarrow> half < c + int (supporters i ms)"
  by (induction half i c ms rule: agreed.induct) (auto simp: supporters_def)

text \<open>\<open>commitLog\<close> changes the commit index only, and the new one is the last that passed.\<close>

definition committable :: "'c Raft \<Rightarrow> int \<Rightarrow> bool" where
  "committable rf i \<longleftrightarrow> peers rf div 2 < supporters i (matchIndex rf)"

lemma committable_antimono: "committable rf j \<Longrightarrow> i \<le> j \<Longrightarrow> committable rf i"
  using count_ge_antimono [of i j "matchIndex rf"] by (simp add: committable_def supporters_def)

lemma agreed_committable [simp]:
  "agreed (int (peers rf div 2)) i 0 (matchIndex rf) = committable rf i"
  by (simp add: agreed_iff committable_def)

lemma committable_commitIndex [simp]: "committable (rf\<lparr>commitIndex := c\<rparr>) = committable rf"
  by (rule ext) (simp add: committable_def)

lemma commit_fold:
  "fold (\<lambda>i rf. if committable rf i then rf\<lparr>commitIndex := i\<rparr> else rf) is rf
   = (case filter (committable rf) is of [] \<Rightarrow> rf
      | js \<Rightarrow> rf\<lparr>commitIndex := last js\<rparr>)"
  by (induction "is" arbitrary: rf) (auto split: list.split)

lemma commitLog_eq:
  "commitLog rf =
     (case filter (committable rf) [commitIndex rf + 1 .. int (length (logEntries rf)) - 1] of
        [] \<Rightarrow> rf | js \<Rightarrow> rf\<lparr>commitIndex := last js\<rparr>)"
  unfolding commitLog_def agreed_committable by (rule commit_fold)

lemma commitLog_sel [simp]:
  "logEntries (commitLog rf) = logEntries rf" "currentTerm (commitLog rf) = currentTerm rf"
  "votedFor (commitLog rf) = votedFor rf" "role (commitLog rf) = role rf"
  "peers (commitLog rf) = peers rf" "me (commitLog rf) = me rf"
  "nextIndex (commitLog rf) = nextIndex rf" "matchIndex (commitLog rf) = matchIndex rf"
  "lastApplied (commitLog rf) = lastApplied rf" "persister (commitLog rf) = persister rf"
  "electionTimer (commitLog rf) = electionTimer rf" "applyCh (commitLog rf) = applyCh rf"
  "dead (commitLog rf) = dead rf"
  by (simp_all add: commitLog_eq split: list.split)

lemma commitLog_update: "rf\<lparr>commitIndex := commitIndex (commitLog rf)\<rparr> = commitLog rf"
  by (simp add: commitLog_eq split: list.split)

lemma last_filter_sorted:
  fixes js :: "int list"
  assumes "sorted js" "j \<in> set js"
  shows "j \<le> last js"
  using assms by (induction js) (auto split: if_splits)

lemma sorted_upto_int: "sorted [i .. (j::int)]"
proof (induction i j rule: upto.induct)
  case (1 i j)
  then show ?case by (simp add: upto.simps [of i j])
qed

lemma commitLog_bounds:
  assumes "commitIndex (commitLog rf) \<noteq> commitIndex rf"
  shows "commitIndex rf < commitIndex (commitLog rf)"
    and "commitIndex (commitLog rf) < int (length (logEntries rf))"
    and "committable rf (commitIndex (commitLog rf))"
proof -
  let ?js = "filter (committable rf) [commitIndex rf + 1 .. int (length (logEntries rf)) - 1]"
  from assms have ne: "?js \<noteq> []" and eq: "commitIndex (commitLog rf) = last ?js"
    by (auto simp: commitLog_eq split: list.splits)
  have "last ?js \<in> set ?js" using ne by (rule last_in_set)
  with eq show "commitIndex rf < commitIndex (commitLog rf)"
    and "commitIndex (commitLog rf) < int (length (logEntries rf))"
    and "committable rf (commitIndex (commitLog rf))"
    by auto
qed

lemma commitLog_complete:
  assumes "commitIndex rf < i" "i < int (length (logEntries rf))" "committable rf i"
  shows "i \<le> commitIndex (commitLog rf)"
proof -
  let ?js = "filter (committable rf) [commitIndex rf + 1 .. int (length (logEntries rf)) - 1]"
  have mem: "i \<in> set ?js" using assms by auto
  then have "?js \<noteq> []" by (metis empty_iff list.set(1))
  then have "commitIndex (commitLog rf) = last ?js"
    by (auto simp: commitLog_eq split: list.splits)
  moreover have "i \<le> last ?js"
    using mem by (intro last_filter_sorted sorted_wrt_filter sorted_upto_int)
  ultimately show ?thesis by simp
qed

lemma commitLog_mono: "commitIndex rf \<le> commitIndex (commitLog rf)"
  using commitLog_bounds(1) [of rf] by force

section \<open>The branches of AppendEntries\<close>

text \<open>The consistency check on the entry before the new ones.\<close>

definition prev_mismatch :: "'c AppendEntriesArgs \<Rightarrow> 'c LogEntry list \<Rightarrow> bool" where
  "prev_mismatch args l \<longleftrightarrow>
     0 < ae_PrevLogIndex args \<and> ae_PrevLogIndex args < int (length l) \<and>
     ent_Term (l ! nat (ae_PrevLogIndex args)) \<noteq> ae_PrevLogTerm args"

lemma prevMismatch_eq [simp]: "prevMismatch args l = Inr (prev_mismatch args l)"
  by (auto simp: prevMismatch_def prev_mismatch_def go_index_def)

lemma AppendEntries_newer_term:
  "currentTerm rf < ae_Term args \<Longrightarrow>
   AppendEntries env args rf =
     Inr (persist (rf\<lparr>currentTerm := ae_Term args, role := Follower,
                     electionTimer := rearmed env (rearmed env (electionTimer rf))\<rparr>),
          \<lparr>aer_Term = ae_Term args, aer_Success = False, aer_NextIndex = 0\<rparr>)"
  by (simp add: AppendEntries_def Let_def zeroReply_def)

lemma AppendEntries_older_term:
  "ae_Term args < currentTerm rf \<Longrightarrow>
   AppendEntries env args rf =
     Inr (persist (rf\<lparr>electionTimer := rearmed env (electionTimer rf)\<rparr>),
          \<lparr>aer_Term = currentTerm rf, aer_Success = False, aer_NextIndex = 0\<rparr>)"
  by (simp add: AppendEntries_def Let_def zeroReply_def)

lemma AppendEntries_mismatch:
  assumes "ae_Term args = currentTerm rf" "prev_mismatch args (logEntries rf)"
  shows "AppendEntries env args rf =
     Inr (persist (rf\<lparr>electionTimer := rearmed env (electionTimer rf),
                     logEntries := take (nat (ae_PrevLogIndex args)) (logEntries rf)\<rparr>),
          \<lparr>aer_Term = 0, aer_Success = False, aer_NextIndex = ae_PrevLogIndex args\<rparr>)"
  using assms
  by (simp add: AppendEntries_def Let_def zeroReply_def prev_mismatch_def slice_to_def)

text \<open>The three remaining outcomes, for a request of the server's own term.\<close>

lemma AppendEntries_consistent:
  assumes "ae_Term args = currentTerm rf" "\<not> prev_mismatch args (logEntries rf)"
  shows "AppendEntries env args rf =
     rbind (conflictIndex (logEntries rf) (ae_Entries args)) (\<lambda>conflict.
       let rf1 = rf\<lparr>electionTimer := rearmed env (electionTimer rf)\<rparr> in
       case conflict of
         Some k \<Rightarrow>
           rbind (slice_to (logEntries rf) k) (\<lambda>l.
             Inr (persist (rf1\<lparr>logEntries := l\<rparr>),
                  \<lparr>aer_Term = 0, aer_Success = False, aer_NextIndex = k\<rparr>))
       | None \<Rightarrow>
           if int (length (logEntries rf)) \<le> ae_PrevLogIndex args
           then Inr (persist rf1, \<lparr>aer_Term = 0, aer_Success = False,
                                   aer_NextIndex = int (length (logEntries rf))\<rparr>)
           else let l = logEntries rf @ ae_Entries args;
                    c = (if commitIndex rf < ae_LeaderCommit args
                         then min (ae_LeaderCommit args) (int (length l) - 1)
                         else commitIndex rf)
                in Inr (persist (rf1\<lparr>logEntries := l, commitIndex := c\<rparr>),
                        \<lparr>aer_Term = 0, aer_Success = True, aer_NextIndex = int (length l)\<rparr>))"
  using assms
  by (cases "conflictIndex (logEntries rf) (ae_Entries args)")
     (auto simp: AppendEntries_def Let_def zeroReply_def min_def split: option.split)

lemma conflictIndex_returns:
  "(\<forall>e \<in> set es. 0 \<le> ent_Index e) \<Longrightarrow> \<exists>c. conflictIndex l es = Inr c"
  by (induction l es rule: conflictIndex.induct) (auto simp: go_index_def)

lemma conflictIndex_Some:
  "conflictIndex l es = Inr (Some k) \<Longrightarrow>
     \<exists>j < length es. k = ent_Index (es ! j) \<and> 0 \<le> k \<and> k < int (length l) \<and>
       ent_Term (l ! nat k) \<noteq> ent_Term (es ! j) \<and>
       (\<forall>i < j. ent_Index (es ! i) < int (length l) \<longrightarrow>
          ent_Term (l ! nat (ent_Index (es ! i))) = ent_Term (es ! i))"
proof (induction l es rule: conflictIndex.induct)
  case (1 l)
  then show ?case by simp
next
  case (2 l e es)
  show ?case
  proof (cases "ent_Index e < int (length l) \<and> ent_Term (l ! nat (ent_Index e)) \<noteq> ent_Term e")
    case True
    with "2.prems" have "k = ent_Index e" "0 \<le> k" by auto
    with True show ?thesis by (intro exI [of _ 0]) auto
  next
    case False
    with "2.prems" have "conflictIndex l es = Inr (Some k)"
      by (auto split: if_splits)
    moreover have "ent_Index e < int (length l) \<Longrightarrow> go_index l (ent_Index e) = Inr (l ! nat (ent_Index e))"
      using "2.prems" by (auto split: if_splits)
    ultimately have "\<exists>j < length es. k = ent_Index (es ! j) \<and> 0 \<le> k \<and> k < int (length l) \<and>
       ent_Term (l ! nat k) \<noteq> ent_Term (es ! j) \<and>
       (\<forall>i < j. ent_Index (es ! i) < int (length l) \<longrightarrow>
          ent_Term (l ! nat (ent_Index (es ! i))) = ent_Term (es ! i))"
      using "2.IH" False by (metis (no_types, lifting))
    then obtain j where "j < length es" "k = ent_Index (es ! j)" "0 \<le> k" "k < int (length l)"
      "ent_Term (l ! nat k) \<noteq> ent_Term (es ! j)"
      "\<forall>i < j. ent_Index (es ! i) < int (length l) \<longrightarrow>
          ent_Term (l ! nat (ent_Index (es ! i))) = ent_Term (es ! i)"
      by blast
    with False show ?thesis
      by (intro exI [of _ "Suc j"]) (auto simp: less_Suc_eq_0_disj)
  qed
qed

lemma conflictIndex_None:
  "conflictIndex l es = Inr None \<Longrightarrow> e \<in> set es \<Longrightarrow> ent_Index e < int (length l) \<Longrightarrow>
     0 \<le> ent_Index e \<and> ent_Term (l ! nat (ent_Index e)) = ent_Term e"
  by (induction l es rule: conflictIndex.induct) (auto split: if_splits)

lemma conflictIndex_none_beyond:
  "(\<And>e. e \<in> set es \<Longrightarrow> int (length l) \<le> ent_Index e) \<Longrightarrow> conflictIndex l es = Inr None"
  by (induction l es rule: conflictIndex.induct) force+

section \<open>What the handler keeps\<close>

lemma AppendEntries_cases:
  assumes run: "AppendEntries env args rf = Inr (rf', reply)"
  obtains
    (newer) "currentTerm rf < ae_Term args" "currentTerm rf' = ae_Term args" "role rf' = Follower"
      "logEntries rf' = logEntries rf" "commitIndex rf' = commitIndex rf"
      "reply = \<lparr>aer_Term = ae_Term args, aer_Success = False, aer_NextIndex = 0\<rparr>"
  | (older) "ae_Term args < currentTerm rf" "currentTerm rf' = currentTerm rf" "role rf' = role rf"
      "logEntries rf' = logEntries rf" "commitIndex rf' = commitIndex rf"
      "reply = \<lparr>aer_Term = currentTerm rf, aer_Success = False, aer_NextIndex = 0\<rparr>"
  | (mismatch) "ae_Term args = currentTerm rf" "prev_mismatch args (logEntries rf)"
      "currentTerm rf' = currentTerm rf" "role rf' = role rf"
      "logEntries rf' = take (nat (ae_PrevLogIndex args)) (logEntries rf)"
      "commitIndex rf' = commitIndex rf"
      "reply = \<lparr>aer_Term = 0, aer_Success = False, aer_NextIndex = ae_PrevLogIndex args\<rparr>"
  | (conflict) k where "ae_Term args = currentTerm rf" "\<not> prev_mismatch args (logEntries rf)"
      "conflictIndex (logEntries rf) (ae_Entries args) = Inr (Some k)"
      "currentTerm rf' = currentTerm rf" "role rf' = role rf"
      "logEntries rf' = take (nat k) (logEntries rf)" "commitIndex rf' = commitIndex rf"
      "reply = \<lparr>aer_Term = 0, aer_Success = False, aer_NextIndex = k\<rparr>"
  | (behind) "ae_Term args = currentTerm rf" "\<not> prev_mismatch args (logEntries rf)"
      "conflictIndex (logEntries rf) (ae_Entries args) = Inr None"
      "int (length (logEntries rf)) \<le> ae_PrevLogIndex args"
      "currentTerm rf' = currentTerm rf" "role rf' = role rf"
      "logEntries rf' = logEntries rf" "commitIndex rf' = commitIndex rf"
      "reply = \<lparr>aer_Term = 0, aer_Success = False,
                aer_NextIndex = int (length (logEntries rf))\<rparr>"
  | (success) "ae_Term args = currentTerm rf" "\<not> prev_mismatch args (logEntries rf)"
      "conflictIndex (logEntries rf) (ae_Entries args) = Inr None"
      "ae_PrevLogIndex args < int (length (logEntries rf))"
      "currentTerm rf' = currentTerm rf" "role rf' = role rf"
      "logEntries rf' = logEntries rf @ ae_Entries args"
      "commitIndex rf' = (if commitIndex rf < ae_LeaderCommit args
                          then min (ae_LeaderCommit args) (int (length (logEntries rf')) - 1)
                          else commitIndex rf)"
      "reply = \<lparr>aer_Term = 0, aer_Success = True,
                aer_NextIndex = int (length (logEntries rf'))\<rparr>"
proof -
  consider "currentTerm rf < ae_Term args" | "ae_Term args < currentTerm rf"
    | "ae_Term args = currentTerm rf" "prev_mismatch args (logEntries rf)"
    | "ae_Term args = currentTerm rf" "\<not> prev_mismatch args (logEntries rf)"
    by linarith
  then show thesis
  proof cases
    case 1
    with run newer show thesis by (auto simp: AppendEntries_newer_term)
  next
    case 2
    with run older show thesis by (auto simp: AppendEntries_older_term)
  next
    case 3
    with run mismatch show thesis by (auto simp: AppendEntries_mismatch)
  next
    case 4
    with run obtain c where c: "conflictIndex (logEntries rf) (ae_Entries args) = Inr c"
      by (auto simp: AppendEntries_consistent)
    show thesis
    proof (cases c)
      case None
      with 4 c run behind success show thesis
        by (auto simp: AppendEntries_consistent Let_def split: if_splits)
    next
      case (Some k)
      with 4 c run conflict show thesis
        by (auto simp: AppendEntries_consistent Let_def)
    qed
  qed
qed

text \<open>Fields that no branch writes, and the write to the persister that every branch ends with.\<close>

lemma AppendEntries_frame:
  assumes "AppendEntries env args rf = Inr (rf', reply)"
  shows "votedFor rf' = votedFor rf" "me rf' = me rf" "peers rf' = peers rf"
    "nextIndex rf' = nextIndex rf" "matchIndex rf' = matchIndex rf"
    "lastApplied rf' = lastApplied rf" "applyCh rf' = applyCh rf"
    "durable (persister rf') = persistent rf'"
    "tm_active (electionTimer rf')"
  using assms
  by (auto simp: AppendEntries_def Let_def persistent_def rearmed_def
      split: if_splits option.splits)

lemma AppendEntries_term:
  assumes "AppendEntries env args rf = Inr (rf', reply)"
  shows "currentTerm rf' = max (currentTerm rf) (ae_Term args)"
    and "role rf' = (if currentTerm rf < ae_Term args then Follower else role rf)"
  using assms by (auto elim!: AppendEntries_cases)

lemma AppendEntries_returns [panic_free]:
  assumes "\<forall>e \<in> set (ae_Entries args). 0 \<le> ent_Index e"
  shows "\<exists>rf' reply. AppendEntries env args rf = Inr (rf', reply)"
proof -
  consider "currentTerm rf < ae_Term args" | "ae_Term args < currentTerm rf"
    | "ae_Term args = currentTerm rf" "prev_mismatch args (logEntries rf)"
    | "ae_Term args = currentTerm rf" "\<not> prev_mismatch args (logEntries rf)"
    by linarith
  then show ?thesis
  proof cases
    case 1
    then show ?thesis by (simp add: AppendEntries_newer_term)
  next
    case 2
    then show ?thesis by (simp add: AppendEntries_older_term)
  next
    case 3
    then show ?thesis by (simp add: AppendEntries_mismatch)
  next
    case 4
    obtain c where c: "conflictIndex (logEntries rf) (ae_Entries args) = Inr c"
      using conflictIndex_returns [OF assms] by blast
    with 4 show ?thesis
      by (cases c) (auto simp: AppendEntries_consistent Let_def dest!: conflictIndex_Some)
  qed
qed

section \<open>What the leader keeps\<close>

definition replyIndex :: "int \<Rightarrow> AppendEntriesReply \<Rightarrow> 'c Raft \<Rightarrow> int" where
  "replyIndex server reply rf =
     (if aer_NextIndex reply = -1 then nextIndex rf ! nat server - 1 else aer_NextIndex reply)"

lemma adjustIndex_Inr:
  "adjustIndex server reply rf = Inr rf1 \<longleftrightarrow>
     (if aer_NextIndex reply = 0 then rf1 = rf
      else 0 \<le> server \<and> server < int (length (nextIndex rf)) \<and>
           server < int (length (matchIndex rf)) \<and>
           rf1 = rf\<lparr>nextIndex := (nextIndex rf)[nat server := replyIndex server reply rf],
                    matchIndex := (matchIndex rf)[nat server := replyIndex server reply rf - 1]\<rparr>)"
  by (cases "aer_NextIndex reply = -1") (auto simp: adjustIndex_def replyIndex_def)

lemma adjustIndex_frame:
  assumes "adjustIndex server reply rf = Inr rf1"
  shows "currentTerm rf1 = currentTerm rf" "role rf1 = role rf" "votedFor rf1 = votedFor rf"
    "me rf1 = me rf" "peers rf1 = peers rf" "logEntries rf1 = logEntries rf"
    "lastApplied rf1 = lastApplied rf" "applyCh rf1 = applyCh rf"
    "commitIndex rf1 = commitIndex rf" "persister rf1 = persister rf"
    "length (nextIndex rf1) = length (nextIndex rf)"
    "length (matchIndex rf1) = length (matchIndex rf)"
  using assms by (auto simp: adjustIndex_Inr split: if_splits)

text \<open>Whether a reply makes the leader look for entries to commit.\<close>

definition tries_commit :: "'c AppendEntriesArgs \<Rightarrow> AppendEntriesReply \<Rightarrow> 'c Raft \<Rightarrow> bool" where
  "tries_commit args reply rf \<longleftrightarrow>
     ae_Entries args \<noteq> [] \<and> aer_Success reply \<and> ent_Term (hd (ae_Entries args)) = currentTerm rf"

lemma heartbeatEnd_stepdown:
  "currentTerm rf < aer_Term reply \<Longrightarrow>
   heartbeatEnd env server args reply rf =
     Inr (persist (rf\<lparr>currentTerm := aer_Term reply, role := Follower,
                     electionTimer := rearmed env (electionTimer rf)\<rparr>))"
  by (simp add: heartbeatEnd_def)

lemma heartbeatEnd_stay:
  assumes "aer_Term reply \<le> currentTerm rf"
  shows "heartbeatEnd env server args reply rf =
     rbind (adjustIndex server reply rf) (\<lambda>rf1.
       Inr (persist (if tries_commit args reply rf then commitLog rf1 else rf1)))"
  using assms adjustIndex_frame(1) [of server reply rf]
  by (cases "adjustIndex server reply rf")
     (auto simp: heartbeatEnd_def tries_commit_def go_index_def hd_conv_nth)

lemma heartbeatEnd_cases:
  assumes "heartbeatEnd env server args reply rf = Inr rf'"
  obtains
    (stepdown) "currentTerm rf < aer_Term reply"
      "rf' = persist (rf\<lparr>currentTerm := aer_Term reply, role := Follower,
                        electionTimer := rearmed env (electionTimer rf)\<rparr>)"
  | (stay) rf1 where "aer_Term reply \<le> currentTerm rf" "adjustIndex server reply rf = Inr rf1"
      "rf' = persist (if tries_commit args reply rf then commitLog rf1 else rf1)"
  using assms
  by (cases "currentTerm rf < aer_Term reply")
     (auto simp: heartbeatEnd_stepdown heartbeatEnd_stay)

lemma heartbeatEnd_frame:
  assumes "heartbeatEnd env server args reply rf = Inr rf'"
  shows "votedFor rf' = votedFor rf" "me rf' = me rf" "peers rf' = peers rf"
    "logEntries rf' = logEntries rf" "lastApplied rf' = lastApplied rf" "applyCh rf' = applyCh rf"
    "durable (persister rf') = persistent rf'"
  using assms
  by (auto elim!: heartbeatEnd_cases simp: persistent_def dest: adjustIndex_frame)

lemma heartbeatEnd_term:
  assumes "heartbeatEnd env server args reply rf = Inr rf'"
  shows "currentTerm rf' = max (currentTerm rf) (aer_Term reply)"
    and "role rf' = (if currentTerm rf < aer_Term reply then Follower else role rf)"
  using assms by (auto elim!: heartbeatEnd_cases dest: adjustIndex_frame)

lemma SendHeartbeat_self:
  "SendHeartbeat env (me rf) net rf =
     Inr (persist (rf\<lparr>electionTimer := rearmed env (electionTimer rf)\<rparr>))"
  by (simp add: SendHeartbeat_def)

lemma getAppendLogs_cong:
  assumes "logEntries rf' = logEntries rf" "nextIndex rf' = nextIndex rf"
  shows "getAppendLogs server rf' = getAppendLogs server rf"
  unfolding getAppendLogs_def assms lastLogTermIndex_cong [OF assms(1)] ..

lemma getAppendLogs_wf:
  assumes wf: "log_wf (logEntries rf)"
    and s: "0 \<le> server" "server < int (length (nextIndex rf))"
    and n: "n = nextIndex rf ! nat server" "1 \<le> n"
  shows "getAppendLogs server rf =
     Inr (if int (length (logEntries rf)) \<le> n
          then (int (length (logEntries rf)) - 1, ent_Term (last (logEntries rf)), [])
          else (n - 1, ent_Term (logEntries rf ! nat (n - 1)), drop (nat n) (logEntries rf)))"
proof -
  have "snd (lastLogTermIndex rf) = int (length (logEntries rf)) - 1"
    using wf by (rule lastLogTermIndex_wf)
  moreover have "fst (lastLogTermIndex rf) = ent_Term (last (logEntries rf))"
    using wf by (simp add: lastLogTermIndex_nonempty log_wf_nonempty)
  ultimately show ?thesis
    using s n by (cases "lastLogTermIndex rf") (auto simp: getAppendLogs_def go_simps)
qed

section \<open>Properties\<close>

text \<open>The rule of the Raft paper for what a leader may commit by counting.\<close>

definition paper_commits :: "'c Raft \<Rightarrow> int \<Rightarrow> bool" where
  "paper_commits rf i \<longleftrightarrow> commitIndex rf < i \<and> i < int (length (logEntries rf)) \<and>
     peers rf div 2 < length (filter (\<lambda>m. i \<le> m) (matchIndex rf)) \<and>
     ent_Term (logEntries rf ! nat i) = currentTerm rf"

lemma paper_commits_complete: "paper_commits rf i \<Longrightarrow> i \<le> commitIndex (commitLog rf)"
  by (rule commitLog_complete) (simp_all add: paper_commits_def committable_def supporters_def)

lemma paper_commits_sound:
  assumes "\<forall>i. commitIndex rf < i \<and> i < int (length (logEntries rf)) \<longrightarrow> ent_Term (logEntries rf ! nat i) = currentTerm rf"
    and "commitIndex (commitLog rf) \<noteq> commitIndex rf"
  shows "paper_commits rf (commitIndex (commitLog rf))"
  using assms(1) commitLog_bounds [OF assms(2)] by (simp add: paper_commits_def committable_def supporters_def)

text \<open>
  C16: commitment. By the rule that the comments quote, a leader commits the indices above its commit index that a majority of the peers is known to hold and whose
  entry is of the current term. \<open>commitLog\<close> changes the commit index and nothing else and reaches every such index; and if the entries above the
  commit index are all of the current term, the new commit index is the greatest of them (the old one, if there is none).
\<close>

theorem commitLog_greatest:
  "commitLog rf = rf\<lparr>commitIndex := commitIndex (commitLog rf)\<rparr> \<and>
   (\<forall>i. paper_commits rf i \<longrightarrow> i \<le> commitIndex (commitLog rf)) \<and>
   ((\<forall>i. commitIndex rf < i \<and> i < int (length (logEntries rf)) \<longrightarrow>
       ent_Term (logEntries rf ! nat i) = currentTerm rf) \<longrightarrow>
    commitIndex (commitLog rf) = Max (insert (commitIndex rf) {i. paper_commits rf i}))"
proof (intro conjI impI)
  assume new: "\<forall>i. commitIndex rf < i \<and> i < int (length (logEntries rf)) \<longrightarrow>
    ent_Term (logEntries rf ! nat i) = currentTerm rf"
  have fin: "finite {i. paper_commits rf i}"
    by (rule finite_subset [of _ "{commitIndex rf .. int (length (logEntries rf))}"]) (auto simp: paper_commits_def)
  have "Max (insert (commitIndex rf) {i. paper_commits rf i}) = commitIndex (commitLog rf)"
  proof (rule Max_eqI)
    show "finite (insert (commitIndex rf) {i. paper_commits rf i})" using fin by simp
  next
    fix i assume "i \<in> insert (commitIndex rf) {i. paper_commits rf i}"
    then show "i \<le> commitIndex (commitLog rf)" using commitLog_mono paper_commits_complete by blast
  next
    show "commitIndex (commitLog rf) \<in> insert (commitIndex rf) {i. paper_commits rf i}"
      using paper_commits_sound [OF new] by blast
  qed
  then show "commitIndex (commitLog rf) = Max (insert (commitIndex rf) {i. paper_commits rf i})" by simp
qed (simp_all add: commitLog_update paper_commits_complete)

text \<open>A leader of term 4 with two entries of its term, the first on three of five servers.\<close>

theorem commitLog_greatest_witness:
  "commitIndex (commitLog ((sampleServer 5 0 Leader 4 (-1)
       [mkEntry 0 0 None, mkEntry 4 1 (Some ''x''), mkEntry 4 2 (Some ''y'')])\<lparr>matchIndex := [2, 2, 1, 0, 0]\<rparr>)) = 1"
proof -
  let ?rf = "(sampleServer 5 0 Leader 4 (-1)
    [mkEntry 0 0 None, mkEntry 4 1 (Some ''x''), mkEntry 4 2 (Some ''y'')])\<lparr>matchIndex := [2, 2, 1, 0, 0]\<rparr>"
  have cases: "i = 1 \<or> i = 2" if "0 < i" "i < 3" for i :: int using that by linarith
  have "{i. paper_commits ?rf i} = {1}"
  proof (intro set_eqI iffI)
    fix i assume "i \<in> {i. paper_commits ?rf i}"
    then have "paper_commits ?rf i" by simp
    moreover from this have "i = 1 \<or> i = 2" by (intro cases) (simp_all add: paper_commits_def)
    moreover have "\<not> paper_commits ?rf 2" by (simp add: paper_commits_def)
    ultimately show "i \<in> {1}" by auto
  qed (simp add: paper_commits_def)
  moreover have "\<forall>i. commitIndex ?rf < i \<and> i < int (length (logEntries ?rf)) \<longrightarrow>
      ent_Term (logEntries ?rf ! nat i) = currentTerm ?rf"
    using cases by fastforce
  ultimately show ?thesis using commitLog_greatest [of ?rf] by simp
qed

text \<open>
  C10: the AppendEntries handler. On a request whose entries have indices that are not negative it returns. It
  succeeds exactly on a request of its own term that passes the three checks. Then it has kept its log and appended nothing but entries of the request, so that it
  holds all of them; it has appended them all if the log ended where they begin. And it knows the leader's commit index as far as its log reaches. If it refuses, its log
  has lost at most a tail and the commit index has not moved, and unless the terms differ the answer tells the length
  that is left. In every case the term is the larger one, the vote stays, and term, vote and log are on disk.
\<close>

theorem AppendEntries_correct:
  assumes "\<forall>e \<in> set (ae_Entries args). 0 \<le> ent_Index e"
  shows "\<exists>rf' reply. AppendEntries env args rf = Inr (rf', reply) \<and>
     currentTerm rf' = max (currentTerm rf) (ae_Term args) \<and> votedFor rf' = votedFor rf \<and>
     durable (persister rf') = (currentTerm rf', votedFor rf', logEntries rf') \<and>
     role rf' = (if currentTerm rf < ae_Term args then Follower else role rf) \<and>
     tm_active (electionTimer rf') \<and>
     (aer_Success reply \<longleftrightarrow>
        ae_Term args = currentTerm rf \<and> prevMismatch args (logEntries rf) = Inr False \<and>
        conflictIndex (logEntries rf) (ae_Entries args) = Inr None \<and>
        ae_PrevLogIndex args < int (length (logEntries rf))) \<and>
     (if aer_Success reply
      then (\<exists>es. logEntries rf' = logEntries rf @ es \<and> set es \<subseteq> set (ae_Entries args)) \<and>
           set (ae_Entries args) \<subseteq> set (logEntries rf') \<and>
           (int (length (logEntries rf)) = ae_PrevLogIndex args + 1 \<longrightarrow>
              logEntries rf' = logEntries rf @ ae_Entries args) \<and>
           commitIndex rf' = (if commitIndex rf < ae_LeaderCommit args
             then min (ae_LeaderCommit args) (int (length (logEntries rf')) - 1)
             else commitIndex rf) \<and>
           aer_NextIndex reply = int (length (logEntries rf'))
      else (\<exists>k. logEntries rf' = take k (logEntries rf)) \<and> commitIndex rf' = commitIndex rf \<and>
           aer_NextIndex reply =
             (if ae_Term args = currentTerm rf then int (length (logEntries rf')) else 0))"
proof -
  obtain rf' reply where run: "AppendEntries env args rf = Inr (rf', reply)"
    using AppendEntries_returns [OF assms] by blast
  have whole: "\<exists>k. l = take k l" for l :: "'a LogEntry list"
    by (rule exI [of _ "length l"]) simp
  note [simp] = whole AppendEntries_term [OF run] AppendEntries_frame [OF run] persistent_def
  show ?thesis
  proof (intro exI conjI, rule run)
    show "aer_Success reply \<longleftrightarrow>
        ae_Term args = currentTerm rf \<and> prevMismatch args (logEntries rf) = Inr False \<and>
        conflictIndex (logEntries rf) (ae_Entries args) = Inr None \<and>
        ae_PrevLogIndex args < int (length (logEntries rf))"
      using run by (cases rule: AppendEntries_cases) auto
    show "if aer_Success reply
      then (\<exists>es. logEntries rf' = logEntries rf @ es \<and> set es \<subseteq> set (ae_Entries args)) \<and>
           set (ae_Entries args) \<subseteq> set (logEntries rf') \<and>
           (int (length (logEntries rf)) = ae_PrevLogIndex args + 1 \<longrightarrow>
              logEntries rf' = logEntries rf @ ae_Entries args) \<and>
           commitIndex rf' = (if commitIndex rf < ae_LeaderCommit args
             then min (ae_LeaderCommit args) (int (length (logEntries rf')) - 1)
             else commitIndex rf) \<and>
           aer_NextIndex reply = int (length (logEntries rf'))
      else (\<exists>k. logEntries rf' = take k (logEntries rf)) \<and> commitIndex rf' = commitIndex rf \<and>
           aer_NextIndex reply =
             (if ae_Term args = currentTerm rf then int (length (logEntries rf')) else 0)"
      using run
      by (cases rule: AppendEntries_cases)
         (auto simp: prev_mismatch_def min_def dest!: conflictIndex_Some)
  qed simp_all
qed

theorem AppendEntries_correct_witness:
  "\<exists>rf' reply. AppendEntries (0, 0)
       \<lparr>ae_Term = 2, ae_LeaderId = 1, ae_PrevLogIndex = 1, ae_PrevLogTerm = 1,
        ae_Entries = [mkEntry 2 2 (Some ''y'')], ae_LeaderCommit = 5\<rparr>
       (sampleServer 3 0 Follower 2 1 [mkEntry 0 0 None, mkEntry 1 1 (Some ''x'')]) = Inr (rf', reply) \<and>
     aer_Success reply \<and> aer_NextIndex reply = 3 \<and> commitIndex rf' = 2 \<and>
     logEntries rf' = [mkEntry 0 0 None, mkEntry 1 1 (Some ''x''), mkEntry 2 2 (Some ''y'')]"
  using AppendEntries_correct [of "\<lparr>ae_Term = 2, ae_LeaderId = 1, ae_PrevLogIndex = 1,
      ae_PrevLogTerm = 1, ae_Entries = [mkEntry 2 2 (Some ''y'')], ae_LeaderCommit = 5\<rparr>" "(0, 0)"
      "sampleServer 3 0 Follower 2 1 [mkEntry 0 0 None, mkEntry 1 1 (Some ''x'')]"]
  by (auto simp: sampleServer_def newRaft_def mkEntry_def prev_mismatch_def)

text \<open>
  What a leader commits. The comments in \<open>SendHeartbeat\<close> and \<open>commitLog\<close> say that only entries of the leader's own term
  are committed by counting; the code does commit others. In a cluster of five, the reply of a
  second server to an entry of term 4 makes the leader commit index 1, an entry of term 2 that
  three servers hold, while the entry of term 4 is not committed.
\<close>

theorem commits_older_term:
  "\<exists>rf'. heartbeatEnd (0, 0) 1
       \<lparr>ae_Term = 4, ae_LeaderId = 0, ae_PrevLogIndex = 1, ae_PrevLogTerm = 2,
        ae_Entries = [mkEntry 4 2 (Some ''y'')], ae_LeaderCommit = 0\<rparr>
       \<lparr>aer_Term = 0, aer_Success = True, aer_NextIndex = 3\<rparr>
       ((sampleServer 5 0 Leader 4 (-1)
          [mkEntry 0 0 None, mkEntry 2 1 (Some ''x''), mkEntry 4 2 (Some ''y'')])
        \<lparr>matchIndex := [2, 0, 1, 0, 0]\<rparr>) = Inr rf' \<and>
     role rf' = Leader \<and> currentTerm rf' = 4 \<and> commitIndex rf' = 1 \<and>
     ent_Term (logEntries rf' ! nat (commitIndex rf')) = 2"
  by (simp add: heartbeatEnd_def adjustIndex_def sampleServer_def newRaft_def mkEntry_def go_simps
      commitLog_def upto.simps committable_def supporters_def)

text \<open>
  Heartbeats after stepping down. A round of heartbeats looks at the role once. If the answer of one peer is of a later term, the
  server becomes a follower of that term, and the rest of the round still goes out: the next
  request carries the later term, in which this server was never elected.
\<close>

theorem stale_leader_sends:
  assumes "me rf \<noteq> i" "me rf \<noteq> j" "heartbeatBegin i rf = Inr args" "heartbeatBegin j rf = Inr args'"
    and "net args = Some reply" "currentTerm rf < aer_Term reply"
  shows "\<exists>rf'. SendHeartbeat env i net rf = Inr rf' \<and> role rf' = Follower \<and>
     votedFor rf' = votedFor rf \<and>
     heartbeatBegin j rf' = Inr (args'\<lparr>ae_Term := aer_Term reply\<rparr>)"
proof -
  let ?rf = "persist (rf\<lparr>currentTerm := aer_Term reply, role := Follower,
      electionTimer := rearmed env (electionTimer rf)\<rparr>)"
  have "SendHeartbeat env i net rf = Inr ?rf"
    using assms by (simp add: SendHeartbeat_def heartbeatEnd_stepdown)
  moreover have "getAppendLogs j ?rf = getAppendLogs j rf"
    by (rule getAppendLogs_cong) simp_all
  then have "heartbeatBegin j ?rf = Inr (args'\<lparr>ae_Term := aer_Term reply\<rparr>)"
    using assms(4) by (auto simp: heartbeatBegin_def)
  ultimately show ?thesis by simp
qed

theorem stale_leader_sends_witness:
  "\<exists>rf'. SendHeartbeat (0, 0) 1
       (\<lambda>_. Some \<lparr>aer_Term = 3, aer_Success = False, aer_NextIndex = 0\<rparr>)
       (sampleServer 3 0 Leader 2 (-1) [mkEntry 0 0 (None :: string option)]) = Inr rf' \<and>
     role rf' = Follower \<and>
     heartbeatBegin 2 rf' = Inr \<lparr>ae_Term = 3, ae_LeaderId = 0, ae_PrevLogIndex = 0,
        ae_PrevLogTerm = 0, ae_Entries = [], ae_LeaderCommit = 0\<rparr>"
proof -
  let ?rf = "sampleServer 3 0 Leader 2 (-1) [mkEntry 0 0 (None :: string option)]"
  let ?args = "\<lparr>ae_Term = 2, ae_LeaderId = 0, ae_PrevLogIndex = 0, ae_PrevLogTerm = 0,
      ae_Entries = [], ae_LeaderCommit = 0\<rparr>"
  have "heartbeatBegin i ?rf = Inr ?args" if "0 \<le> i" "i < 3" for i
    using that by (simp add: heartbeatBegin_def getAppendLogs_def lastLogTermIndex_def go_simps)
  then have b: "heartbeatBegin 1 ?rf = Inr ?args" "heartbeatBegin 2 ?rf = Inr ?args" by simp_all
  show ?thesis
    using stale_leader_sends [OF _ _ b, of
        "\<lambda>_. Some \<lparr>aer_Term = 3, aer_Success = False, aer_NextIndex = 0\<rparr>" _ "(0, 0)"]
    by auto
qed

end
