(* ===== verification/Raft_Replication.thy ===== *)
theory Raft_Replication
  imports Raft_Entry
begin

text \<open>
  What replication achieves. The reference is the AppendEntries rule of Figure 2 of the Raft
  paper, which the comments in \<open>entry.go\<close> quote: \<open>paperAppend\<close>. First the handler is compared
  with it, then a leader that keeps sending to one follower is followed until the two logs
  agree.
\<close>

section \<open>The rule of the paper\<close>

text \<open>
  Keep the entries that agree with the new ones, drop the rest from the first conflict on, and
  append what is not there yet.
\<close>

fun mergeEntries :: "'c LogEntry list \<Rightarrow> 'c LogEntry list \<Rightarrow> 'c LogEntry list" where
  "mergeEntries [] es = es"
| "mergeEntries xs [] = xs"
| "mergeEntries (x # xs) (e # es) =
     (if ent_Term x = ent_Term e then x # mergeEntries xs es else e # es)"

definition paperAppend ::
    "'c AppendEntriesArgs \<Rightarrow> 'c LogEntry list \<Rightarrow> 'c LogEntry list option" where
  "paperAppend args l =
     (let p = nat (ae_PrevLogIndex args) in
      if length l \<le> p \<or> prev_mismatch args l then None
      else Some (take (Suc p) l @ mergeEntries (drop (Suc p) l) (ae_Entries args)))"

text \<open>Requests as a leader with a well-formed log makes them: consecutive entries after \<open>prev\<close>.\<close>

definition args_wf :: "'c AppendEntriesArgs \<Rightarrow> bool" where
  "args_wf args \<longleftrightarrow>
     0 \<le> ae_PrevLogIndex args \<and>
     (\<forall>k < length (ae_Entries args).
        ent_Index (ae_Entries args ! k) = ae_PrevLogIndex args + 1 + int k)"

lemma args_wf_returns:
  assumes "args_wf args"
  shows "\<exists>rf' reply. AppendEntries env args rf = Inr (rf', reply)"
  using assms
  by (intro AppendEntries_returns) (auto simp: args_wf_def in_set_conv_nth)

text \<open>
  The handler agrees with the paper when the follower's log ends where the new entries start
  (or when there are none).
\<close>

lemma success_matches_paper:
  assumes "AppendEntries env args rf = Inr (rf', reply)" "aer_Success reply"
    and "args_wf args"
    and "ae_Entries args = [] \<or> int (length (logEntries rf)) = ae_PrevLogIndex args + 1"
  shows "paperAppend args (logEntries rf) = Some (logEntries rf')"
proof -
  let ?p = "nat (ae_PrevLogIndex args)"
  from assms(1,2) have s: "\<not> prev_mismatch args (logEntries rf)"
    "ae_PrevLogIndex args < int (length (logEntries rf))"
    "logEntries rf' = logEntries rf @ ae_Entries args"
    by (auto elim!: AppendEntries_cases)
  have p: "?p < length (logEntries rf)" using s(2) assms(3) by (simp add: args_wf_def nat_less_iff)
  show ?thesis
  proof (cases "ae_Entries args = []")
    case True
    then have "mergeEntries (drop (Suc ?p) (logEntries rf)) (ae_Entries args)
        = drop (Suc ?p) (logEntries rf)"
      by (cases "drop (Suc ?p) (logEntries rf)") auto
    with True s p show ?thesis by (simp add: paperAppend_def Let_def)
  next
    case False
    with assms(3,4) have "length (logEntries rf) = Suc ?p" by (auto simp: args_wf_def)
    with s p show ?thesis by (simp add: paperAppend_def Let_def)
  qed
qed

text \<open>
  Otherwise the handler appends at the end of the log entries that belong after \<open>prev\<close>: the
  log stays well formed exactly when the follower has nothing beyond \<open>prev\<close>.
\<close>

lemma success_wf_iff:
  assumes run: "AppendEntries env args rf = Inr (rf', reply)" "aer_Success reply"
    and wf: "args_wf args" "log_wf (logEntries rf)" and ne: "ae_Entries args \<noteq> []"
  shows "log_wf (logEntries rf') \<longleftrightarrow> int (length (logEntries rf)) = ae_PrevLogIndex args + 1"
proof -
  from run have l: "logEntries rf' = logEntries rf @ ae_Entries args"
    by (auto elim!: AppendEntries_cases)
  have hd_ix: "ent_Index (ae_Entries args ! 0) = ae_PrevLogIndex args + 1"
    using wf(1) ne by (auto simp: args_wf_def)
  show ?thesis
  proof
    assume "log_wf (logEntries rf')"
    then have "ent_Index (logEntries rf' ! length (logEntries rf)) = int (length (logEntries rf))"
      using ne by (intro log_wf_nth) (auto simp: l)
    then show "int (length (logEntries rf)) = ae_PrevLogIndex args + 1"
      using hd_ix ne by (simp add: l nth_append)
  next
    assume "int (length (logEntries rf)) = ae_PrevLogIndex args + 1"
    then show "log_wf (logEntries rf')"
      unfolding l using wf by (intro log_wf_append) (auto simp: args_wf_def)
  qed
qed

lemma conflictIndex_after:
  assumes "args_wf args" "int (length l) \<le> ae_PrevLogIndex args + 1"
  shows "conflictIndex l (ae_Entries args) = Inr None"
  using assms by (intro conflictIndex_none_beyond) (auto simp: args_wf_def in_set_conv_nth)

lemma conflictIndex_agrees:
  assumes "\<And>e. e \<in> set es \<Longrightarrow>
     0 \<le> ent_Index e \<and> (ent_Index e < int (length l) \<longrightarrow> ent_Term (l ! nat (ent_Index e)) = ent_Term e)"
  shows "conflictIndex l es = Inr None"
  using assms by (induction l es rule: conflictIndex.induct) (auto simp: go_index_def)

text \<open>The two runs of a request that is delivered twice.\<close>

lemma first_delivery:
  assumes "ae_Term args = currentTerm rf" "args_wf args"
    and "int (length (logEntries rf)) = ae_PrevLogIndex args + 1"
    and "\<not> prev_mismatch args (logEntries rf)"
  obtains rf' reply where "AppendEntries env args rf = Inr (rf', reply)" "aer_Success reply"
    "logEntries rf' = logEntries rf @ ae_Entries args" "currentTerm rf' = currentTerm rf"
  using assms by (simp add: AppendEntries_consistent conflictIndex_after Let_def)

lemma second_delivery:
  assumes "ae_Term args = currentTerm rf" "args_wf args"
    and l: "logEntries rf = l @ ae_Entries args"
    and len: "int (length l) = ae_PrevLogIndex args + 1"
    and "\<not> prev_mismatch args l"
  obtains rf' reply where "AppendEntries env args rf = Inr (rf', reply)" "aer_Success reply"
    "logEntries rf' = l @ ae_Entries args @ ae_Entries args"
proof -
  have nm: "\<not> prev_mismatch args (logEntries rf)"
    using assms by (auto simp: prev_mismatch_def nth_append)
  have "conflictIndex (logEntries rf) (ae_Entries args) = Inr None"
  proof (rule conflictIndex_agrees)
    fix e assume "e \<in> set (ae_Entries args)"
    then obtain k where k: "k < length (ae_Entries args)" "e = ae_Entries args ! k"
      by (auto simp: in_set_conv_nth)
    with assms(2) len have "ent_Index e = int (length l + k)" by (simp add: args_wf_def)
    moreover from this have "nat (ent_Index e) = length l + k" by simp
    ultimately show "0 \<le> ent_Index e \<and> (ent_Index e < int (length (logEntries rf)) \<longrightarrow>
        ent_Term (logEntries rf ! nat (ent_Index e)) = ent_Term e)"
      using k by (simp add: l nth_append)
  qed
  with assms(1) nm l len that show ?thesis
    by (simp add: AppendEntries_consistent Let_def)
qed

text \<open>
  A request that meets a conflict. The handler cuts off the log there and asks the leader to go on at that index; the paper's rule replaces
  the tail at once. \<open>followUp\<close> is the request from that index on.
\<close>

definition followUp :: "'c AppendEntriesArgs \<Rightarrow> int \<Rightarrow> 'c AppendEntriesArgs" where
  "followUp args k =
     (let d = nat (k - ae_PrevLogIndex args - 1) in
      args\<lparr>ae_PrevLogIndex := k - 1,
           ae_PrevLogTerm := (if d = 0 then ae_PrevLogTerm args else ent_Term (ae_Entries args ! (d - 1))),
           ae_Entries := drop d (ae_Entries args)\<rparr>)"

lemma mergeEntries_conflict:
  assumes "j < length xs" "j < length es" "ent_Term (xs ! j) \<noteq> ent_Term (es ! j)"
    and "\<And>i. i < j \<Longrightarrow> ent_Term (xs ! i) = ent_Term (es ! i)"
  shows "mergeEntries xs es = take j xs @ drop j es"
  using assms
proof (induction xs es arbitrary: j rule: mergeEntries.induct)
  case (3 x xs e es)
  show ?case
  proof (cases j)
    case 0
    with 3 show ?thesis by simp
  next
    case (Suc m)
    have eq: "ent_Term x = ent_Term e" using "3.prems"(4) [of 0] Suc by simp
    have "ent_Term (xs ! i) = ent_Term (es ! i)" if "i < m" for i
      using "3.prems"(4) [of "Suc i"] Suc that by simp
    then have "mergeEntries xs es = take m xs @ drop m es"
      using "3.prems"(1-3) Suc by (intro "3.IH" [OF eq]) simp_all
    with eq Suc show ?thesis by simp
  qed
qed simp_all

lemma conflict_position:
  assumes "args_wf args" "conflictIndex l (ae_Entries args) = Inr (Some k)"
  obtains j where "j < length (ae_Entries args)" "k = ae_PrevLogIndex args + 1 + int j"
    "nat (ae_PrevLogIndex args) + 1 + j < length l"
    "ent_Term (l ! (nat (ae_PrevLogIndex args) + 1 + j)) \<noteq> ent_Term (ae_Entries args ! j)"
    "\<And>i. i < j \<Longrightarrow> ent_Term (l ! (nat (ae_PrevLogIndex args) + 1 + i)) = ent_Term (ae_Entries args ! i)"
proof -
  from conflictIndex_Some [OF assms(2)] obtain j where j: "j < length (ae_Entries args)"
    "k = ent_Index (ae_Entries args ! j)" "0 \<le> k" "k < int (length l)" "ent_Term (l ! nat k) \<noteq> ent_Term (ae_Entries args ! j)"
    and before: "\<forall>i < j. ent_Index (ae_Entries args ! i) < int (length l) \<longrightarrow>
          ent_Term (l ! nat (ent_Index (ae_Entries args ! i))) = ent_Term (ae_Entries args ! i)"
    by blast
  let ?p = "nat (ae_PrevLogIndex args)"
  have idx: "ent_Index (ae_Entries args ! i) = int (?p + 1 + i)" if "i \<le> j" for i
    using assms(1) that j(1) by (simp add: args_wf_def)
  have k: "k = int (?p + 1 + j)" using j(2) idx [of j] by simp
  then have nk: "nat k = ?p + 1 + j" by (simp only: nat_int)
  show thesis
  proof (rule that)
    show "j < length (ae_Entries args)" by (rule j(1))
    show "k = ae_PrevLogIndex args + 1 + int j" using k assms(1) by (simp add: args_wf_def)
    show "?p + 1 + j < length l" using j(4) k by linarith
    show "ent_Term (l ! (?p + 1 + j)) \<noteq> ent_Term (ae_Entries args ! j)" using j(5) unfolding nk .
    show "ent_Term (l ! (?p + 1 + i)) = ent_Term (ae_Entries args ! i)" if "i < j" for i
    proof -
      have i: "ent_Index (ae_Entries args ! i) = int (?p + 1 + i)" using that by (intro idx) simp
      moreover have "int (?p + 1 + i) < int (length l)" using j(4) k that by linarith
      ultimately show ?thesis using before that by (metis nat_int)
    qed
  qed
qed

lemma conflict_matches_paper:
  assumes wf: "args_wf args" and tm: "ae_Term args = currentTerm rf"
    and nm: "\<not> prev_mismatch args (logEntries rf)"
    and c: "conflictIndex (logEntries rf) (ae_Entries args) = Inr (Some k)"
    and run: "AppendEntries env args rf = Inr (rf', reply)"
  shows "\<exists>rf'' reply'. aer_NextIndex reply = k \<and> \<not> aer_Success reply \<and>
     AppendEntries env' (followUp args k) rf' = Inr (rf'', reply') \<and> aer_Success reply' \<and>
     paperAppend args (logEntries rf) = Some (logEntries rf'')"
proof -
  let ?l = "logEntries rf" let ?p = "nat (ae_PrevLogIndex args)" let ?es = "ae_Entries args"
  obtain j where j: "j < length ?es" "k = ae_PrevLogIndex args + 1 + int j" "?p + 1 + j < length ?l"
    "ent_Term (?l ! (?p + 1 + j)) \<noteq> ent_Term (?es ! j)"
    "\<And>i. i < j \<Longrightarrow> ent_Term (?l ! (?p + 1 + i)) = ent_Term (?es ! i)"
    using conflict_position [OF wf c] by blast
  have p: "0 \<le> ae_PrevLogIndex args" using wf by (simp add: args_wf_def)
  then have k: "nat k = ?p + 1 + j" "int (nat k) = k" using j(2) by (simp_all add: nat_add_distrib)
  from run have r: "logEntries rf' = take (nat k) ?l" "currentTerm rf' = currentTerm rf" "aer_NextIndex reply = k" "\<not> aer_Success reply"
    using nm c tm by (auto elim!: AppendEntries_cases)
  have d: "nat (k - ae_PrevLogIndex args - 1) = j" using j(2) by simp
  have fu: "ae_Term (followUp args k) = ae_Term args" "ae_PrevLogIndex (followUp args k) = k - 1"
    "ae_Entries (followUp args k) = drop j ?es"
    "ae_PrevLogTerm (followUp args k) = (if j = 0 then ae_PrevLogTerm args else ent_Term (?es ! (j - 1)))"
    by (simp_all add: followUp_def Let_def d)
  have "args_wf (followUp args k)" using wf p unfolding args_wf_def fu by (simp add: j(2))
  moreover have len: "int (length (logEntries rf')) = ae_PrevLogIndex (followUp args k) + 1"
    using j(3) k by (simp add: r fu)
  moreover have "\<not> prev_mismatch (followUp args k) (logEntries rf')"
  proof (cases j)
    case 0
    then have k0: "k - 1 = ae_PrevLogIndex args" using j(2) by simp
    from 0 nm j(3) show ?thesis unfolding prev_mismatch_def fu r k0 by (auto simp: k)
  next
    case (Suc m)
    have "nat (k - 1) = ?p + 1 + m" using k Suc by linarith
    with j(5) [of m] Suc k show ?thesis by (simp add: prev_mismatch_def fu r)
  qed
  ultimately obtain rf'' reply' where f: "AppendEntries env' (followUp args k) rf' = Inr (rf'', reply')"
    "aer_Success reply'" "logEntries rf'' = take (nat k) ?l @ drop j ?es"
    using first_delivery [of "followUp args k" rf' env'] tm r fu by metis
  have "mergeEntries (drop (Suc ?p) ?l) ?es = take j (drop (Suc ?p) ?l) @ drop j ?es"
    using j by (intro mergeEntries_conflict) simp_all
  then have "paperAppend args ?l = Some (take (Suc ?p) ?l @ take j (drop (Suc ?p) ?l) @ drop j ?es)"
    using j(3) nm by (simp add: paperAppend_def Let_def)
  also have "take (Suc ?p) ?l @ take j (drop (Suc ?p) ?l) @ drop j ?es = logEntries rf''"
    by (simp add: f(3) k take_add [of "Suc ?p" j, simplified])
  finally show ?thesis using f r by blast
qed

text \<open>The request that a leader makes after such an answer is the follow-up.\<close>

lemma followUp_sent:
  assumes wf: "log_wf (logEntries ld)" and s: "0 \<le> server" "server < int (length (nextIndex ld))" "server < int (length (matchIndex ld))"
    and n: "1 \<le> nextIndex ld ! nat server" "nextIndex ld ! nat server \<le> k" "k < int (length (logEntries ld))"
    and req: "heartbeatBegin server ld = Inr args"
    and reply: "aer_Term reply \<le> currentTerm ld" "\<not> aer_Success reply" "aer_NextIndex reply = k"
  shows "\<exists>ld'. heartbeatEnd env server args reply ld = Inr ld' \<and> heartbeatBegin server ld' = Inr (followUp args k)"
proof -
  let ?l = "logEntries ld" let ?n = "nextIndex ld ! nat server"
  let ?ld = "persist (ld\<lparr>nextIndex := (nextIndex ld)[nat server := k], matchIndex := (matchIndex ld)[nat server := k - 1]\<rparr>)"
  have "adjustIndex server reply ld = Inr (ld\<lparr>nextIndex := (nextIndex ld)[nat server := k], matchIndex := (matchIndex ld)[nat server := k - 1]\<rparr>)"
    using s n reply by (simp add: adjustIndex_Inr replyIndex_def)
  then have "heartbeatEnd env server args reply ld = Inr ?ld"
    using reply by (simp add: heartbeatEnd_stay tries_commit_def)
  moreover have "getAppendLogs server ?ld = Inr (k - 1, ent_Term (?l ! nat (k - 1)), drop (nat k) ?l)"
    using wf s n getAppendLogs_wf [of ?ld server k] by (simp add: nat_less_iff)
  then have "heartbeatBegin server ?ld = Inr \<lparr>ae_Term = currentTerm ld, ae_LeaderId = me ld, ae_PrevLogIndex = k - 1,
      ae_PrevLogTerm = ent_Term (?l ! nat (k - 1)), ae_Entries = drop (nat k) ?l, ae_LeaderCommit = commitIndex ld\<rparr>"
    by (simp add: heartbeatBegin_def)
  moreover have "args = \<lparr>ae_Term = currentTerm ld, ae_LeaderId = me ld, ae_PrevLogIndex = ?n - 1,
      ae_PrevLogTerm = ent_Term (?l ! nat (?n - 1)), ae_Entries = drop (nat ?n) ?l, ae_LeaderCommit = commitIndex ld\<rparr>"
    using req n getAppendLogs_wf [OF wf s(1,2) refl n(1)] by (simp add: heartbeatBegin_def)
  moreover have "drop (nat (k - ?n)) (drop (nat ?n) ?l) = drop (nat k) ?l"
    using n by (simp add: nat_diff_distrib')
  moreover have "drop (nat ?n) ?l ! (nat (k - ?n) - 1) = ?l ! nat (k - 1)" if "nat (k - ?n) \<noteq> 0"
  proof -
    have "nat ?n + (nat (k - ?n) - 1) = nat (k - 1)" using that n by linarith
    moreover have "nat ?n \<le> length ?l" using n by linarith
    ultimately show ?thesis by simp
  qed
  ultimately show ?thesis using n by (auto simp: followUp_def Let_def)
qed

section \<open>A leader and one follower\<close>

text \<open>
  One heartbeat to a follower that answers: the request, the handler at the follower, the
  handling of its reply.
\<close>

definition replicateRound :: "env \<Rightarrow> int \<Rightarrow> 'c Raft \<times> 'c Raft \<Rightarrow> ('c Raft \<times> 'c Raft) res" where
  "replicateRound env server = (\<lambda>(ld, fl).
     rbind (heartbeatBegin server ld) (\<lambda>args.
     rbind (AppendEntries env args fl) (\<lambda>(fl, reply).
     rbind (heartbeatEnd env server args reply ld) (\<lambda>ld. Inr (ld, fl)))))"

fun replicateRounds :: "nat \<Rightarrow> env \<Rightarrow> int \<Rightarrow> 'c Raft \<times> 'c Raft \<Rightarrow> ('c Raft \<times> 'c Raft) res" where
  "replicateRounds 0 env server st = Inr st"
| "replicateRounds (Suc n) env server st =
     rbind (replicateRound env server st) (replicateRounds n env server)"

text \<open>The Log Matching property of two logs: equal terms at a position, equal logs up to it.\<close>

definition log_match :: "'c LogEntry list \<Rightarrow> 'c LogEntry list \<Rightarrow> bool" where
  "log_match l f \<longleftrightarrow>
     (\<forall>k < min (length l) (length f).
        ent_Term (l ! k) = ent_Term (f ! k) \<longrightarrow> take (Suc k) l = take (Suc k) f)"

lemma log_match_take: "log_match l f \<Longrightarrow> log_match l (take n f)"
  by (auto simp: log_match_def min_def)

lemma log_match_prefix:
  assumes "log_match l f" "n \<le> length l" "length f = n" "0 < n"
    and "ent_Term (l ! (n - 1)) = ent_Term (f ! (n - 1))"
  shows "f @ drop n l = l"
proof -
  have "n - 1 < min (length l) (length f)" using assms(2-4) by simp
  with assms(1,5) have "take (Suc (n - 1)) l = take (Suc (n - 1)) f"
    unfolding log_match_def by blast
  then have "f = take n l" using assms(3,4) by simp
  then show ?thesis by simp
qed

text \<open>
  A leader that has entries to send to \<open>server\<close> from \<open>nextIndex\<close> on, and the follower: the
  follower has nothing there yet, or something of another term.
\<close>

definition syncing :: "int \<Rightarrow> 'c Raft \<Rightarrow> 'c Raft \<Rightarrow> bool" where
  "syncing server ld fl \<longleftrightarrow>
     log_wf (logEntries ld) \<and> log_wf (logEntries fl) \<and>
     log_match (logEntries ld) (logEntries fl) \<and>
     logEntries ld ! 0 = logEntries fl ! 0 \<and>
     currentTerm ld = currentTerm fl \<and> 0 \<le> currentTerm ld \<and>
     0 \<le> server \<and> server < int (length (nextIndex ld)) \<and>
     server < int (length (matchIndex ld)) \<and>
     (let n = nextIndex ld ! nat server in
      1 \<le> n \<and> n < int (length (logEntries ld)) \<and>
      (int (length (logEntries fl)) \<le> n \<or>
       ent_Term (logEntries fl ! nat n) \<noteq> ent_Term (logEntries ld ! nat n)))"

text \<open>The follower has what the leader has, and the leader knows it.\<close>

definition synced :: "int \<Rightarrow> 'c Raft \<Rightarrow> 'c Raft \<Rightarrow> bool" where
  "synced server ld fl \<longleftrightarrow>
     logEntries fl = logEntries ld \<and>
     nextIndex ld ! nat server = int (length (logEntries ld)) \<and>
     matchIndex ld ! nat server = int (length (logEntries ld)) - 1"

definition sync_measure :: "int \<Rightarrow> 'c Raft \<Rightarrow> 'c Raft \<Rightarrow> nat" where
  "sync_measure server ld fl =
     (let n = nextIndex ld ! nat server
      in 2 * nat n + (if int (length (logEntries fl)) > n then 1 else 0))"

text \<open>A reply of the leader's own term sets the two indices and touches nothing else.\<close>

lemma heartbeatEnd_index:
  assumes "aer_Term reply \<le> currentTerm ld" "1 \<le> aer_NextIndex reply"
    and "0 \<le> server" "server < int (length (nextIndex ld))"
    and "server < int (length (matchIndex ld))"
  obtains ld' where "heartbeatEnd env server args reply ld = Inr ld'"
    and "logEntries ld' = logEntries ld" "currentTerm ld' = currentTerm ld"
    and "nextIndex ld' = (nextIndex ld)[nat server := aer_NextIndex reply]"
    and "matchIndex ld' = (matchIndex ld)[nat server := aer_NextIndex reply - 1]"
proof -
  obtain ld1 where a: "adjustIndex server reply ld = Inr ld1"
    and ld1: "ld1 = ld\<lparr>nextIndex := (nextIndex ld)[nat server := aer_NextIndex reply],
                       matchIndex := (matchIndex ld)[nat server := aer_NextIndex reply - 1]\<rparr>"
    using assms by (simp add: adjustIndex_Inr replyIndex_def)
  from assms(1) have "heartbeatEnd env server args reply ld =
      Inr (persist (if tries_commit args reply ld then commitLog ld1 else ld1))"
    by (simp add: heartbeatEnd_stay a)
  then show ?thesis by (rule that) (simp_all add: ld1)
qed

text \<open>The request of a syncing leader.\<close>

lemma syncing_request:
  assumes "syncing server ld fl"
  defines "n \<equiv> nextIndex ld ! nat server"
  obtains args where "heartbeatBegin server ld = Inr args" "args_wf args"
    and "ae_Term args = currentTerm fl"
    and "ae_PrevLogIndex args = n - 1"
    and "ae_PrevLogTerm args = ent_Term (logEntries ld ! nat (n - 1))"
    and "ae_Entries args = drop (nat n) (logEntries ld)"
proof -
  have s: "log_wf (logEntries ld)" "0 \<le> server" "server < int (length (nextIndex ld))"
    "1 \<le> n" "n < int (length (logEntries ld))" "currentTerm ld = currentTerm fl"
    using assms by (simp_all add: syncing_def Let_def)
  let ?args = "\<lparr>ae_Term = currentTerm ld, ae_LeaderId = me ld, ae_PrevLogIndex = n - 1,
      ae_PrevLogTerm = ent_Term (logEntries ld ! nat (n - 1)),
      ae_Entries = drop (nat n) (logEntries ld), ae_LeaderCommit = commitIndex ld\<rparr>"
  have "heartbeatBegin server ld = Inr ?args"
    using s by (simp add: heartbeatBegin_def getAppendLogs_wf [OF s(1-3) n_def [THEN meta_eq_to_obj_eq]])
  moreover have "args_wf ?args"
    using s by (auto simp: args_wf_def log_wf_nth)
  ultimately show ?thesis using s(6) by (intro that [of ?args]) auto
qed

text \<open>
  What the follower's answer \<open>k\<close> means: the logs are equal, or the leader has to go back (or
  stay, after the follower dropped the entries in the way).
\<close>

definition advances :: "'c Raft \<Rightarrow> 'c Raft \<Rightarrow> nat \<Rightarrow> nat \<Rightarrow> 'c Raft \<Rightarrow> bool" where
  "advances ld fl m k fl' \<longleftrightarrow>
     1 \<le> k \<and> currentTerm fl' = currentTerm fl \<and> log_wf (logEntries fl') \<and>
     (logEntries fl' = logEntries ld \<and> k = length (logEntries ld) \<or>
      k < length (logEntries ld) \<and> log_match (logEntries ld) (logEntries fl') \<and>
      logEntries fl' ! 0 = logEntries fl ! 0 \<and> length (logEntries fl') \<le> k \<and>
      (k < m \<or> k = m \<and> m < length (logEntries fl)))"

lemma syncing_answer:
  assumes S: "syncing server ld fl" and req: "heartbeatBegin server ld = Inr args"
    and m: "nextIndex ld ! nat server = int m"
  obtains fl' reply k where "AppendEntries env args fl = Inr (fl', reply)"
    and "aer_Term reply = 0" "aer_NextIndex reply = int k" "advances ld fl m k fl'"
proof -
  let ?L = "logEntries ld" let ?F = "logEntries fl"
  have s: "log_wf ?L" "log_wf ?F" "log_match ?L ?F" "?L ! 0 = ?F ! 0" "1 \<le> m" "m < length ?L"
    and free: "length ?F \<le> m \<or> ent_Term (?F ! m) \<noteq> ent_Term (?L ! m)"
    using S m by (auto simp: syncing_def Let_def)
  have a: "args_wf args" "ae_Term args = currentTerm fl" "ae_PrevLogIndex args = int m - 1"
    "ae_PrevLogTerm args = ent_Term (?L ! (m - 1))" "ae_Entries args = drop m ?L"
    using syncing_request [OF S] req s(5) by (auto simp: m nat_diff_distrib)
  have mm: "prev_mismatch args ?F \<longleftrightarrow>
      2 \<le> m \<and> m \<le> length ?F \<and> ent_Term (?F ! (m - 1)) \<noteq> ent_Term (?L ! (m - 1))"
    using s(5) by (auto simp: prev_mismatch_def a nat_diff_distrib)
  have none: "conflictIndex ?F (drop m ?L) = Inr None" if "length ?F \<le> m"
    using conflictIndex_after [of args ?F] a that by simp
  consider (behind) "length ?F < m" | (mismatch) "prev_mismatch args ?F"
    | (conflict) "\<not> prev_mismatch args ?F" "m < length ?F"
    | (fits) "\<not> prev_mismatch args ?F" "length ?F = m" by linarith
  then show thesis
  proof cases
    case behind
    with a s that [where k = "length ?F"] show thesis
      by (simp add: AppendEntries_consistent mm none Let_def advances_def
          Suc_le_eq log_wf_nonempty)
  next
    case mismatch
    then have "Suc 0 \<le> m - Suc 0" "m - Suc 0 < length ?L" using s(6) by (auto simp: mm)
    with mismatch a s that [where k = "m - 1"] show thesis
      by (simp add: AppendEntries_mismatch mm nat_diff_distrib of_nat_diff advances_def
          log_wf_take log_match_take)
  next
    case conflict
    have "drop m ?L = ?L ! m # drop (Suc m) ?L"
      using s(6) by (simp add: Cons_nth_drop_Suc)
    with conflict s free have "conflictIndex ?F (drop m ?L) = Inr (Some (int m))"
      by (simp add: log_wf_nth go_index_def)
    with a s conflict that [where k = m] show thesis
      by (simp add: AppendEntries_consistent Let_def slice_to_def advances_def
          log_wf_take log_match_take)
  next
    case fits
    have "ent_Term (?L ! (m - 1)) = ent_Term (?F ! (m - 1))"
      using fits s(4,5) by (cases "m = 1") (auto simp: mm)
    then have "?F @ drop m ?L = ?L"
      using s fits by (intro log_match_prefix) auto
    with a s fits that [where k = "length ?L"] show thesis
      by (simp add: AppendEntries_consistent none Let_def advances_def)
  qed
qed

lemma syncing_advance:
  assumes S: "syncing server ld fl" and m: "nextIndex ld ! nat server = int m"
    and r: "aer_Term reply = 0" "aer_NextIndex reply = int k" and adv: "advances ld fl m k fl'"
  obtains ld' where "heartbeatEnd env server args reply ld = Inr ld'"
    and "logEntries ld' = logEntries ld"
    and "synced server ld' fl' \<or>
         syncing server ld' fl' \<and> sync_measure server ld' fl' < sync_measure server ld fl"
proof -
  have s: "0 \<le> currentTerm ld" "0 \<le> server" "server < int (length (nextIndex ld))"
    "server < int (length (matchIndex ld))"
    using S by (auto simp: syncing_def Let_def)
  have ln: "nat server < length (nextIndex ld)" "nat server < length (matchIndex ld)"
    using s by linarith+
  obtain ld' where e: "heartbeatEnd env server args reply ld = Inr ld'"
    "logEntries ld' = logEntries ld" "currentTerm ld' = currentTerm ld"
    "nextIndex ld' = (nextIndex ld)[nat server := int k]"
    "matchIndex ld' = (matchIndex ld)[nat server := int k - 1]"
    using heartbeatEnd_index [of reply ld server env args] r s adv by (auto simp: advances_def)
  show thesis
  proof (rule that [OF e(1,2)])
    show "synced server ld' fl' \<or>
       syncing server ld' fl' \<and> sync_measure server ld' fl' < sync_measure server ld fl"
    proof (cases "logEntries fl' = logEntries ld \<and> k = length (logEntries ld)")
      case True
      then show ?thesis using ln by (simp add: synced_def e)
    next
      case False
      with adv S ln have "syncing server ld' fl'"
        by (auto simp: advances_def syncing_def Let_def e)
      moreover have "sync_measure server ld' fl' < sync_measure server ld fl"
        using False adv ln by (auto simp: advances_def sync_measure_def Let_def e m)
      ultimately show ?thesis by simp
    qed
  qed
qed

text \<open>One round either finishes or makes progress.\<close>

lemma sync_round:
  assumes S: "syncing server ld fl"
  obtains ld' fl' where "replicateRound env server (ld, fl) = Inr (ld', fl')"
    and "logEntries ld' = logEntries ld"
    and "synced server ld' fl' \<or>
         syncing server ld' fl' \<and> sync_measure server ld' fl' < sync_measure server ld fl"
proof -
  have "0 \<le> nextIndex ld ! nat server" using S by (simp add: syncing_def Let_def)
  then obtain m where m: "nextIndex ld ! nat server = int m" by (rule nonneg_int_cases)
  obtain args where req: "heartbeatBegin server ld = Inr args"
    using syncing_request [OF S] by blast
  obtain fl' reply k where ans: "AppendEntries env args fl = Inr (fl', reply)"
    "aer_Term reply = 0" "aer_NextIndex reply = int k" "advances ld fl m k fl'"
    using syncing_answer [OF S req m] by blast
  obtain ld' where "heartbeatEnd env server args reply ld = Inr ld'"
    "logEntries ld' = logEntries ld"
    "synced server ld' fl' \<or>
     syncing server ld' fl' \<and> sync_measure server ld' fl' < sync_measure server ld fl"
    using syncing_advance [OF S m ans(2-4)] by blast
  then show thesis
    by (intro that [of ld' fl']) (simp_all add: replicateRound_def req ans(1))
qed

lemma sync_rounds:
  assumes "syncing server ld fl"
  shows "\<exists>k ld' fl'. k \<le> Suc (sync_measure server ld fl) \<and>
     replicateRounds k env server (ld, fl) = Inr (ld', fl') \<and>
     logEntries ld' = logEntries ld \<and> synced server ld' fl'"
  using assms
proof (induction "sync_measure server ld fl" arbitrary: ld fl rule: less_induct)
  case less
  obtain ld1 fl1 where r: "replicateRound env server (ld, fl) = Inr (ld1, fl1)"
    "logEntries ld1 = logEntries ld"
    and o: "synced server ld1 fl1 \<or>
      syncing server ld1 fl1 \<and> sync_measure server ld1 fl1 < sync_measure server ld fl"
    using sync_round [OF less.prems] by blast
  from o show ?case
  proof
    assume "synced server ld1 fl1"
    with r show ?thesis
      by (intro exI [of _ "Suc 0"] exI [of _ ld1] exI [of _ fl1]) simp
  next
    assume p: "syncing server ld1 fl1 \<and> sync_measure server ld1 fl1 < sync_measure server ld fl"
    with less.hyps obtain k ld' fl' where "k \<le> Suc (sync_measure server ld1 fl1)"
      "replicateRounds k env server (ld1, fl1) = Inr (ld', fl')"
      "logEntries ld' = logEntries ld1" "synced server ld' fl'"
      by blast
    with r p show ?thesis
      by (intro exI [of _ "Suc k"] exI [of _ ld'] exI [of _ fl']) simp
  qed
qed

section \<open>Properties\<close>

lemma log_match_snoc:
  assumes "log_match l f" "\<forall>x \<in> set f. ent_Term x \<noteq> ent_Term e"
  shows "log_match (l @ [e]) f"
  unfolding log_match_def
proof (intro allI impI)
  fix k
  assume k: "k < min (length (l @ [e])) (length f)"
    and t: "ent_Term ((l @ [e]) ! k) = ent_Term (f ! k)"
  from k assms(2) have "ent_Term (f ! k) \<noteq> ent_Term e" by simp
  with t k have "k < length l" by (auto simp: nth_append split: if_splits)
  with assms(1) k t show "take (Suc k) (l @ [e]) = take (Suc k) f"
    by (simp add: log_match_def nth_append)
qed

text \<open>A server that has just won an election and accepted a command is ready to bring a follower up to date.\<close>

lemma new_leader_syncing:
  assumes wf: "log_wf (logEntries rf)" "log_wf (logEntries fl)"
    and m: "log_match (logEntries rf) (logEntries fl)" "logEntries rf ! 0 = logEntries fl ! 0"
    and t: "currentTerm fl = currentTerm rf" "0 \<le> currentTerm rf"
      "\<forall>e \<in> set (logEntries fl). ent_Term e \<noteq> currentTerm rf"
    and i: "0 \<le> me rf" "me rf < int (peers rf)" "0 \<le> server" "server < int (peers rf)"
  obtains ld ld' where "changeRole env Leader rf = Inr ld"
    and "Start c ld = Inr (ld', int (length (logEntries rf)), currentTerm rf, True)"
    and "logEntries ld' = logEntries rf @
      [\<lparr>ent_Term = currentTerm rf, ent_Index = int (length (logEntries rf)), ent_Command = c\<rparr>]"
    and "syncing server ld' fl" "nextIndex ld' ! nat server = int (length (logEntries rf))"
proof -
  let ?n = "int (length (logEntries rf))"
  let ?e = "\<lparr>ent_Term = currentTerm rf, ent_Index = ?n, ent_Command = c\<rparr>"
  have last: "snd (lastLogTermIndex rf) = ?n - 1" using wf(1) by (rule lastLogTermIndex_wf)
  obtain ld where ld: "changeRole env Leader rf = Inr ld"
    using i(1,2) by (simp add: changeRole_Leader)
  then have f: "role ld = Leader" "currentTerm ld = currentTerm rf" "logEntries ld = logEntries rf"
    "nextIndex ld = replicate (peers rf) ?n" "length (matchIndex ld) = peers rf" "me ld = me rf"
    using i(1,2) by (auto simp: changeRole_Leader last)
  have l: "snd (lastLogTermIndex ld) = ?n - 1"
    using lastLogTermIndex_cong [OF f(3)] last by simp
  have "Start c ld = Inr (persist (ld\<lparr>logEntries := logEntries rf @ [?e],
      matchIndex := (matchIndex ld)[nat (me rf) := ?n]\<rparr>), ?n, currentTerm rf, True)"
    using StartLocked_leader [of ld "currentTerm ld" c] i f
    by (simp add: Start_def GetState_def l Let_def)
  moreover have "log_wf (logEntries rf @ [?e])" using wf(1) by (rule log_wf_append) simp
  moreover have "log_match (logEntries rf @ [?e]) (logEntries fl)"
    using m(1) t(3) by (intro log_match_snoc) simp_all
  moreover have "logEntries rf \<noteq> []" "nat server < peers rf"
    using wf(1) i(3,4) by (auto dest: log_wf_nonempty)
  moreover have "ent_Term (logEntries fl ! k) \<noteq> currentTerm rf" if "k < length (logEntries fl)" for k
    using t(3) that by auto
  ultimately show thesis
    using wf m(2) t(1,2) i f
    by (intro that [OF ld]) (auto simp: syncing_def Let_def nth_append Suc_le_eq not_le)
qed

text \<open>
  C3: replication converges. A server becomes leader and accepts a command. For every follower of its term that holds no entry of
  that term yet, whose log and the leader's satisfy Log Matching, a bounded number of answered heartbeats makes the follower's
  log equal to the leader's, the new entry included, and the leader knows it. No step panics.
\<close>

theorem replication_converges:
  assumes "log_wf (logEntries rf)" "log_wf (logEntries fl)"
    and "log_match (logEntries rf) (logEntries fl)" "logEntries rf ! 0 = logEntries fl ! 0"
    and "currentTerm fl = currentTerm rf" "0 \<le> currentTerm rf"
      "\<forall>e \<in> set (logEntries fl). ent_Term e \<noteq> currentTerm rf"
    and "0 \<le> me rf" "me rf < int (peers rf)" "0 \<le> server" "server < int (peers rf)"
  shows "\<exists>ld ld1 k ld2 fl2. changeRole env Leader rf = Inr ld \<and>
     Start c ld = Inr (ld1, int (length (logEntries rf)), currentTerm rf, True) \<and>
     k \<le> 2 * length (logEntries rf) + 2 \<and>
     replicateRounds k env server (ld1, fl) = Inr (ld2, fl2) \<and>
     logEntries fl2 = logEntries rf @
       [\<lparr>ent_Term = currentTerm rf, ent_Index = int (length (logEntries rf)), ent_Command = c\<rparr>] \<and>
     logEntries ld2 = logEntries fl2 \<and>
     matchIndex ld2 ! nat server = int (length (logEntries rf))"
proof -
  obtain ld ld1 where ld: "changeRole env Leader rf = Inr ld"
    "Start c ld = Inr (ld1, int (length (logEntries rf)), currentTerm rf, True)"
    "logEntries ld1 = logEntries rf @
      [\<lparr>ent_Term = currentTerm rf, ent_Index = int (length (logEntries rf)), ent_Command = c\<rparr>]"
    "syncing server ld1 fl" "nextIndex ld1 ! nat server = int (length (logEntries rf))"
    using new_leader_syncing [OF assms] by blast
  obtain k ld2 fl2 where k: "k \<le> Suc (sync_measure server ld1 fl)"
    "replicateRounds k env server (ld1, fl) = Inr (ld2, fl2)"
    "logEntries ld2 = logEntries ld1" "synced server ld2 fl2"
    using sync_rounds [OF ld(4)] by blast
  have "sync_measure server ld1 fl \<le> Suc (2 * length (logEntries rf))"
    by (simp add: sync_measure_def Let_def ld(5))
  with k(1) have "k \<le> 2 * length (logEntries rf) + 2" by linarith
  with ld k show ?thesis by (auto simp: synced_def)
qed

theorem replication_converges_witness:
  "\<exists>ld ld1 k ld2 fl2.
     changeRole (0, 0) Leader (sampleServer 3 0 Candidate 3 0
       [mkEntry 0 0 None, mkEntry 1 1 (Some ''x'')]) = Inr ld \<and>
     Start (Some ''z'') ld = Inr (ld1, 2, 3, True) \<and> k \<le> 6 \<and>
     replicateRounds k (0, 0) 2 (ld1,
       sampleServer 3 2 Follower 3 0 [mkEntry 0 0 None, mkEntry 2 1 (Some ''y''), mkEntry 2 2 None])
       = Inr (ld2, fl2) \<and>
     logEntries fl2 = [mkEntry 0 0 None, mkEntry 1 1 (Some ''x''), mkEntry 3 2 (Some ''z'')] \<and>
     matchIndex ld2 ! 2 = 2"
proof -
  let ?rf = "sampleServer 3 0 Candidate 3 0 [mkEntry 0 0 None, mkEntry 1 1 (Some ''x'')]"
  let ?fl = "sampleServer 3 2 Follower 3 0
      [mkEntry 0 0 None, mkEntry 2 1 (Some ''y''), mkEntry 2 2 None]"
  have wf: "log_wf (logEntries ?rf)" "log_wf (logEntries ?fl)"
    by (simp_all add: log_wf_def nth_Cons split: nat.split)
  moreover have "log_match (logEntries ?rf) (logEntries ?fl)"
    by (simp add: log_match_def nth_Cons split: nat.split)
  ultimately show ?thesis
    using replication_converges [of ?rf ?fl 2 "(0, 0)" "Some ''z''"]
    by (simp add: mkEntry_def) blast
qed

text \<open>
  C22: refinement of the paper's rule. Take a request of the server's own term that a leader could have sent. If the paper's AppendEntries rule refuses it, so does the
  handler. If the rule gives a new log, the handler succeeds with this log, or it meets a conflict and answers with an index, and
  the request from this index on then succeeds and gives this log. The request must not repeat entries the follower already has: it has no entries, or the follower
  holds nothing beyond the entry before them, or one of them is in conflict.
\<close>

theorem AppendEntries_refines_paper:
  assumes "args_wf args" "ae_Term args = currentTerm rf"
    and "ae_Entries args = [] \<or> int (length (logEntries rf)) \<le> ae_PrevLogIndex args + 1 \<or>
         conflictIndex (logEntries rf) (ae_Entries args) \<noteq> Inr None"
  shows "\<exists>rf' reply. AppendEntries env args rf = Inr (rf', reply) \<and>
     (case paperAppend args (logEntries rf) of
        None \<Rightarrow> \<not> aer_Success reply
      | Some l \<Rightarrow> aer_Success reply \<and> logEntries rf' = l \<or>
          (\<exists>rf'' reply'. \<not> aer_Success reply \<and>
             AppendEntries env' (followUp args (aer_NextIndex reply)) rf' = Inr (rf'', reply') \<and>
             aer_Success reply' \<and> logEntries rf'' = l))"
proof -
  let ?l = "logEntries rf"
  obtain rf' reply where run: "AppendEntries env args rf = Inr (rf', reply)"
    using args_wf_returns [OF assms(1)] by blast
  consider (refuse) "prev_mismatch args ?l \<or> int (length ?l) \<le> ae_PrevLogIndex args"
    | (conflict) k where "\<not> prev_mismatch args ?l" "conflictIndex ?l (ae_Entries args) = Inr (Some k)"
    | (success) "aer_Success reply"
    using run assms(2) by (auto elim!: AppendEntries_cases)
  then show ?thesis
  proof cases
    case refuse
    then have "paperAppend args ?l = None" by (auto simp: paperAppend_def Let_def le_nat_iff)
    moreover have "\<not> aer_Success reply" using run refuse by (auto elim!: AppendEntries_cases)
    ultimately show ?thesis using run by simp
  next
    case conflict
    from conflict_matches_paper [OF assms(1,2) this run, of env'] run show ?thesis by fastforce
  next
    case success
    with run have "conflictIndex ?l (ae_Entries args) = Inr None" "ae_PrevLogIndex args < int (length ?l)"
      by (auto elim!: AppendEntries_cases)
    with assms(3) have "ae_Entries args = [] \<or> int (length ?l) = ae_PrevLogIndex args + 1" by auto
    with success_matches_paper [OF run success assms(1)] run success show ?thesis by simp
  qed
qed

text \<open>Two entries, the second of which the follower has with another term.\<close>

theorem AppendEntries_refines_paper_witness:
  "\<exists>rf' reply rf'' reply'. AppendEntries (0, 0)
       \<lparr>ae_Term = 3, ae_LeaderId = 1, ae_PrevLogIndex = 0, ae_PrevLogTerm = 0,
        ae_Entries = [mkEntry 1 1 (Some ''x''), mkEntry 3 2 (Some ''z'')], ae_LeaderCommit = 0\<rparr>
       (sampleServer 3 0 Follower 3 1 [mkEntry 0 0 None, mkEntry 1 1 (Some ''x''), mkEntry 2 2 (Some ''y'')]) = Inr (rf', reply) \<and>
     \<not> aer_Success reply \<and>
     AppendEntries (0, 0) (followUp \<lparr>ae_Term = 3, ae_LeaderId = 1, ae_PrevLogIndex = 0, ae_PrevLogTerm = 0,
        ae_Entries = [mkEntry 1 1 (Some ''x''), mkEntry 3 2 (Some ''z'')], ae_LeaderCommit = 0\<rparr> (aer_NextIndex reply)) rf' =
        Inr (rf'', reply') \<and>
     logEntries rf'' = [mkEntry 0 0 None, mkEntry 1 1 (Some ''x''), mkEntry 3 2 (Some ''z'')]"
proof -
  let ?args = "\<lparr>ae_Term = 3, ae_LeaderId = 1, ae_PrevLogIndex = 0, ae_PrevLogTerm = 0,
        ae_Entries = [mkEntry 1 1 (Some ''x''), mkEntry 3 2 (Some ''z'')], ae_LeaderCommit = 0\<rparr>"
  let ?rf = "sampleServer 3 0 Follower 3 1 [mkEntry 0 0 None, mkEntry 1 1 (Some ''x''), mkEntry 2 2 (Some ''y'')]"
  have wf: "args_wf ?args" by (simp add: args_wf_def nth_Cons split: nat.split)
  have c: "conflictIndex (logEntries ?rf) (ae_Entries ?args) = Inr (Some 2)" by (simp add: go_index_def)
  have "paperAppend ?args (logEntries ?rf) =
      Some [mkEntry 0 0 None, mkEntry 1 1 (Some ''x''), mkEntry 3 2 (Some ''z'')]"
    by (simp add: paperAppend_def prev_mismatch_def)
  moreover have "\<not> aer_Success reply" if "AppendEntries (0, 0) ?args ?rf = Inr (rf', reply)" for rf' reply
    using that c by (auto elim!: AppendEntries_cases)
  ultimately show ?thesis
    using AppendEntries_refines_paper [OF wf, of ?rf "(0, 0)" "(0, 0)"] c by auto
qed

text \<open>
  C40: a lost reply duplicates entries. The leader's request reaches a follower whose log ends right before the new entries, which it appends;
  the reply is lost. The leader changes nothing, so its next request to this follower is the same. The follower finds no conflict, does not
  notice that it has the entries, and appends them a second time: it now
  has more entries than the leader, with indices that no longer are their positions.
\<close>

theorem lost_reply_duplicates:
  assumes "syncing server ld fl" "int (length (logEntries fl)) = nextIndex ld ! nat server"
    and "ent_Term (last (logEntries fl)) =
         ent_Term (logEntries ld ! nat (nextIndex ld ! nat server - 1))"
  shows "\<exists>args ld' fl1 r1 fl2 r2.
     heartbeatBegin server ld = Inr args \<and> ae_Entries args \<noteq> [] \<and>
     AppendEntries env args fl = Inr (fl1, r1) \<and> logEntries fl1 = logEntries ld \<and>
     heartbeatEnd env server args zeroReply ld = Inr ld' \<and> heartbeatBegin server ld' = Inr args \<and>
     AppendEntries env args fl1 = Inr (fl2, r2) \<and> aer_Success r2 \<and>
     logEntries fl2 = logEntries ld @ ae_Entries args \<and> \<not> log_wf (logEntries fl2)"
proof -
  let ?L = "logEntries ld" let ?F = "logEntries fl" let ?n = "length (logEntries fl)"
  have s: "log_wf ?L" "log_wf ?F" "log_match ?L ?F" "0 \<le> currentTerm ld" "?n < length ?L" "?F \<noteq> []"
    using assms(1) by (auto simp: syncing_def Let_def assms(2) [symmetric] dest: log_wf_nonempty)
  have n1: "nat (int ?n - 1) = ?n - 1" by linarith
  obtain args where a: "heartbeatBegin server ld = Inr args" "args_wf args"
    "ae_Term args = currentTerm fl" "ae_PrevLogIndex args = int ?n - 1"
    "ae_PrevLogTerm args = ent_Term (?L ! (?n - 1))" "ae_Entries args = drop ?n ?L"
    using syncing_request [OF assms(1)] unfolding assms(2) [symmetric] n1 nat_int .
  have t: "ent_Term (?F ! (?n - 1)) = ent_Term (?L ! (?n - 1))"
    using assms(3) s(6) unfolding assms(2) [symmetric] n1 by (simp add: last_conv_nth)
  have nm: "\<not> prev_mismatch args ?F" using t by (auto simp: prev_mismatch_def a n1)
  have len: "int ?n = ae_PrevLogIndex args + 1" by (simp add: a)
  have FL: "?F @ ae_Entries args = ?L"
    unfolding a(6) by (rule log_match_prefix) (use s t in auto)
  obtain fl1 r1 where f1: "AppendEntries env args fl = Inr (fl1, r1)" "logEntries fl1 = ?L"
    "currentTerm fl1 = currentTerm fl"
    using first_delivery [OF a(3,2) len nm] FL by metis
  obtain fl2 r2 where f2: "AppendEntries env args fl1 = Inr (fl2, r2)" "aer_Success r2"
    "logEntries fl2 = ?L @ ae_Entries args"
    using second_delivery [of args fl1 ?F env] a(2,3) f1 FL len nm by (metis append.assoc)
  have e: "heartbeatEnd env server args zeroReply ld = Inr (persist ld)"
    using s(4) by (simp add: heartbeatEnd_def zeroReply_def adjustIndex_def)
  have b: "heartbeatBegin server (persist ld) = Inr args"
    using a(1) getAppendLogs_cong [of "persist ld" ld server] by (simp add: heartbeatBegin_def)
  have "\<not> log_wf (logEntries fl2)"
    using success_wf_iff [OF f2(1,2) a(2)] f1(2) s(1,5) len by (simp add: a(6))
  with a f1 f2 e b s(5) show ?thesis by auto
qed

theorem lost_reply_duplicates_witness:
  "\<exists>args ld' fl1 r1 fl2 r2.
     heartbeatBegin 1 ((sampleServer 3 0 Leader 1 (-1)
       [mkEntry 0 0 None, mkEntry 1 1 (Some ''x'')])\<lparr>nextIndex := [2, 1, 1]\<rparr>) = Inr args \<and>
     AppendEntries (0, 0) args (sampleServer 3 1 Follower 1 0 [mkEntry 0 0 None]) = Inr (fl1, r1) \<and>
     heartbeatEnd (0, 0) 1 args zeroReply ((sampleServer 3 0 Leader 1 (-1)
       [mkEntry 0 0 None, mkEntry 1 1 (Some ''x'')])\<lparr>nextIndex := [2, 1, 1]\<rparr>) = Inr ld' \<and>
     heartbeatBegin 1 ld' = Inr args \<and>
     AppendEntries (0, 0) args fl1 = Inr (fl2, r2) \<and>
     \<not> log_wf (logEntries fl2)"
proof -
  let ?ld = "(sampleServer 3 0 Leader 1 (-1)
       [mkEntry 0 0 None, mkEntry 1 1 (Some ''x'')])\<lparr>nextIndex := [2, 1, 1]\<rparr>"
  let ?fl = "sampleServer 3 1 Follower 1 0 [mkEntry 0 0 (None :: string option)]"
  have "syncing 1 ?ld ?fl"
    by (simp add: syncing_def log_wf_def log_match_def nth_Cons split: nat.split)
  then show ?thesis using lost_reply_duplicates [of 1 ?ld ?fl "(0, 0)"] by auto
qed

end
