(* ===== verification/Raft_Cluster.thy ===== *)
theory Raft_Cluster
  imports Raft_Replication
begin

text \<open>
  A cluster of \<open>n\<close> servers that run the code of \<open>vote.go\<close>, \<open>entry.go\<close> and the goroutines of \<open>Make\<close>,
  over the network of \<open>labrpc\<close>, with the crashes and restarts that \<open>config.go\<close> injects. A step is
  one critical section of one server. A message, once sent, stays in the network, so it may
  be delivered late, never or several times, and out of order, which covers what \<open>labrpc\<close> may do.
  An election may start at any moment, which covers every setting of the timers.

  The ghost fields \<open>votes\<close> and \<open>won\<close> record the votes given and the elections won; no step reads
  them.
\<close>

section \<open>States and events\<close>

type_synonym election = "RequestVoteArgs \<times> int \<times> nat set"

record 'c Cluster =
  nodes :: "nat \<Rightarrow> 'c Raft"
  electing :: "nat \<Rightarrow> election option"
  lost :: "nat \<Rightarrow> bool"
  beats :: "nat \<Rightarrow> nat list"
  beating :: "nat \<Rightarrow> (nat \<times> 'c AppendEntriesArgs) option"
  starting :: "nat \<Rightarrow> (int \<times> bool \<times> 'c option) list"
  voteReqs :: "(nat \<times> nat \<times> RequestVoteArgs) set"
  voteResps :: "(nat \<times> nat \<times> RequestVoteArgs \<times> RequestVoteReply) set"
  appReqs :: "(nat \<times> nat \<times> 'c AppendEntriesArgs) set"
  appResps :: "(nat \<times> nat \<times> 'c AppendEntriesArgs \<times> AppendEntriesReply) set"
  votes :: "(nat \<times> int \<times> nat) set"
  won :: "(nat \<times> int) set"

text \<open>
  A server's mutex is held across an election (\<open>electing\<close>: the request, the votes so far and the
  peers whose answer was handled) and across the RPC of \<open>SendHeartbeat\<close> (\<open>beating\<close>). \<open>lost\<close> says
  that the timer goroutine has yet to run \<open>changeRole(Follower)\<close> after an election that
  did not succeed. \<open>beats\<close> are the peers that rounds of heartbeats under way have yet to send to,
  \<open>starting\<close> the calls of \<open>Start\<close> between their two critical sections.
\<close>

definition unlocked :: "'c Cluster \<Rightarrow> nat \<Rightarrow> bool" where
  "unlocked s i \<longleftrightarrow> electing s i = None \<and> beating s i = None"

datatype 'c event =
    ElectStart nat
  | ElectRefused nat
  | VoteHandle nat nat RequestVoteArgs
  | VoteReply nat nat RequestVoteReply
  | ElectEnd nat
  | ElectFailed nat
  | BeatStart nat
  | BeatSelf nat
  | BeatSend nat nat
  | AppHandle nat nat "'c AppendEntriesArgs"
  | BeatEnd nat AppendEntriesReply
  | StartCheck nat "'c option"
  | StartWork nat "int \<times> bool \<times> 'c option"
  | Deliver nat
  | Restart nat

abbreviation set_node :: "nat \<Rightarrow> 'c Raft \<Rightarrow> 'c Cluster \<Rightarrow> 'c Cluster" where
  "set_node i rf s \<equiv> s\<lparr>nodes := (nodes s)(i := rf)\<rparr>"

definition voteRequests :: "nat \<Rightarrow> nat \<Rightarrow> RequestVoteArgs \<Rightarrow> (nat \<times> nat \<times> RequestVoteArgs) set" where
  "voteRequests n i args = (\<lambda>j. (i, j, args)) ` set (filter (\<lambda>j. j \<noteq> i) [0..<n])"

definition cluster_init :: "nat \<Rightarrow> 'c Cluster \<Rightarrow> bool" where
  "cluster_init n s \<longleftrightarrow>
     (\<forall>i. \<exists>env. Make env n (int i) MakePersister = Inr (nodes s i)) \<and>
     electing s = (\<lambda>_. None) \<and> lost s = (\<lambda>_. False) \<and> beats s = (\<lambda>_. []) \<and>
     beating s = (\<lambda>_. None) \<and> starting s = (\<lambda>_. []) \<and>
     voteReqs s = {} \<and> voteResps s = {} \<and> appReqs s = {} \<and> appResps s = {} \<and>
     votes s = {} \<and> won s = {}"

section \<open>Steps\<close>

inductive cstep :: "nat \<Rightarrow> 'c Cluster \<Rightarrow> 'c event \<Rightarrow> 'c Cluster \<Rightarrow> bool" for n where
  elect_start:
    "i < n \<Longrightarrow> unlocked s i \<Longrightarrow> \<not> lost s i \<Longrightarrow> role (nodes s i) \<noteq> Leader \<Longrightarrow>
     rbind (resetElectionTimer env (nodes s i)) (electionBegin env) = Inr (rf, args) \<Longrightarrow>
     cstep n s (ElectStart i)
       ((set_node i rf s)\<lparr>electing := (electing s)(i := Some (args, 1, {})),
                         voteReqs := voteReqs s \<union> voteRequests n i args\<rparr>)"
| elect_refused:
    "i < n \<Longrightarrow> unlocked s i \<Longrightarrow> \<not> lost s i \<Longrightarrow> role (nodes s i) = Leader \<Longrightarrow>
     startElection env [] (nodes s i) = Inr (rf, False) \<Longrightarrow>
     cstep n s (ElectRefused i) ((set_node i rf s)\<lparr>lost := (lost s)(i := True)\<rparr>)"
| vote_handle:
    "(i, j, args) \<in> voteReqs s \<Longrightarrow> unlocked s j \<Longrightarrow>
     RequestVote env args (nodes s j) = Inr (rf, reply) \<Longrightarrow>
     cstep n s (VoteHandle i j args)
       ((set_node j rf s)\<lparr>voteResps := insert (i, j, args, reply) (voteResps s),
          votes := (if rvr_VoteGranted reply
                    then insert (j, rva_Term args, nat (rva_CandidateId args)) (votes s)
                    else votes s)\<rparr>)"
| vote_reply:
    "electing s i = Some (args, count, A) \<Longrightarrow> (i, j, args, reply) \<in> voteResps s \<Longrightarrow> j \<notin> A \<Longrightarrow>
     electionReply env args (Some reply) (nodes s i, count) = Inr (rf, count') \<Longrightarrow>
     cstep n s (VoteReply i j reply)
       ((set_node i rf s)\<lparr>electing := (electing s)(i := Some (args, count', insert j A))\<rparr>)"
| elect_end:
    "electing s i = Some (args, count, A) \<Longrightarrow>
     electionEnd env count (nodes s i) = Inr (rf, succ) \<Longrightarrow>
     cstep n s (ElectEnd i)
       ((set_node i rf s)\<lparr>electing := (electing s)(i := None),
          lost := (lost s)(i := \<not> succ),
          votes := insert (i, rva_Term args, i) (votes s),
          won := (if succ then insert (i, currentTerm rf) (won s) else won s)\<rparr>)"
| elect_failed:
    "lost s i \<Longrightarrow> unlocked s i \<Longrightarrow> electionFailed env (nodes s i) = Inr rf \<Longrightarrow>
     cstep n s (ElectFailed i) ((set_node i rf s)\<lparr>lost := (lost s)(i := False)\<rparr>)"
| beat_start:
    "i < n \<Longrightarrow> unlocked s i \<Longrightarrow> snd (GetState (nodes s i)) \<Longrightarrow>
     cstep n s (BeatStart i) (s\<lparr>beats := (beats s)(i := beats s i @ [0..<n])\<rparr>)"
| beat_self:
    "i \<in> set (beats s i) \<Longrightarrow> unlocked s i \<Longrightarrow>
     SendHeartbeat env (int i) (\<lambda>_. None) (nodes s i) = Inr rf \<Longrightarrow>
     cstep n s (BeatSelf i) ((set_node i rf s)\<lparr>beats := (beats s)(i := remove1 i (beats s i))\<rparr>)"
| beat_send:
    "j \<in> set (beats s i) \<Longrightarrow> j \<noteq> i \<Longrightarrow> unlocked s i \<Longrightarrow>
     heartbeatBegin (int j) (nodes s i) = Inr args \<Longrightarrow>
     cstep n s (BeatSend i j)
       (s\<lparr>beats := (beats s)(i := remove1 j (beats s i)),
         beating := (beating s)(i := Some (j, args)),
         appReqs := insert (i, j, args) (appReqs s)\<rparr>)"
| app_handle:
    "(i, j, args) \<in> appReqs s \<Longrightarrow> unlocked s j \<Longrightarrow>
     AppendEntries env args (nodes s j) = Inr (rf, reply) \<Longrightarrow>
     cstep n s (AppHandle i j args)
       ((set_node j rf s)\<lparr>appResps := insert (i, j, args, reply) (appResps s)\<rparr>)"
| beat_end:
    "beating s i = Some (j, args) \<Longrightarrow>
     reply = zeroReply \<or> (i, j, args, reply) \<in> appResps s \<Longrightarrow>
     heartbeatEnd env (int j) args reply (nodes s i) = Inr rf \<Longrightarrow>
     cstep n s (BeatEnd i reply) ((set_node i rf s)\<lparr>beating := (beating s)(i := None)\<rparr>)"
| start_check:
    "i < n \<Longrightarrow> unlocked s i \<Longrightarrow> GetState (nodes s i) = (t, isLeader) \<Longrightarrow>
     cstep n s (StartCheck i c)
       (s\<lparr>starting := (starting s)(i := (t, isLeader, c) # starting s i)\<rparr>)"
| start_work:
    "(t, isLeader, c) \<in> set (starting s i) \<Longrightarrow> unlocked s i \<Longrightarrow>
     StartLocked t isLeader c (nodes s i) = Inr (rf, res) \<Longrightarrow>
     cstep n s (StartWork i (t, isLeader, c))
       ((set_node i rf s)\<lparr>starting := (starting s)(i := remove1 (t, isLeader, c) (starting s i))\<rparr>)"
| deliver:
    "i < n \<Longrightarrow> unlocked s i \<Longrightarrow> applyRound (nodes s i) = Inr rf \<Longrightarrow>
     cstep n s (Deliver i) (set_node i rf s)"
| restart:
    "i < n \<Longrightarrow> Make env n (int i) (Copy (persister (nodes s i))) = Inr rf \<Longrightarrow>
     cstep n s (Restart i)
       ((set_node i rf s)\<lparr>electing := (electing s)(i := None), lost := (lost s)(i := False),
          beats := (beats s)(i := []), beating := (beating s)(i := None),
          starting := (starting s)(i := [])\<rparr>)"

inductive_cases cstepE: "cstep n s e t"

abbreviation cluster_reach :: "nat \<Rightarrow> 'c Cluster \<Rightarrow> bool" where
  "cluster_reach n \<equiv> reach (cluster_init n) (cstep n)"

section \<open>The steps that endanger leader election\<close>

text \<open>
  Three behaviours of the code let a term have two leaders; each is shown at the end of the
  development on a run of the cluster. A run is \<open>benign\<close> if it avoids them: no server wins an election
  after an answer has moved it to a later term (\<open>startElection\<close> does not check), no server restarts in a term
  it has won (winning erases its vote), and no leader's own election timer expires (which makes it
  a follower that may vote again in its term).
\<close>

definition dterm :: "'c Raft \<Rightarrow> int" where
  "dterm rf = fst (durable (persister rf))"

definition dvote :: "'c Raft \<Rightarrow> int" where
  "dvote rf = fst (snd (durable (persister rf)))"

fun benign :: "'c Cluster \<Rightarrow> 'c event \<Rightarrow> bool" where
  "benign s (ElectEnd i) =
     (case electing s i of
        None \<Rightarrow> True
      | Some (args, count, A) \<Rightarrow>
          count > int (peers (nodes s i) div 2) \<longrightarrow> currentTerm (nodes s i) = rva_Term args)"
| "benign s (ElectRefused i) = False"
| "benign s (Restart i) = ((i, dterm (nodes s i)) \<notin> won s)"
| "benign s _ = True"

definition benign_step :: "nat \<Rightarrow> 'c Cluster \<Rightarrow> 'c event \<Rightarrow> 'c Cluster \<Rightarrow> bool" where
  "benign_step n s e t \<longleftrightarrow> cstep n s e t \<and> benign s e"

abbreviation benign_reach :: "nat \<Rightarrow> 'c Cluster \<Rightarrow> bool" where
  "benign_reach n \<equiv> reach (cluster_init n) (benign_step n)"

section \<open>The invariant of leader election\<close>

text \<open>
  One server, given the votes \<open>V\<close> and wins \<open>W\<close> so far: its votes are of terms its disk knows, and
  the vote of its disk's term is on the disk, unless it won that term; outside an election the disk agrees
  with the memory; during one, the counted votes are votes of other servers.
\<close>

definition election_inv :: "nat \<Rightarrow> (nat \<times> int \<times> nat) set \<Rightarrow> nat \<Rightarrow> 'c Raft \<Rightarrow> election \<Rightarrow> bool" where
  "election_inv n V v rf el \<longleftrightarrow>
     (case el of (args, count, A) \<Rightarrow>
        v < n \<and> role rf \<noteq> Leader \<and> dterm rf < rva_Term args \<and> rva_Term args \<le> currentTerm rf \<and>
        votedFor rf = int v \<and> rva_CandidateId args = int v \<and> v \<notin> A \<and> A \<subseteq> {0..<n} \<and>
        (\<exists>G \<subseteq> A. count = 1 + int (card G) \<and> (\<forall>j \<in> G. (j, rva_Term args, v) \<in> V)))"

definition idle_inv :: "(nat \<times> int \<times> nat) set \<Rightarrow> nat \<Rightarrow> 'c Raft \<Rightarrow> bool" where
  "idle_inv V v rf \<longleftrightarrow>
     dterm rf = currentTerm rf \<and> dvote rf = votedFor rf \<and>
     (\<forall>c. (v, currentTerm rf, c) \<in> V \<longrightarrow> votedFor rf = int c \<or> role rf = Leader)"

definition node_inv :: "nat \<Rightarrow> (nat \<times> int \<times> nat) set \<Rightarrow> (nat \<times> int) set \<Rightarrow> nat
    \<Rightarrow> 'c Raft \<Rightarrow> election option \<Rightarrow> bool" where
  "node_inv n V W v rf el \<longleftrightarrow>
     me rf = int v \<and> peers rf = n \<and>
     (\<forall>t c. (v, t, c) \<in> V \<longrightarrow> t \<le> dterm rf) \<and>
     (\<forall>c. (v, dterm rf, c) \<in> V \<longrightarrow> dvote rf = int c \<or> (v, dterm rf) \<in> W) \<and>
     (role rf = Leader \<longrightarrow> (v, currentTerm rf) \<in> W) \<and>
     (case el of None \<Rightarrow> idle_inv V v rf | Some e \<Rightarrow> election_inv n V v rf e)"

text \<open>All servers, the messages and the wins.\<close>

definition votes_inv :: "(nat \<times> int \<times> nat) set \<Rightarrow> bool" where
  "votes_inv V \<longleftrightarrow> (\<forall>v t c d. (v, t, c) \<in> V \<longrightarrow> (v, t, d) \<in> V \<longrightarrow> c = d)"

definition won_inv :: "nat \<Rightarrow> (nat \<times> int \<times> nat) set \<Rightarrow> (nat \<times> int) set \<Rightarrow> bool" where
  "won_inv n V W \<longleftrightarrow>
     (\<forall>(i, t) \<in> W. \<exists>Q. majority n Q \<and> (\<forall>j \<in> Q. (j, t, i) \<in> V))"

definition reqs_inv :: "nat \<Rightarrow> 'c Cluster \<Rightarrow> bool" where
  "reqs_inv n s \<longleftrightarrow>
     (\<forall>(i, j, args) \<in> voteReqs s. i < n \<and> j < n \<and> i \<noteq> j \<and> rva_CandidateId args = int i) \<and>
     (\<forall>(i, j, args, reply) \<in> voteResps s. i < n \<and> j < n \<and> i \<noteq> j \<and>
        (rvr_VoteGranted reply \<longrightarrow> (j, rva_Term args, i) \<in> votes s))"

definition cluster_inv :: "nat \<Rightarrow> 'c Cluster \<Rightarrow> bool" where
  "cluster_inv n s \<longleftrightarrow>
     (\<forall>v. node_inv n (votes s) (won s) v (nodes s v) (electing s v)) \<and>
     (\<forall>v. lost s v \<longrightarrow> role (nodes s v) \<noteq> Leader) \<and>
     votes_inv (votes s) \<and> won_inv n (votes s) (won s) \<and> reqs_inv n s"

lemmas node_invs = node_inv_def idle_inv_def election_inv_def

subsection \<open>One server\<close>

lemma node_inv_electionE:
  assumes "node_inv n V W v rf (Some (args, count, A))"
  obtains G where "G \<subseteq> A" "count = 1 + int (card G)" "\<forall>j \<in> G. (j, rva_Term args, v) \<in> V"
    "A \<subseteq> {0..<n}" "v \<notin> A" "v < n" "role rf \<noteq> Leader" "dterm rf < rva_Term args"
    "rva_Term args \<le> currentTerm rf" "votedFor rf = int v" "rva_CandidateId args = int v"
  using assms unfolding node_inv_def election_inv_def by (simp, blast)

text \<open>What happens elsewhere cannot break a server's part.\<close>

lemma node_inv_mono:
  assumes "node_inv n V W v rf el" "V \<subseteq> V'" "W \<subseteq> W'"
    and "\<And>t c. (v, t, c) \<in> V' \<Longrightarrow> (v, t, c) \<in> V"
  shows "node_inv n V' W' v rf el"
proof (cases el)
  case None
  have "(v, t, c) \<in> V' \<longleftrightarrow> (v, t, c) \<in> V" for t c using assms(2,4) by blast
  with assms(1,3) None show ?thesis by (auto simp: node_invs)
next
  case (Some e)
  obtain args count A where e: "e = (args, count, A)" by (cases e)
  from assms(1) Some e obtain G where
    "G \<subseteq> A" "count = 1 + int (card G)" "\<forall>j \<in> G. (j, rva_Term args, v) \<in> V"
    by (auto elim: node_inv_electionE)
  with assms(2) have "\<exists>G \<subseteq> A. count = 1 + int (card G) \<and> (\<forall>j \<in> G. (j, rva_Term args, v) \<in> V')"
    by blast
  moreover have "(v, t, c) \<in> V' \<longleftrightarrow> (v, t, c) \<in> V" for t c using assms(2,4) by blast
  ultimately show ?thesis
    using assms(1,3) Some e by (auto simp: node_inv_def election_inv_def)
qed

text \<open>
  A critical section that writes the disk, keeps the vote and may move to a later term: AppendEntries,
  the end of a heartbeat, \<open>Start\<close>.
\<close>

lemma node_inv_raise:
  assumes inv: "node_inv n V W v rf None"
    and rf': "me rf' = me rf" "peers rf' = peers rf" "votedFor rf' = votedFor rf"
      "durable (persister rf') = persistent rf'"
      "currentTerm rf' = max (currentTerm rf) t"
      "role rf' = (if currentTerm rf < t then Follower else role rf)"
  shows "node_inv n V W v rf' None"
proof -
  have d: "dterm rf' = currentTerm rf'" "dvote rf' = votedFor rf'"
    by (simp_all add: dterm_def dvote_def rf'(4) persistent_def)
  show ?thesis
  proof (cases "currentTerm rf < t")
    case True
    then have new: "(v, t, c) \<notin> V" for c
      using inv by (auto simp: node_invs dest!: spec)
    with True inv show ?thesis
      by (auto simp: node_invs d rf')
  next
    case False
    with inv show ?thesis by (auto simp: node_invs d rf')
  qed
qed

text \<open>A critical section that leaves disk, term and vote alone and does not make a leader.\<close>

lemma node_inv_keep:
  assumes "node_inv n V W v rf el"
    and "me rf' = me rf" "peers rf' = peers rf" "votedFor rf' = votedFor rf"
      "persister rf' = persister rf" "currentTerm rf' = currentTerm rf" "role rf' = role rf"
  shows "node_inv n V W v rf' el"
  using assms by (auto simp: node_invs dterm_def dvote_def split: option.splits)

lemma node_inv_unlead:
  assumes "node_inv n V W v rf None" "role rf \<noteq> Leader"
    and "me rf' = me rf" "peers rf' = peers rf" "votedFor rf' = votedFor rf"
      "persister rf' = persister rf" "currentTerm rf' = currentTerm rf" "role rf' = Follower"
  shows "node_inv n V W v rf' None"
  using assms by (auto simp: node_invs dterm_def dvote_def)

text \<open>The RequestVote handler, with the vote it may give.\<close>

lemma node_inv_vote:
  assumes inv: "node_inv n V W v rf None"
    and run: "RequestVote env args rf = Inr (rf', reply)"
    and c: "rva_CandidateId args = int c"
    and V': "V' = (if rvr_VoteGranted reply then insert (v, rva_Term args, c) V else V)"
  shows "node_inv n V' W v rf' None"
proof -
  note r = RequestVote_Inr [OF run]
  have d: "dterm rf' = currentTerm rf'" "dvote rf' = votedFor rf'"
    by (simp_all add: dterm_def dvote_def r(13) persistent_def)
  have old: "t \<le> currentTerm rf" if "(v, t, e) \<in> V" for t e
    using inv that by (auto simp: node_invs)
  show ?thesis
  proof (cases "grants args rf")
    case True
    have "(v, rva_Term args, e) \<in> V \<Longrightarrow> e = c" for e
      using inv True old [of "rva_Term args" e] c by (auto simp: node_invs grants_def)
    moreover have "currentTerm rf \<le> rva_Term args"
      using True by (auto simp: grants_def)
    ultimately show ?thesis
      using True inv old by (force simp: node_invs d r V' c)
  next
    case False
    show ?thesis
    proof (cases "currentTerm rf < rva_Term args")
      case True
      with old have "(v, rva_Term args, e) \<notin> V" for e by (meson not_less)
      with False True inv old show ?thesis by (force simp: node_invs d r V')
    next
      case le: False
      with False inv show ?thesis by (auto simp: node_invs d r V' max_def)
    qed
  qed
qed

lemma vote_is_new:
  assumes "node_inv n V W v rf None" "votes_inv V" "grants args rf"
    and "rva_CandidateId args = int c"
  shows "votes_inv (insert (v, rva_Term args, c) V)"
proof -
  have "e = c" if "(v, rva_Term args, e) \<in> V" for e
  proof -
    from assms(1) that have "rva_Term args \<le> currentTerm rf" by (auto simp: node_invs)
    with assms(1,3,4) that show ?thesis by (auto simp: node_invs grants_def)
  qed
  with assms(2) show ?thesis by (auto simp: votes_inv_def)
qed

text \<open>The three phases of an election.\<close>

lemma node_inv_elect_start:
  assumes inv: "node_inv n V W v rf None" and v: "v < n"
    and run: "rbind (resetElectionTimer env rf) (electionBegin env) = Inr (rf', args)"
  shows "node_inv n V W v rf' (Some (args, 1, {}))" "rva_CandidateId args = int v"
proof -
  have "electionBegin env (rf\<lparr>electionTimer := rearmed env (electionTimer rf)\<rparr>) = Inr (rf', args)"
    using run by (simp del: rbind_Inr_iff)
  note f = electionBegin_fields [OF this, simplified]
  have "dterm rf' = dterm rf" "dvote rf' = dvote rf" by (simp_all add: dterm_def dvote_def f(4))
  with f inv v show "node_inv n V W v rf' (Some (args, 1, {}))" by (auto simp: node_invs)
  from f inv show "rva_CandidateId args = int v" by (simp add: node_inv_def)
qed

lemma node_inv_vote_reply:
  assumes inv: "node_inv n V W v rf (Some (args, count, A))"
    and run: "electionReply env args (Some reply) (rf, count) = Inr (rf', count')"
    and j: "j \<notin> A" "j < n" "j \<noteq> v" "rvr_VoteGranted reply \<Longrightarrow> (j, rva_Term args, v) \<in> V"
  shows "node_inv n V W v rf' (Some (args, count', insert j A))"
proof -
  obtain G where G: "G \<subseteq> A" "count = 1 + int (card G)"
    "\<forall>j \<in> G. (j, rva_Term args, v) \<in> V" and A: "A \<subseteq> {0..<n}"
    using inv by (rule node_inv_electionE)
  let ?G = "if rvr_VoteGranted reply then insert j G else G"
  have "finite G" using G(1) A by (meson finite_atLeastLessThan finite_subset)
  moreover have "j \<notin> G" using G(1) j(1) by blast
  ultimately have c: "count' = 1 + int (card ?G)"
    using electionReply_cases [OF run] G(2) by auto
  have "?G \<subseteq> insert j A" "\<forall>k \<in> ?G. (k, rva_Term args, v) \<in> V"
    using G j(4) by auto
  with c have ex: "\<exists>G \<subseteq> insert j A. count' = 1 + int (card G) \<and> (\<forall>j \<in> G. (j, rva_Term args, v) \<in> V)"
    by blast
  have f: "persister rf' = persister rf" "me rf' = me rf" "peers rf' = peers rf"
    "votedFor rf' = votedFor rf" "role rf' = role rf \<or> role rf' = Follower"
    "rva_Term args \<le> currentTerm rf \<Longrightarrow> rva_Term args \<le> currentTerm rf'"
    using electionReply_cases [OF run] by (auto split: if_splits)
  then have "dterm rf' = dterm rf" "dvote rf' = dvote rf" by (simp_all add: dterm_def dvote_def)
  with f inv j(2,3) ex show ?thesis by (auto simp: node_inv_def election_inv_def)
qed

lemma electionEnd_fields:
  assumes "electionEnd env count rf = Inr (rf', succ)"
  shows "succ \<longleftrightarrow> count > int (peers rf div 2)" "currentTerm rf' = currentTerm rf"
    "me rf' = me rf" "peers rf' = peers rf"
    "durable (persister rf') = persistent rf'"
    "succ \<Longrightarrow> role rf' = Leader \<and> votedFor rf' = -1"
    "\<not> succ \<Longrightarrow> role rf' = role rf \<and> votedFor rf' = votedFor rf"
proof -
  show iff: "succ \<longleftrightarrow> count > int (peers rf div 2)"
    using assms by (auto simp: electionEnd_def split: if_splits)
  have "(\<exists>rf1. succ \<and> changeRole env Leader rf = Inr rf1 \<and> rf' = persist rf1) \<or>
        \<not> succ \<and> rf' = persist rf"
    using assms by (auto simp: electionEnd_def split: if_splits)
  then show "currentTerm rf' = currentTerm rf" "me rf' = me rf" "peers rf' = peers rf"
    "durable (persister rf') = persistent rf'"
    "succ \<Longrightarrow> role rf' = Leader \<and> votedFor rf' = -1"
    "\<not> succ \<Longrightarrow> role rf' = role rf \<and> votedFor rf' = votedFor rf"
    by (auto simp: persistent_def dest: changeRole_Leader_fields)
qed

lemma node_inv_elect_end:
  assumes inv: "node_inv n V W v rf (Some (args, count, A))"
    and run: "electionEnd env count rf = Inr (rf', succ)"
    and ok: "succ \<Longrightarrow> currentTerm rf = rva_Term args"
    and W': "W' = (if succ then insert (v, currentTerm rf') W else W)"
  shows "node_inv n (insert (v, rva_Term args, v) V) W' v rf' None"
proof -
  note f = electionEnd_fields [OF run]
  have d: "dterm rf' = currentTerm rf'" "dvote rf' = votedFor rf'"
    by (simp_all add: dterm_def dvote_def f(5) persistent_def)
  have "(v, t, c) \<in> V \<Longrightarrow> t < rva_Term args" for t c
    using inv by (auto simp: node_invs)
  moreover have "rva_Term args \<le> currentTerm rf" "role rf \<noteq> Leader" "votedFor rf = int v"
    "me rf = int v" "peers rf = n"
    using inv by (auto simp: node_invs)
  ultimately show ?thesis
    using ok f(2-4,6,7) by (cases succ) (force simp: node_invs d W')+
qed

lemma election_majority:
  assumes "node_inv n V W v rf (Some (args, count, A))" "count > int (n div 2)"
  shows "\<exists>Q. majority n Q \<and> (\<forall>j \<in> Q. (j, rva_Term args, v) \<in> insert (v, rva_Term args, v) V)"
proof -
  obtain G where G: "G \<subseteq> A" "count = 1 + int (card G)"
    "\<forall>j \<in> G. (j, rva_Term args, v) \<in> V" and A: "A \<subseteq> {0..<n}" "v \<notin> A" "v < n"
    using assms(1) by (rule node_inv_electionE)
  have "finite G" using G(1) A(1) by (meson finite_atLeastLessThan finite_subset)
  with G A have "card (insert v G) = Suc (card G)" by (auto simp: card_insert_if)
  with assms(2) G A have "majority n (insert v G)" by (auto simp: majority_def)
  with G(3) show ?thesis by blast
qed

text \<open>A restart in a term the server has not won.\<close>

lemma node_inv_restart:
  assumes inv: "node_inv n V W v rf el"
    and run: "Make env n (int v) (Copy (persister rf)) = Inr rf'"
    and ok: "(v, dterm rf) \<notin> W"
  shows "node_inv n V W v rf' None"
proof -
  note m = Make_persistent [OF run]
  have "currentTerm rf' = dterm rf" "votedFor rf' = dvote rf" "dterm rf' = dterm rf"
    "dvote rf' = dvote rf"
    using m by (simp_all add: dterm_def dvote_def)
  with inv ok m(4-6) show ?thesis by (auto simp: node_inv_def idle_inv_def)
qed

subsection \<open>The cluster\<close>

text \<open>A step of server \<open>i\<close>: what is left to show is its own part.\<close>

lemma cluster_inv_update:
  assumes inv: "cluster_inv n s"
    and t: "nodes t = (nodes s)(i := rf)" "electing t = (electing s)(i := el)"
      "\<And>v. v \<noteq> i \<Longrightarrow> lost t v = lost s v"
    and node: "node_inv n (votes t) (won t) i rf el" "lost t i \<Longrightarrow> role rf \<noteq> Leader"
    and grow: "votes s \<subseteq> votes t" "won s \<subseteq> won t"
      "\<And>v u c. v \<noteq> i \<Longrightarrow> (v, u, c) \<in> votes t \<Longrightarrow> (v, u, c) \<in> votes s"
    and glob: "votes_inv (votes t)" "won_inv n (votes t) (won t)" "reqs_inv n t"
  shows "cluster_inv n t"
proof -
  have "node_inv n (votes t) (won t) v (nodes t v) (electing t v)" for v
  proof (cases "v = i")
    case True
    with node t show ?thesis by simp
  next
    case False
    have "node_inv n (votes s) (won s) v (nodes s v) (electing s v)"
      using inv by (simp add: cluster_inv_def)
    then show ?thesis
      using False grow t by (auto intro: node_inv_mono)
  qed
  moreover have "lost t v \<Longrightarrow> role (nodes t v) \<noteq> Leader" for v
    using inv node(2) t by (cases "v = i") (auto simp: cluster_inv_def)
  ultimately show ?thesis using glob by (simp add: cluster_inv_def)
qed

text \<open>The same for a step that gives no vote and sends no vote message.\<close>

lemma cluster_inv_local:
  assumes "cluster_inv n s"
    and "nodes t = (nodes s)(i := rf)" "electing t = (electing s)(i := el)"
      "\<And>v. v \<noteq> i \<Longrightarrow> lost t v = lost s v"
    and "votes t = votes s" "won t = won s" "voteReqs t = voteReqs s" "voteResps t = voteResps s"
    and "node_inv n (votes s) (won s) i rf el" "lost t i \<Longrightarrow> role rf \<noteq> Leader"
  shows "cluster_inv n t"
  by (rule cluster_inv_update [OF assms(1-4)])
     (use assms in \<open>auto simp: cluster_inv_def reqs_inv_def\<close>)

lemma won_inv_mono: "won_inv n V W \<Longrightarrow> V \<subseteq> V' \<Longrightarrow> won_inv n V' W"
  by (fastforce simp: won_inv_def)

lemma won_inv_insert:
  "won_inv n V W \<Longrightarrow> \<exists>Q. majority n Q \<and> (\<forall>j \<in> Q. (j, t, i) \<in> V) \<Longrightarrow>
   won_inv n V (insert (i, t) W)"
  by (auto simp: won_inv_def)

lemma won_invD:
  "won_inv n V W \<Longrightarrow> (i, t) \<in> W \<Longrightarrow> \<exists>Q. majority n Q \<and> (\<forall>j \<in> Q. (j, t, i) \<in> V)"
  by (auto simp: won_inv_def)

lemma cluster_inv_node: "cluster_inv n s \<Longrightarrow> node_inv n (votes s) (won s) i (nodes s i) (electing s i)"
  by (simp add: cluster_inv_def)

lemma cluster_inv_unlocked:
  "cluster_inv n s \<Longrightarrow> unlocked s i \<Longrightarrow> node_inv n (votes s) (won s) i (nodes s i) None"
  using cluster_inv_node [of n s i] by (simp add: unlocked_def)

lemma cluster_inv_init: "cluster_init n s \<Longrightarrow> cluster_inv n s"
proof -
  assume init: "cluster_init n s"
  have "node_inv n {} {} v (nodes s v) None" for v
  proof -
    from init obtain env where "Make env n (int v) MakePersister = Inr (nodes s v)"
      unfolding cluster_init_def by blast
    note m = Make_persistent [OF this]
    have "durable (MakePersister :: 'a gobval Persister) = (0, -1, [])"
      by (simp add: durable_def MakePersister_def ReadRaftState_def readPersist_def newRaft_def)
    with m show ?thesis by (simp add: node_inv_def idle_inv_def dterm_def dvote_def)
  qed
  with init show ?thesis
    by (simp add: cluster_init_def cluster_inv_def votes_inv_def won_inv_def reqs_inv_def)
qed

lemma inv_elect_start:
  assumes inv: "cluster_inv n s" and "i < n" "unlocked s i" "\<not> lost s i"
    and run: "rbind (resetElectionTimer env (nodes s i)) (electionBegin env) = Inr (rf, args)"
  shows "cluster_inv n ((set_node i rf s)\<lparr>electing := (electing s)(i := Some (args, 1, {})),
           voteReqs := voteReqs s \<union> voteRequests n i args\<rparr>)"
proof -
  note el = node_inv_elect_start [OF cluster_inv_unlocked [OF inv assms(3)] assms(2) run]
  show ?thesis
    using inv assms(2,4) el
    by (intro cluster_inv_update [OF inv])
       (auto simp: cluster_inv_def reqs_inv_def voteRequests_def)
qed

lemma inv_vote_handle:
  assumes inv: "cluster_inv n s" and req: "(i, j, args) \<in> voteReqs s" "unlocked s j"
    and run: "RequestVote env args (nodes s j) = Inr (rf, reply)"
  shows "cluster_inv n ((set_node j rf s)\<lparr>voteResps := insert (i, j, args, reply) (voteResps s),
           votes := (if rvr_VoteGranted reply
                     then insert (j, rva_Term args, nat (rva_CandidateId args)) (votes s)
                     else votes s)\<rparr>)"
proof -
  note node = cluster_inv_unlocked [OF inv req(2)]
  have r: "i < n" "j < n" "i \<noteq> j" "rva_CandidateId args = int i"
    using inv req(1) by (auto simp: cluster_inv_def reqs_inv_def)
  let ?V = "if rvr_VoteGranted reply then insert (j, rva_Term args, i) (votes s) else votes s"
  have "node_inv n ?V (won s) j rf None"
    by (rule node_inv_vote [OF node run r(4) refl])
  moreover have "votes_inv ?V"
    using vote_is_new [OF node _ _ r(4)] inv RequestVote_Inr(2) [OF run]
    by (auto simp: cluster_inv_def)
  moreover have "won_inv n ?V (won s)"
    using inv by (auto simp: cluster_inv_def elim: won_inv_mono)
  moreover have "lost s j \<Longrightarrow> role rf \<noteq> Leader"
    using inv RequestVote_Inr(5) [OF run] by (auto simp: cluster_inv_def)
  moreover have "electing s j = None" using req(2) by (simp add: unlocked_def)
  ultimately show ?thesis
    using inv r
    by (intro cluster_inv_update [OF inv, of _ j rf None])
       (auto simp: cluster_inv_def reqs_inv_def split: if_splits)
qed

lemma inv_vote_reply:
  assumes inv: "cluster_inv n s" and el: "electing s i = Some (args, count, A)"
    and resp: "(i, j, args, reply) \<in> voteResps s" "j \<notin> A"
    and run: "electionReply env args (Some reply) (nodes s i, count) = Inr (rf, count')"
  shows "cluster_inv n
           ((set_node i rf s)\<lparr>electing := (electing s)(i := Some (args, count', insert j A))\<rparr>)"
proof -
  have node: "node_inv n (votes s) (won s) i (nodes s i) (Some (args, count, A))"
    using cluster_inv_node [OF inv, of i] el by simp
  have r: "j < n" "j \<noteq> i" "rvr_VoteGranted reply \<Longrightarrow> (j, rva_Term args, i) \<in> votes s"
    using inv resp(1) by (auto simp: cluster_inv_def reqs_inv_def)
  have "node_inv n (votes s) (won s) i rf (Some (args, count', insert j A))"
    by (rule node_inv_vote_reply [OF node run resp(2) r])
  moreover from this have "role rf \<noteq> Leader" by (simp add: node_inv_def election_inv_def)
  ultimately show ?thesis
    by (intro cluster_inv_local [OF inv, of _ i rf "Some (args, count', insert j A)"]) auto
qed

lemma inv_elect_end:
  assumes inv: "cluster_inv n s" and el: "electing s i = Some (args, count, A)"
    and run: "electionEnd env count (nodes s i) = Inr (rf, succ)"
    and ok: "benign s (ElectEnd i)"
  shows "cluster_inv n ((set_node i rf s)\<lparr>electing := (electing s)(i := None),
          lost := (lost s)(i := \<not> succ),
          votes := insert (i, rva_Term args, i) (votes s),
          won := (if succ then insert (i, currentTerm rf) (won s) else won s)\<rparr>)"
proof -
  note f = electionEnd_fields [OF run]
  have node: "node_inv n (votes s) (won s) i (nodes s i) (Some (args, count, A))"
    using cluster_inv_node [OF inv, of i] el by simp
  then have n: "peers (nodes s i) = n" by (simp add: node_inv_def)
  have t: "succ \<Longrightarrow> currentTerm (nodes s i) = rva_Term args" using ok el f(1) by simp
  let ?V = "insert (i, rva_Term args, i) (votes s)"
  let ?W = "if succ then insert (i, currentTerm rf) (won s) else won s"
  have node': "node_inv n ?V ?W i rf None"
    by (rule node_inv_elect_end [OF node run t refl])
  have "(i, rva_Term args, c) \<notin> votes s" for c
    using node by (auto simp: node_inv_def election_inv_def dest!: spec)
  then have "votes_inv ?V" using inv by (auto simp: cluster_inv_def votes_inv_def)
  moreover have "won_inv n ?V (won s)"
    using inv by (auto simp: cluster_inv_def elim: won_inv_mono)
  then have "won_inv n ?V ?W"
    using election_majority [OF node] f(1,2) t n by (auto intro: won_inv_insert)
  moreover have "\<not> succ \<Longrightarrow> role rf \<noteq> Leader"
    using f(7) node by (auto simp: node_inv_def election_inv_def)
  ultimately show ?thesis
    using inv node'
    by (intro cluster_inv_update [OF inv, of _ i rf None])
       (auto simp: cluster_inv_def reqs_inv_def)
qed

text \<open>The steps that only move one server within its term, or to a later one.\<close>

lemma inv_raise:
  assumes inv: "cluster_inv n s" and el: "electing s i = None"
    and rf: "me rf = me (nodes s i)" "peers rf = peers (nodes s i)"
      "votedFor rf = votedFor (nodes s i)" "durable (persister rf) = persistent rf"
      "currentTerm rf = max (currentTerm (nodes s i)) u"
      "role rf = (if currentTerm (nodes s i) < u then Follower else role (nodes s i))"
    and t: "nodes t = (nodes s)(i := rf)" "electing t = electing s" "lost t = lost s"
      "votes t = votes s" "won t = won s" "voteReqs t = voteReqs s" "voteResps t = voteResps s"
  shows "cluster_inv n t"
proof -
  have "node_inv n (votes s) (won s) i (nodes s i) None"
    using cluster_inv_node [OF inv, of i] el by simp
  from node_inv_raise [OF this rf] have "node_inv n (votes s) (won s) i rf None" .
  moreover have "lost s i \<Longrightarrow> role rf \<noteq> Leader"
    using inv rf(6) by (auto simp: cluster_inv_def)
  ultimately show ?thesis
    by (intro cluster_inv_local [OF inv t(1), of None]) (simp_all add: t el fun_upd_idem)
qed

lemma inv_app_handle:
  assumes "cluster_inv n s" "unlocked s j" "AppendEntries env args (nodes s j) = Inr (rf, reply)"
  shows "cluster_inv n ((set_node j rf s)\<lparr>appResps := insert (i, j, args, reply) (appResps s)\<rparr>)"
  by (rule inv_raise [OF assms(1), of j rf "ae_Term args"])
     (use assms(2) in \<open>simp_all add: unlocked_def AppendEntries_frame [OF assms(3)]
        AppendEntries_term [OF assms(3)]\<close>)

lemma inv_beat_end:
  assumes "cluster_inv n s" "electing s i = None"
    and "heartbeatEnd env j args reply (nodes s i) = Inr rf"
  shows "cluster_inv n ((set_node i rf s)\<lparr>beating := (beating s)(i := None)\<rparr>)"
  by (rule inv_raise [OF assms(1,2), of rf "aer_Term reply"])
     (simp_all add: heartbeatEnd_frame [OF assms(3)] heartbeatEnd_term [OF assms(3)])

lemma StartLocked_frame:
  assumes "StartLocked t isLeader c rf = Inr (rf', res)"
  shows "me rf' = me rf" "peers rf' = peers rf" "votedFor rf' = votedFor rf"
    "currentTerm rf' = currentTerm rf" "role rf' = role rf"
    "durable (persister rf') = persistent rf' \<or> rf' = rf"
  using StartLocked_Inr [OF assms] by (auto simp: persistent_def)

lemma inv_keep:
  assumes inv: "cluster_inv n s" and el: "electing s i = None"
    and rf: "me rf = me (nodes s i)" "peers rf = peers (nodes s i)"
      "votedFor rf = votedFor (nodes s i)" "currentTerm rf = currentTerm (nodes s i)"
      "role rf = role (nodes s i)"
      "durable (persister rf) = persistent rf \<or> persister rf = persister (nodes s i)"
    and t: "nodes t = (nodes s)(i := rf)" "electing t = electing s" "lost t = lost s"
      "votes t = votes s" "won t = won s" "voteReqs t = voteReqs s" "voteResps t = voteResps s"
  shows "cluster_inv n t"
  using rf(6)
proof
  assume "durable (persister rf) = persistent rf"
  then show ?thesis
    by (intro inv_raise [OF inv el rf(1-3) _ _ _ t, of "currentTerm (nodes s i)"])
       (simp_all add: rf(4,5))
next
  assume p: "persister rf = persister (nodes s i)"
  have "node_inv n (votes s) (won s) i (nodes s i) None"
    using cluster_inv_node [OF inv, of i] el by simp
  from node_inv_keep [OF this rf(1-3) p rf(4,5)]
  show ?thesis
    using inv
    by (intro cluster_inv_local [OF inv t(1), of None])
       (simp_all add: t rf(5) el fun_upd_idem cluster_inv_def)
qed

lemma inv_elect_failed:
  assumes inv: "cluster_inv n s" and "lost s i" "unlocked s i"
    and "electionFailed env (nodes s i) = Inr rf"
  shows "cluster_inv n ((set_node i rf s)\<lparr>lost := (lost s)(i := False)\<rparr>)"
proof -
  have rf: "me rf = me (nodes s i)" "peers rf = peers (nodes s i)"
    "votedFor rf = votedFor (nodes s i)" "persister rf = persister (nodes s i)"
    "currentTerm rf = currentTerm (nodes s i)" "role rf = Follower"
    using assms(4) by (auto simp: electionFailed_def)
  have "role (nodes s i) \<noteq> Leader" using inv assms(2) by (simp add: cluster_inv_def)
  from node_inv_unlead [OF cluster_inv_unlocked [OF inv assms(3)] this rf]
  show ?thesis
    using assms(3) rf(6)
    by (intro cluster_inv_local [OF inv, of _ i rf None]) (auto simp: unlocked_def)
qed

lemma inv_restart:
  assumes inv: "cluster_inv n s" and "i < n"
    and run: "Make env n (int i) (Copy (persister (nodes s i))) = Inr rf"
    and ok: "benign s (Restart i)"
  shows "cluster_inv n ((set_node i rf s)\<lparr>electing := (electing s)(i := None),
          lost := (lost s)(i := False), beats := (beats s)(i := []),
          beating := (beating s)(i := None), starting := (starting s)(i := [])\<rparr>)"
proof -
  have "node_inv n (votes s) (won s) i rf None"
    using ok by (intro node_inv_restart [OF cluster_inv_node [OF inv] run]) simp
  then show ?thesis
    by (intro cluster_inv_local [OF inv, of _ i rf None]) auto
qed

lemma inv_nodes_same:
  assumes "cluster_inv n s" "nodes t = nodes s" "electing t = electing s" "lost t = lost s"
    "votes t = votes s" "won t = won s" "voteReqs t = voteReqs s" "voteResps t = voteResps s"
  shows "cluster_inv n t"
  using assms by (simp add: cluster_inv_def reqs_inv_def)

lemma applyRound_frame:
  assumes "applyRound rf = Inr rf'"
  shows "me rf' = me rf" "peers rf' = peers rf" "votedFor rf' = votedFor rf"
    "currentTerm rf' = currentTerm rf" "role rf' = role rf" "persister rf' = persister rf"
    "logEntries rf' = logEntries rf" "commitIndex rf' = commitIndex rf"
    "nextIndex rf' = nextIndex rf" "matchIndex rf' = matchIndex rf" "lastApplied rf \<le> lastApplied rf'"
  using assms by (auto simp: applyRound_def Let_def split: if_splits)

definition beating_idle :: "'c Cluster \<Rightarrow> bool" where
  "beating_idle s \<longleftrightarrow> (\<forall>i. electing s i \<noteq> None \<longrightarrow> beating s i = None)"

definition election_system_inv :: "nat \<Rightarrow> 'c Cluster \<Rightarrow> bool" where
  "election_system_inv n s \<longleftrightarrow> cluster_inv n s \<and> beating_idle s"

lemma beating_idle_step: "cstep n s e t \<Longrightarrow> beating_idle s \<Longrightarrow> beating_idle t"
  by (erule cstep.cases) (auto simp: beating_idle_def unlocked_def)

lemma benign_step_inv:
  assumes "election_system_inv n s" "benign_step n s e t"
  shows "election_system_inv n t"
proof -
  have inv: "cluster_inv n s" "beating_idle s" and st: "cstep n s e t" and ok: "benign s e"
    using assms by (auto simp: election_system_inv_def benign_step_def)
  from st have "cluster_inv n t"
  proof cases
    case elect_start
    show ?thesis unfolding elect_start(2) by (rule inv_elect_start [OF inv(1)]) (use elect_start in auto)
  next
    case elect_refused
    with ok show ?thesis by simp
  next
    case vote_handle
    show ?thesis unfolding vote_handle(2) by (rule inv_vote_handle [OF inv(1)]) (use vote_handle in auto)
  next
    case vote_reply
    show ?thesis unfolding vote_reply(2) by (rule inv_vote_reply [OF inv(1)]) (use vote_reply in auto)
  next
    case elect_end
    show ?thesis
      unfolding elect_end(2) by (rule inv_elect_end [OF inv(1) elect_end(3,4)]) (use ok elect_end(1) in simp)
  next
    case elect_failed
    show ?thesis unfolding elect_failed(2) by (rule inv_elect_failed [OF inv(1)]) (use elect_failed in auto)
  next
    case (beat_self i env rf)
    then have "me (nodes s i) = int i" using cluster_inv_node [OF inv(1), of i]
      by (simp add: node_inv_def)
    with beat_self have "rf = persist ((nodes s i)\<lparr>electionTimer := rearmed env (electionTimer (nodes s i))\<rparr>)"
      using SendHeartbeat_self [of env "nodes s i" "\<lambda>_. None"] by simp
    with beat_self show ?thesis
      by (intro inv_keep [OF inv(1), of i rf]) (auto simp: unlocked_def persistent_def)
  next
    case app_handle
    show ?thesis unfolding app_handle(2) by (rule inv_app_handle [OF inv(1)]) (use app_handle in auto)
  next
    case (beat_end i j args reply env rf)
    then have "electing s i = None"
      using inv(2) unfolding beating_idle_def by (metis option.distinct(1))
    from inv_beat_end [OF inv(1) this beat_end(5)] show ?thesis unfolding beat_end(2) .
  next
    case (start_work u isLeader c i rf res)
    with StartLocked_frame [of u isLeader c "nodes s i" rf res] show ?thesis
      by (intro inv_keep [OF inv(1), of i rf]) (auto simp: unlocked_def)
  next
    case (deliver i rf)
    with applyRound_frame [of "nodes s i" rf] show ?thesis
      by (intro inv_keep [OF inv(1), of i rf]) (auto simp: unlocked_def)
  next
    case restart
    show ?thesis
      unfolding restart(2) by (rule inv_restart [OF inv(1) restart(3,4)]) (use ok restart(1) in simp)
  qed (auto intro: inv_nodes_same [OF inv(1)])
  with beating_idle_step [OF st] inv(2) show ?thesis by (simp add: election_system_inv_def)
qed

interpretation election:
  invariant_system "cluster_init n" "benign_step n" "election_system_inv n" for n
proof unfold_locales
  fix s :: "'a Cluster" assume "cluster_init n s"
  then show "election_system_inv n s"
    by (simp add: election_system_inv_def cluster_inv_init)
       (simp add: beating_idle_def cluster_init_def)
next
  fix s t :: "'a Cluster" and e
  assume "election_system_inv n s" "benign_step n s e t"
  then show "election_system_inv n t" by (rule benign_step_inv)
qed

lemma won_unique:
  assumes "benign_reach n s" "(i, t) \<in> won s" "(j, t) \<in> won s"
  shows "i = j"
proof -
  have inv: "votes_inv (votes s)" "won_inv n (votes s) (won s)"
    using election.reach_inv [OF assms(1)] by (auto simp: election_system_inv_def cluster_inv_def)
  obtain P where P: "majority n P" "\<forall>v \<in> P. (v, t, i) \<in> votes s"
    using won_invD [OF inv(2) assms(2)] by blast
  obtain Q where Q: "majority n Q" "\<forall>v \<in> Q. (v, t, j) \<in> votes s"
    using won_invD [OF inv(2) assms(3)] by blast
  show ?thesis
    by (rule maj.unique_winner [of "\<lambda>v c. (v, t, c) \<in> votes s" n P i Q j])
       (use inv(1) P Q in \<open>auto simp: votes_inv_def\<close>)
qed

lemma leader_won:
  assumes "benign_reach n s" "role (nodes s i) = Leader"
  shows "(i, currentTerm (nodes s i)) \<in> won s"
  using election.reach_inv [OF assms(1)] assms(2)
  by (auto simp: election_system_inv_def cluster_inv_def node_inv_def)

end
