(* ===== verification/Raft_Scenarios.thy ===== *)
theory Raft_Scenarios
  imports Raft_Cluster
begin

text \<open>
  The steps of the cluster as a function, so that a scenario (a list of events) can be run, and
  the scenarios in which the code of \<open>vote.go\<close> elects two leaders in one term.
\<close>

section \<open>Running a scenario\<close>

definition guard :: "bool \<Rightarrow> 'a option \<Rightarrow> 'a option" where
  "guard b x = (if b then x else None)"

fun ok :: "'a res \<Rightarrow> 'a option" where
  "ok (Inl e) = None"
| "ok (Inr x) = Some x"

fun cexec :: "nat \<Rightarrow> env \<Rightarrow> 'c Cluster \<Rightarrow> 'c event \<Rightarrow> 'c Cluster option" where
  "cexec n env s (ElectStart i) =
     guard (i < n \<and> unlocked s i \<and> \<not> lost s i \<and> role (nodes s i) \<noteq> Leader)
       (map_option (\<lambda>(rf, args).
          (set_node i rf s)\<lparr>electing := (electing s)(i := Some (args, 1, {})),
                           voteReqs := voteReqs s \<union> voteRequests n i args\<rparr>)
        (ok (rbind (resetElectionTimer env (nodes s i)) (electionBegin env))))"
| "cexec n env s (VoteHandle i j args) =
     guard ((i, j, args) \<in> voteReqs s \<and> unlocked s j)
       (map_option (\<lambda>(rf, reply).
          (set_node j rf s)\<lparr>voteResps := insert (i, j, args, reply) (voteResps s),
            votes := (if rvr_VoteGranted reply
                      then insert (j, rva_Term args, nat (rva_CandidateId args)) (votes s)
                      else votes s)\<rparr>)
        (ok (RequestVote env args (nodes s j))))"
| "cexec n env s (VoteReply i j reply) =
     (case electing s i of
        None \<Rightarrow> None
      | Some (args, count, A) \<Rightarrow>
          guard ((i, j, args, reply) \<in> voteResps s \<and> j \<notin> A)
            (map_option (\<lambda>(rf, count').
               (set_node i rf s)\<lparr>electing := (electing s)(i := Some (args, count', insert j A))\<rparr>)
             (ok (electionReply env args (Some reply) (nodes s i, count)))))"
| "cexec n env s (ElectEnd i) =
     (case electing s i of
        None \<Rightarrow> None
      | Some (args, count, A) \<Rightarrow>
          map_option (\<lambda>(rf, succ).
            (set_node i rf s)\<lparr>electing := (electing s)(i := None),
              lost := (lost s)(i := \<not> succ),
              votes := insert (i, rva_Term args, i) (votes s),
              won := (if succ then insert (i, currentTerm rf) (won s) else won s)\<rparr>)
          (ok (electionEnd env count (nodes s i))))"
| "cexec n env s (ElectFailed i) =
     guard (lost s i \<and> unlocked s i)
       (map_option (\<lambda>rf. (set_node i rf s)\<lparr>lost := (lost s)(i := False)\<rparr>)
        (ok (electionFailed env (nodes s i))))"
| "cexec n env s (Restart i) =
     guard (i < n)
       (map_option (\<lambda>rf.
          (set_node i rf s)\<lparr>electing := (electing s)(i := None), lost := (lost s)(i := False),
            beats := (beats s)(i := []), beating := (beating s)(i := None),
            starting := (starting s)(i := [])\<rparr>)
        (ok (Make env n (int i) (Copy (persister (nodes s i))))))"
| "cexec n env s (ElectRefused i) =
     guard (i < n \<and> unlocked s i \<and> \<not> lost s i \<and> role (nodes s i) = Leader)
       (map_option (\<lambda>(rf, succ). (set_node i rf s)\<lparr>lost := (lost s)(i := True)\<rparr>)
        (Option.bind (ok (startElection env [] (nodes s i)))
           (\<lambda>(rf, succ). guard (\<not> succ) (Some (rf, succ)))))"
| "cexec n env s (BeatStart i) =
     guard (i < n \<and> unlocked s i \<and> snd (GetState (nodes s i)))
       (Some (s\<lparr>beats := (beats s)(i := beats s i @ [0..<n])\<rparr>))"
| "cexec n env s (BeatSelf i) =
     guard (i \<in> set (beats s i) \<and> unlocked s i)
       (map_option (\<lambda>rf. (set_node i rf s)\<lparr>beats := (beats s)(i := remove1 i (beats s i))\<rparr>)
        (ok (SendHeartbeat env (int i) (\<lambda>_. None) (nodes s i))))"
| "cexec n env s (BeatSend i j) =
     guard (j \<in> set (beats s i) \<and> j \<noteq> i \<and> unlocked s i)
       (map_option (\<lambda>args.
          s\<lparr>beats := (beats s)(i := remove1 j (beats s i)),
            beating := (beating s)(i := Some (j, args)),
            appReqs := insert (i, j, args) (appReqs s)\<rparr>)
        (ok (heartbeatBegin (int j) (nodes s i))))"
| "cexec n env s (AppHandle i j args) =
     guard ((i, j, args) \<in> appReqs s \<and> unlocked s j)
       (map_option (\<lambda>(rf, reply).
          (set_node j rf s)\<lparr>appResps := insert (i, j, args, reply) (appResps s)\<rparr>)
        (ok (AppendEntries env args (nodes s j))))"
| "cexec n env s (BeatEnd i reply) =
     (case beating s i of
        None \<Rightarrow> None
      | Some (j, args) \<Rightarrow>
          guard (reply = zeroReply \<or> (i, j, args, reply) \<in> appResps s)
            (map_option (\<lambda>rf. (set_node i rf s)\<lparr>beating := (beating s)(i := None)\<rparr>)
             (ok (heartbeatEnd env (int j) args reply (nodes s i)))))"
| "cexec n env s (StartCheck i c) =
     guard (i < n \<and> unlocked s i)
       (let (t, isLeader) = GetState (nodes s i)
        in Some (s\<lparr>starting := (starting s)(i := (t, isLeader, c) # starting s i)\<rparr>))"
| "cexec n env s (StartWork i (t, isLeader, c)) =
     guard ((t, isLeader, c) \<in> set (starting s i) \<and> unlocked s i)
       (map_option (\<lambda>(rf, res).
          (set_node i rf s)
            \<lparr>starting := (starting s)(i := remove1 (t, isLeader, c) (starting s i))\<rparr>)
        (ok (StartLocked t isLeader c (nodes s i))))"
| "cexec n env s (Deliver i) =
     guard (i < n \<and> unlocked s i)
       (map_option (\<lambda>rf. set_node i rf s) (ok (applyRound (nodes s i))))"


lemma ok_Some [simp]: "ok m = Some x \<longleftrightarrow> m = Inr x"
  by (cases m) auto

lemma guard_Some [simp]: "guard b x = Some y \<longleftrightarrow> b \<and> x = Some y"
  by (simp add: guard_def)

text \<open>Every event that the function can execute is a step of the cluster.\<close>

lemma cexec_sound: "cexec n env s e = Some t \<Longrightarrow> cstep n s e t"
proof (induction n env s e rule: cexec.induct)
  case (1 n env s i)
  then show ?case by (auto simp del: rbind_Inr_iff intro!: cstep.elect_start)
next
  case (2 n env s i j args)
  then obtain rf reply where "RequestVote env args (nodes s j) = Inr (rf, reply)"
    "(i, j, args) \<in> voteReqs s" "unlocked s j" and t: "t = (set_node j rf s)
      \<lparr>voteResps := insert (i, j, args, reply) (voteResps s),
       votes := (if rvr_VoteGranted reply
                 then insert (j, rva_Term args, nat (rva_CandidateId args)) (votes s)
                 else votes s)\<rparr>"
    by auto
  then show ?case unfolding t by (intro cstep.vote_handle)
next
  case (3 n env s i j reply)
  then show ?case
    by (auto split: option.splits simp del: electionReply.simps rbind_Inr_iff
        intro!: cstep.vote_reply)
next
  case (4 n env s i)
  then obtain args count A rf succ where "electing s i = Some (args, count, A)"
    "electionEnd env count (nodes s i) = Inr (rf, succ)" and t: "t = (set_node i rf s)
      \<lparr>electing := (electing s)(i := None), lost := (lost s)(i := \<not> succ),
       votes := insert (i, rva_Term args, i) (votes s),
       won := (if succ then insert (i, currentTerm rf) (won s) else won s)\<rparr>"
    by (auto split: option.splits)
  then show ?case unfolding t by (intro cstep.elect_end)
next
  case (5 n env s i)
  then show ?case by (auto intro!: cstep.elect_failed)
next
  case (6 n env s i)
  then obtain rf where "Make env n (int i) (Copy (persister (nodes s i))) = Inr rf" "i < n"
    and t: "t = (set_node i rf s)\<lparr>electing := (electing s)(i := None),
      lost := (lost s)(i := False), beats := (beats s)(i := []),
      beating := (beating s)(i := None), starting := (starting s)(i := [])\<rparr>"
    by auto
  then show ?case unfolding t by (intro cstep.restart)
next
  case (7 n env s i)
  then show ?case by (auto simp: bind_eq_Some_conv intro!: cstep.elect_refused)
next
  case (8 n env s i)
  then show ?case by (auto intro!: cstep.beat_start)
next
  case (9 n env s i)
  then show ?case by (auto intro!: cstep.beat_self)
next
  case (10 n env s i j)
  then show ?case by (auto intro!: cstep.beat_send)
next
  case (11 n env s i j args)
  then show ?case by (auto intro!: cstep.app_handle)
next
  case (12 n env s i reply)
  then show ?case by (auto split: option.splits intro!: cstep.beat_end)
next
  case (13 n env s i c)
  then show ?case by (auto split: prod.splits intro!: cstep.start_check)
next
  case (14 n env s i t isLeader c)
  then show ?case by (auto intro!: cstep.start_work)
next
  case (15 n env s i)
  then show ?case by (auto intro!: cstep.deliver)
qed

fun crun :: "nat \<Rightarrow> env \<Rightarrow> 'c event list \<Rightarrow> 'c Cluster \<Rightarrow> 'c Cluster option" where
  "crun n env [] s = Some s"
| "crun n env (e # es) s = Option.bind (cexec n env s e) (crun n env es)"

text \<open>Runs all of whose steps are allowed, and the benign ones among them.\<close>

fun allowed_run :: "('c Cluster \<Rightarrow> 'c event \<Rightarrow> bool) \<Rightarrow> nat \<Rightarrow> env \<Rightarrow> 'c event list \<Rightarrow> 'c Cluster \<Rightarrow> bool" where
  "allowed_run A n env [] s = True"
| "allowed_run A n env (e # es) s =
     (A s e \<and> (case cexec n env s e of None \<Rightarrow> True | Some u \<Rightarrow> allowed_run A n env es u))"

definition allowed_step :: "('c Cluster \<Rightarrow> 'c event \<Rightarrow> bool) \<Rightarrow> nat \<Rightarrow> 'c Cluster \<Rightarrow> 'c event \<Rightarrow> 'c Cluster \<Rightarrow> bool" where
  "allowed_step A n s e t \<longleftrightarrow> cstep n s e t \<and> A s e"

lemma crun_allowed:
  "reach (cluster_init n) (allowed_step A n) s \<Longrightarrow> crun n env es s = Some t \<Longrightarrow>
   allowed_run A n env es s \<Longrightarrow> reach (cluster_init n) (allowed_step A n) t"
proof (induction es arbitrary: s)
  case Nil
  then show ?case by simp
next
  case (Cons e es)
  then obtain u where u: "cexec n env s e = Some u" "crun n env es u = Some t"
    by (auto simp: bind_eq_Some_conv)
  have "allowed_step A n s e u"
    using Cons.prems(3) cexec_sound [OF u(1)] by (simp add: allowed_step_def)
  with Cons.prems(1) have "reach (cluster_init n) (allowed_step A n) u" by (rule reach.reach_step)
  then show ?case using u Cons.prems(3) by (intro Cons.IH) auto
qed

section \<open>Three servers\<close>

definition boot :: "env \<Rightarrow> nat \<Rightarrow> nat \<Rightarrow> 'c Raft" where
  "boot env n i =
     \<lparr>peers = n, persister = MakePersister, me = int i, dead = 0, role = Follower, applyCh = [],
      electionTimer = \<lparr>tm_active = True, tm_fired = False,
        tm_when = fst env + ElectionTimeout + sgn (snd env) * (\<bar>snd env\<bar> mod ElectionTimeout)\<rparr>,
      currentTerm = 0, votedFor = -1,
      logEntries = [\<lparr>ent_Term = 0, ent_Index = 0, ent_Command = None\<rparr>],
      commitIndex = 0, lastApplied = 0,
      nextIndex = replicate n 0, matchIndex = replicate n 0\<rparr>"

lemma Make_boot: "Make env n (int i) MakePersister = Inr (boot env n i)"
  by (simp add: Make_def boot_def MakePersister_def ReadRaftState_def readPersist_def
      newRaft_def Let_def randTimeout_def go_rem_def ElectionTimeout_def add.assoc)

definition cluster0 :: "nat \<Rightarrow> 'c Cluster" where
  "cluster0 n =
     \<lparr>nodes = boot (0, 0) n, electing = (\<lambda>_. None), lost = (\<lambda>_. False), beats = (\<lambda>_. []),
      beating = (\<lambda>_. None), starting = (\<lambda>_. []), voteReqs = {}, voteResps = {},
      appReqs = {}, appResps = {}, votes = {}, won = {}\<rparr>"

lemma cluster0_init: "cluster_init n (cluster0 n)"
proof -
  have "\<exists>env. Make env n (int i) MakePersister = Inr (boot (0, 0) n i :: 'a Raft)" for i
    using Make_boot by blast
  then show ?thesis by (simp add: cluster_init_def cluster0_def)
qed

definition ask :: "int \<Rightarrow> int \<Rightarrow> RequestVoteArgs" where
  "ask t i = \<lparr>rva_Term = t, rva_CandidateId = i, rva_LastLogIndex = 0, rva_LastLogTerm = 0\<rparr>"

definition answer :: "int \<Rightarrow> bool \<Rightarrow> RequestVoteReply" where
  "answer t g = \<lparr>rvr_Term = t, rvr_VoteGranted = g\<rparr>"

lemmas scenario_defs = cluster0_def boot_def ask_def answer_def unlocked_def guard_def
  voteRequests_def electionBegin_eq RequestVote_eq electionEnd_def electionFailed_def
  changeRole_Leader rearmed_def grants_def log_older_def lastLogTermIndex_def persist_def
  SaveRaftState_def MakePersister_def dterm_def durable_def ReadRaftState_def readPersist_def
  newRaft_def Make_def randTimeout_def go_rem_def ElectionTimeout_def Let_def

section \<open>Properties\<close>

text \<open>A run without trouble: server 0 is elected in term 1 with the vote of server 1.\<close>

definition plain_win :: "'c event list" where
  "plain_win = [ElectStart 0, VoteHandle 0 1 (ask 1 0), VoteReply 0 1 (answer 0 True), ElectEnd 0]"

lemma plain_win_run:
  "\<exists>s :: 'c Cluster. crun 3 (0, 0) plain_win (cluster0 3) = Some s \<and>
     role (nodes s 0) = Leader \<and> currentTerm (nodes s 0) = 1"
  by (simp add: plain_win_def scenario_defs)

lemma plain_win_benign: "allowed_run benign 3 (0, 0) plain_win (cluster0 3 :: 'c Cluster)"
  by (simp add: plain_win_def scenario_defs)

lemma run_allowed:
  "crun n env es (cluster0 n) = Some s \<Longrightarrow> allowed_run A n env es (cluster0 n) \<Longrightarrow>
   reach (cluster_init n) (allowed_step A n) s"
  by (rule crun_allowed [OF reach.reach_init [of "cluster_init n", OF cluster0_init]])

lemma allowed_benign: "allowed_step benign = benign_step"
  by (simp add: allowed_step_def benign_step_def fun_eq_iff)

lemmas run_benign = run_allowed [where A = benign, unfolded allowed_benign]

text \<open>
  Each of the three restrictions on benign runs is needed. The runs below are benign but for steps of one kind.
\<close>

abbreviation but_for :: "('c event \<Rightarrow> bool) \<Rightarrow> 'c Cluster \<Rightarrow> 'c event \<Rightarrow> bool" where
  "but_for P \<equiv> \<lambda>s e. benign s e \<or> P e"

text \<open>
  C1: election safety. In every reachable state of a cluster of any size, under any schedule of the servers, any loss, delay,
  reordering and duplication of messages and any crashes, as long as the run is benign (no server wins
  after an answer moved it to a later term, none restarts in a term it has won, no
  leader's own timer expires), at most one server has won each term, so at most one is its leader.
\<close>

theorem election_safety:
  assumes "benign_reach n s"
  shows "\<exists>i. \<forall>j. (j, t) \<in> won s \<or> role (nodes s j) = Leader \<and> currentTerm (nodes s j) = t
     \<longrightarrow> j = i"
proof (cases "\<exists>i. (i, t) \<in> won s")
  case True
  then obtain i where i: "(i, t) \<in> won s" by blast
  have "j = i" if "(j, t) \<in> won s \<or> role (nodes s j) = Leader \<and> currentTerm (nodes s j) = t" for j
    using that leader_won [OF assms, of j] won_unique [OF assms _ i] by blast
  then show ?thesis by blast
next
  case False
  then show ?thesis using leader_won [OF assms] by blast
qed

theorem election_safety_witness:
  "\<exists>(s :: string Cluster) i. crun 3 (0, 0) plain_win (cluster0 3) = Some s \<and>
     {j. (j, 1) \<in> won s \<or> role (nodes s j) = Leader \<and> currentTerm (nodes s j) = 1} = {i}"
proof -
  obtain s :: "string Cluster" where s: "crun 3 (0, 0) plain_win (cluster0 3) = Some s"
    "role (nodes s 0) = Leader" "currentTerm (nodes s 0) = 1"
    using plain_win_run by blast
  from election_safety [OF run_benign [OF s(1) plain_win_benign], of 1] s show ?thesis by blast
qed

text \<open>
  Server 0 asks for votes in term 1 and gets that of server 1; before it hears from server 2, server 2
  has become leader of term 2, with a second vote of server 1.
\<close>

definition stale_win :: "'c event list" where
  "stale_win =
     [ElectStart 0, VoteHandle 0 1 (ask 1 0), ElectStart 2, ElectEnd 2, ElectFailed 2,
      ElectStart 2, VoteHandle 2 1 (ask 2 2), VoteReply 2 1 (answer 1 True), ElectEnd 2,
      VoteHandle 0 2 (ask 1 0), VoteReply 0 1 (answer 0 True), VoteReply 0 2 (answer 2 False),
      ElectEnd 0]"

lemma stale_win_run:
  "\<exists>s :: 'c Cluster. crun 3 (0, 0) stale_win (cluster0 3) = Some s \<and>
     role (nodes s 0) = Leader \<and> role (nodes s 2) = Leader \<and>
     currentTerm (nodes s 0) = 2 \<and> currentTerm (nodes s 2) = 2"
  "allowed_run (but_for (\<lambda>e. e = ElectEnd 0)) 3 (0, 0) stale_win (cluster0 3 :: 'c Cluster)"
  by (simp_all add: stale_win_def scenario_defs)

text \<open>
  C37: two leaders at once. \<open>startElection\<close> counts its votes without looking whether an answer moved the server to a later term. Three
  servers can reach a state in which two of them are leaders of term 2, without any crash and without any expired timer of
  a leader: some answers are slow, and server 0 counts its votes after one of them moved it on. All steps are benign but for the last of that election.
\<close>

theorem two_leaders:
  "\<exists>s :: 'c Cluster. reach (cluster_init 3) (allowed_step (but_for (\<lambda>e. e = ElectEnd 0)) 3) s \<and>
     role (nodes s 0) = Leader \<and> role (nodes s 2) = Leader \<and>
     currentTerm (nodes s 0) = 2 \<and> currentTerm (nodes s 2) = 2"
  using stale_win_run run_allowed by blast

text \<open>Server 0 wins term 1, crashes, and after its restart votes for server 2 in the same term.\<close>

definition restart_win :: "'c event list" where
  "restart_win = plain_win @
     [Restart 0, ElectStart 2, VoteHandle 2 0 (ask 1 2), VoteReply 2 0 (answer 1 True), ElectEnd 2]"

lemma restart_win_run:
  "\<exists>s :: 'c Cluster. crun 3 (0, 0) restart_win (cluster0 3) = Some s \<and>
     (0, 1) \<in> won s \<and> (2, 1) \<in> won s"
  "allowed_run (but_for (\<lambda>e. e = Restart 0)) 3 (0, 0) restart_win (cluster0 3 :: 'c Cluster)"
  by (simp_all add: restart_win_def plain_win_def scenario_defs)

text \<open>
  C38: a restart forgets the vote. Becoming leader erases the vote a server gave itself, and the erased vote is what it writes to disk. After a crash the former leader may therefore vote
  for another server in the term it has won, and a second server wins that term. Nothing but the restart is unusual about the run.
\<close>

theorem restart_two_winners:
  "\<exists>s :: 'c Cluster. reach (cluster_init 3) (allowed_step (but_for (\<lambda>e. e = Restart 0)) 3) s \<and>
     (0, 1) \<in> won s \<and> (2, 1) \<in> won s"
  using restart_win_run run_allowed by blast

text \<open>The same without a crash: the leader's election timer expires before it has reset it.\<close>

definition demoted_win :: "'c event list" where
  "demoted_win = plain_win @
     [ElectRefused 0, ElectFailed 0,
      ElectStart 2, VoteHandle 2 0 (ask 1 2), VoteReply 2 0 (answer 1 True), ElectEnd 2]"

lemma demoted_win_run:
  "\<exists>s :: 'c Cluster. crun 3 (0, 0) demoted_win (cluster0 3) = Some s \<and>
     (0, 1) \<in> won s \<and> (2, 1) \<in> won s \<and> role (nodes s 0) = Follower"
  "allowed_run (but_for (\<lambda>e. e = ElectRefused 0)) 3 (0, 0) demoted_win (cluster0 3 :: 'c Cluster)"
  by (simp_all add: demoted_win_def plain_win_def scenario_defs startElection_def)

text \<open>
  C39: an expired timer demotes a leader. When the election timer of a leader expires, \<open>startElection\<close> refuses, and the timer goroutine treats this as a lost election: the
  leader becomes a follower without a vote in the term it has won, and helps a second server to win it. The expiry is the only step of the run that is not benign.
\<close>

theorem timer_two_winners:
  "\<exists>s :: 'c Cluster. reach (cluster_init 3) (allowed_step (but_for (\<lambda>e. e = ElectRefused 0)) 3) s \<and>
     (0, 1) \<in> won s \<and> (2, 1) \<in> won s \<and> role (nodes s 0) = Follower"
  using demoted_win_run run_allowed by blast

end
