(* ===== verification/Raft_Bounds.thy ===== *)
theory Raft_Bounds
  imports Raft_Scenarios
begin

text \<open>
  No handler panics. The code uses indices that come out of messages, out of log entries and off the disk as
  positions in slices. In every reachable state of the cluster, under any run, benign or not, the RPC handlers, elections,
  heartbeats, \<open>Start\<close> and \<open>Make\<close> keep them within the slices: the entries' indices may fall behind their positions (a lost reply duplicates entries) but never run
  ahead of them, and a server that sends heartbeats has left the zero next indices of \<open>Make\<close> behind. The goroutine that applies
  entries is the exception: it panics when the log was cut off before the commit index. \<open>Raft_Overwrite\<close> has a run in which this happens.
\<close>

section \<open>The invariant\<close>

definition log_ok :: "'c LogEntry list \<Rightarrow> bool" where
  "log_ok l \<longleftrightarrow> l \<noteq> [] \<and>
     (\<forall>p < length l. 0 \<le> ent_Index (l ! p) \<and> (0 < p \<longrightarrow> 1 \<le> ent_Index (l ! p)) \<and>
        ent_Index (l ! p) \<le> int p)"

definition disk_sane :: "'c gobval Persister \<Rightarrow> bool" where
  "disk_sane ps \<longleftrightarrow> ReadRaftState ps = [] \<or> log_ok (snd (snd (durable ps)))"

definition indices_ok :: "'c Raft \<Rightarrow> bool" where
  "indices_ok rf \<longleftrightarrow> (\<forall>k \<in> set (nextIndex rf). 1 \<le> k)"

definition server_ok :: "nat \<Rightarrow> nat \<Rightarrow> 'c Raft \<Rightarrow> bool" where
  "server_ok n i rf \<longleftrightarrow>
     peers rf = n \<and> me rf = int i \<and> log_ok (logEntries rf) \<and> disk_sane (persister rf) \<and>
     length (nextIndex rf) = n \<and> length (matchIndex rf) = n \<and> 0 \<le> lastApplied rf \<and>
     (role rf = Leader \<longrightarrow> indices_ok rf)"

definition args_ok :: "'c AppendEntriesArgs \<Rightarrow> bool" where
  "args_ok args \<longleftrightarrow> 0 \<le> ae_PrevLogIndex args \<and>
     (\<forall>j < length (ae_Entries args). 1 \<le> ent_Index (ae_Entries args ! j) \<and>
        ent_Index (ae_Entries args ! j) \<le> ae_PrevLogIndex args + 1 + int j)"

text \<open>A critical section keeps a server's part of the invariant.\<close>

definition keeps :: "'c Raft \<Rightarrow> 'c Raft \<Rightarrow> bool" where
  "keeps rf rf' \<longleftrightarrow>
     (\<forall>n i. server_ok n i rf \<longrightarrow> server_ok n i rf') \<and> (indices_ok rf \<longrightarrow> indices_ok rf')"

definition bounds_inv :: "nat \<Rightarrow> 'c Cluster \<Rightarrow> bool" where
  "bounds_inv n s \<longleftrightarrow>
     (\<forall>i. server_ok n i (nodes s i)) \<and>
     (\<forall>i. beats s i \<noteq> [] \<or> beating s i \<noteq> None \<longrightarrow> indices_ok (nodes s i)) \<and>
     (\<forall>i. set (beats s i) \<subseteq> {..<n}) \<and>
     (\<forall>i j args. beating s i = Some (j, args) \<longrightarrow> j < n) \<and>
     (\<forall>i j args. (i, j, args) \<in> appReqs s \<longrightarrow> args_ok args) \<and>
     (\<forall>i j args reply. (i, j, args, reply) \<in> appResps s \<longrightarrow> 0 \<le> aer_NextIndex reply)"

section \<open>Logs\<close>

lemma log_ok_nth:
  "log_ok l \<Longrightarrow> p < length l \<Longrightarrow> 0 < p \<Longrightarrow> 1 \<le> ent_Index (l ! p) \<and> ent_Index (l ! p) \<le> int p"
  by (simp add: log_ok_def)

lemma log_ok_take: "log_ok l \<Longrightarrow> 0 < k \<Longrightarrow> log_ok (take k l)"
  by (auto simp: log_ok_def)

lemma log_ok_append:
  assumes "log_ok l"
    and "\<And>j. j < length es \<Longrightarrow> 1 \<le> ent_Index (es ! j) \<and> ent_Index (es ! j) \<le> int (length l + j)"
  shows "log_ok (l @ es)"
proof -
  have "0 \<le> ent_Index ((l @ es) ! p) \<and> (0 < p \<longrightarrow> 1 \<le> ent_Index ((l @ es) ! p)) \<and>
      ent_Index ((l @ es) ! p) \<le> int p"
    if p: "p < length (l @ es)" for p
  proof (cases "p < length l")
    case True
    with assms(1) show ?thesis by (simp add: log_ok_def nth_append)
  next
    case False
    with p have "p - length l < length es" by simp
    from assms(2) [OF this] False show ?thesis by (simp add: nth_append)
  qed
  with assms(1) show ?thesis by (simp add: log_ok_def)
qed

lemma log_ok_last:
  assumes "log_ok (logEntries rf)"
  shows "0 \<le> snd (lastLogTermIndex rf)" "snd (lastLogTermIndex rf) < int (length (logEntries rf))"
proof -
  from assms have ne: "logEntries rf \<noteq> []" by (simp add: log_ok_def)
  let ?p = "length (logEntries rf) - 1"
  from ne have "?p < length (logEntries rf)" by simp
  with assms have "0 \<le> ent_Index (logEntries rf ! ?p)"
    "ent_Index (logEntries rf ! ?p) \<le> int ?p"
    unfolding log_ok_def by blast+
  moreover have "snd (lastLogTermIndex rf) = ent_Index (logEntries rf ! ?p)"
    using ne by (simp add: lastLogTermIndex_nonempty last_conv_nth)
  ultimately show "0 \<le> snd (lastLogTermIndex rf)"
    "snd (lastLogTermIndex rf) < int (length (logEntries rf))"
    using ne by (simp_all add: of_nat_diff Suc_leI)
qed

lemma disk_sane_written:
  "durable ps = persistent rf \<Longrightarrow> log_ok (logEntries rf) \<Longrightarrow> disk_sane ps"
  by (simp add: disk_sane_def persistent_def)

section \<open>Critical sections\<close>

text \<open>Sections that leave the log and the leader's indices alone, and sections that write the disk.\<close>

lemma keeps_quiet:
  assumes "peers rf' = peers rf" "me rf' = me rf" "logEntries rf' = logEntries rf"
    and "persister rf' = persister rf \<or> durable (persister rf') = persistent rf'"
    and "nextIndex rf' = nextIndex rf" "length (matchIndex rf') = length (matchIndex rf)"
    and "role rf' = Leader \<longrightarrow> role rf = Leader" "lastApplied rf \<le> lastApplied rf'"
  shows "keeps rf rf'"
  using assms disk_sane_written [of "persister rf'" rf']
  by (auto simp: keeps_def server_ok_def indices_ok_def)

lemma keeps_RequestVote:
  assumes "RequestVote env args rf = Inr (rf', reply)"
  shows "keeps rf rf'"
  by (rule keeps_quiet) (use RequestVote_Inr [OF assms] in auto)

lemma keeps_electionBegin:
  assumes "rbind (resetElectionTimer env rf) (electionBegin env) = Inr (rf', args)"
  shows "keeps rf rf'"
  by (rule keeps_quiet) (use assms in \<open>auto simp: electionBegin_eq Let_def\<close>)

lemma keeps_electionReply:
  assumes "electionReply env args r (rf, c) = Inr (rf', c')"
  shows "keeps rf rf'"
  by (rule keeps_quiet) (use electionReply_cases [OF assms] in \<open>auto split: if_splits\<close>)

lemma keeps_refused:
  assumes "startElection env [] rf = Inr (rf', False)" "role rf = Leader"
  shows "keeps rf rf'"
  by (rule keeps_quiet) (use assms in \<open>auto simp: startElection_def persistent_def\<close>)

lemma keeps_electionFailed:
  assumes "electionFailed env rf = Inr rf'"
  shows "keeps rf rf'"
  by (rule keeps_quiet) (use assms in \<open>auto simp: electionFailed_def\<close>)

lemma keeps_electionEnd:
  assumes "electionEnd env c rf = Inr (rf', succ)" "server_ok n i rf"
  shows "server_ok n i rf'" "indices_ok rf \<Longrightarrow> indices_ok rf'"
proof -
  have 0: "0 \<le> snd (lastLogTermIndex rf)"
    using assms(2) log_ok_last by (auto simp: server_ok_def)
  consider (no) "rf' = persist rf" | (yes) rf1 where "changeRole env Leader rf = Inr rf1" "rf' = persist rf1"
    using assms(1) by (auto simp: electionEnd_def split: if_splits)
  then have "server_ok n i rf' \<and> (indices_ok rf \<longrightarrow> indices_ok rf')"
  proof cases
    case no
    have "keeps rf (persist rf)" by (rule keeps_quiet) (simp_all add: persistent_def)
    with no assms(2) show ?thesis by (simp add: keeps_def)
  next
    case yes
    have "disk_sane (persister (persist rf1))"
      using assms(2) changeRole_Leader_fields(6) [OF yes(1)]
      by (intro disk_sane_written [OF durable_persist]) (simp add: server_ok_def)
    with yes(2) assms(2) 0 changeRole_Leader_fields [OF yes(1)] show ?thesis
      by (simp add: server_ok_def indices_ok_def)
  qed
  then show "server_ok n i rf'" "indices_ok rf \<Longrightarrow> indices_ok rf'" by simp_all
qed

lemma AppendEntries_log_ok:
  assumes "AppendEntries env args rf = Inr (rf', reply)" "args_ok args" "log_ok (logEntries rf)"
  shows "log_ok (logEntries rf')" "0 \<le> aer_NextIndex reply"
proof -
  have "log_ok (logEntries rf') \<and> 0 \<le> aer_NextIndex reply"
    using assms(1)
  proof (cases rule: AppendEntries_cases)
    case mismatch
    with assms show ?thesis by (simp add: prev_mismatch_def log_ok_take)
  next
    case (conflict k)
    from conflictIndex_Some [OF conflict(3)] assms(2) have "1 \<le> k"
      by (auto simp: args_ok_def)
    with conflict assms(3) show ?thesis by (simp add: log_ok_take)
  next
    case success
    have "1 \<le> ent_Index (ae_Entries args ! j) \<and>
        ent_Index (ae_Entries args ! j) \<le> int (length (logEntries rf) + j)"
      if "j < length (ae_Entries args)" for j
      using assms(2) success(4) that by (force simp: args_ok_def)
    with success assms(3) show ?thesis by (simp add: log_ok_append)
  qed (use assms in simp_all)
  then show "log_ok (logEntries rf')" "0 \<le> aer_NextIndex reply" by simp_all
qed

lemma keeps_AppendEntries:
  assumes "AppendEntries env args rf = Inr (rf', reply)" "args_ok args"
  shows "keeps rf rf'"
  using AppendEntries_frame [OF assms(1)] AppendEntries_term(2) [OF assms(1)]
    AppendEntries_log_ok(1) [OF assms] disk_sane_written [of "persister rf'" rf']
  by (auto simp: keeps_def server_ok_def indices_ok_def split: if_splits)

lemma keeps_beatSelf:
  assumes "SendHeartbeat env (me rf) net rf = Inr rf'"
  shows "keeps rf rf'"
  by (rule keeps_quiet) (use assms in \<open>auto simp: SendHeartbeat_self persistent_def\<close>)

lemma adjustIndex_ok:
  assumes "adjustIndex server reply rf = Inr rf1" "0 \<le> aer_NextIndex reply" "indices_ok rf"
  shows "indices_ok rf1"
  using assms
  by (auto simp: adjustIndex_Inr indices_ok_def replyIndex_def split: if_splits
      dest!: subsetD [OF set_update_subset_insert])

lemma keeps_heartbeatEnd:
  assumes "heartbeatEnd env server args reply rf = Inr rf'" "0 \<le> aer_NextIndex reply"
    and "server_ok n i rf" "indices_ok rf"
  shows "server_ok n i rf'" "indices_ok rf'"
proof -
  have "indices_ok rf' \<and> length (nextIndex rf') = n \<and> length (matchIndex rf') = n"
    using assms(1)
  proof (cases rule: heartbeatEnd_cases)
    case stepdown
    with assms show ?thesis by (simp add: indices_ok_def server_ok_def)
  next
    case (stay rf1)
    with adjustIndex_ok [OF stay(2) assms(2,4)] adjustIndex_frame [OF stay(2)] assms(3)
    show ?thesis by (simp add: indices_ok_def server_ok_def)
  qed
  moreover have "disk_sane (persister rf')"
    using heartbeatEnd_frame [OF assms(1)] assms(3) by (auto simp: server_ok_def intro: disk_sane_written)
  ultimately show "server_ok n i rf'" "indices_ok rf'"
    using heartbeatEnd_frame [OF assms(1)] assms(3) by (simp_all add: server_ok_def)
qed

lemma keeps_StartLocked:
  assumes "StartLocked t isLeader c rf = Inr (rf', res)"
  shows "keeps rf rf'"
  using StartLocked_Inr [OF assms]
proof
  assume "isLeader \<and> (\<exists>m. rf' = persist (rf\<lparr>logEntries := logEntries rf @
        [\<lparr>ent_Term = currentTerm rf, ent_Index = snd (lastLogTermIndex rf) + 1, ent_Command = c\<rparr>],
      matchIndex := m\<rparr>) \<and> length m = length (matchIndex rf))"
  then obtain m where m: "rf' = persist (rf\<lparr>logEntries := logEntries rf @
        [\<lparr>ent_Term = currentTerm rf, ent_Index = snd (lastLogTermIndex rf) + 1, ent_Command = c\<rparr>],
      matchIndex := m\<rparr>)" "length m = length (matchIndex rf)" by blast
  have "log_ok (logEntries rf')" if "log_ok (logEntries rf)"
    unfolding m(1) persist_sel Raft.select_convs Raft.update_convs
    by (auto simp: that intro!: log_ok_append) (use log_ok_last [OF that] in simp_all)
  moreover have "durable (persister rf') = persistent rf'" by (simp add: m(1) persistent_def)
  ultimately show ?thesis
    using m disk_sane_written [of "persister rf'" rf'] by (auto simp: keeps_def server_ok_def indices_ok_def)
qed (simp add: keeps_def)

lemma keeps_applyRound:
  assumes "applyRound rf = Inr rf'"
  shows "keeps rf rf'"
  by (rule keeps_quiet) (use applyRound_frame [OF assms] in simp_all)

lemma Make_ok:
  assumes "Make env n (int i) ps = Inr rf" "disk_sane ps"
  shows "server_ok n i rf"
proof -
  have one: "log_ok [\<lparr>ent_Term = 0, ent_Index = 0, ent_Command = None\<rparr>]" by (simp add: log_ok_def)
  have "log_ok (logEntries rf)"
  proof (cases "ReadRaftState ps = []")
    case True
    with assms(1) one show ?thesis by (auto simp: Make_def Let_def readPersist_def newRaft_def)
  next
    case False
    with assms have "log_ok (snd (snd (durable ps)))" by (simp add: disk_sane_def)
    with Make_persistent(3) [OF assms(1)] show ?thesis by (simp add: log_ok_def)
  qed
  with Make_persistent [OF assms(1)] assms(2) show ?thesis by (simp add: server_ok_def)
qed

section \<open>The cluster\<close>

lemma keepsD:
  assumes "keeps rf rf'"
  shows "server_ok n i rf \<Longrightarrow> server_ok n i rf'" "indices_ok rf \<Longrightarrow> indices_ok rf'"
  using assms by (auto simp: keeps_def)

lemma bounds_invD:
  assumes "bounds_inv n s"
  shows "server_ok n i (nodes s i)" "beats s i \<noteq> [] \<Longrightarrow> indices_ok (nodes s i)"
    "beating s i = Some b \<Longrightarrow> indices_ok (nodes s i)" "set (beats s i) \<subseteq> {..<n}"
    "beating s i = Some (j, args) \<Longrightarrow> j < n" "(i, j, args) \<in> appReqs s \<Longrightarrow> args_ok args"
    "(i, j, args, reply) \<in> appResps s \<Longrightarrow> 0 \<le> aer_NextIndex reply"
proof -
  show "set (beats s i) \<subseteq> {..<n}" using assms unfolding bounds_inv_def by (elim conjE) (erule spec)
  show "beating s i = Some (j, args) \<Longrightarrow> j < n" using assms unfolding bounds_inv_def by (elim conjE) blast
  show "(i, j, args) \<in> appReqs s \<Longrightarrow> args_ok args" using assms unfolding bounds_inv_def by (elim conjE) blast
  show "(i, j, args, reply) \<in> appResps s \<Longrightarrow> 0 \<le> aer_NextIndex reply"
    using assms unfolding bounds_inv_def by (elim conjE) blast
qed (use assms in \<open>simp_all add: bounds_inv_def\<close>)

text \<open>A step of one server that leaves its rounds of heartbeats as they are.\<close>

lemma bounds_inv_node:
  assumes "bounds_inv n s" "server_ok n i rf" "indices_ok (nodes s i) \<Longrightarrow> indices_ok rf"
    and "nodes t = (nodes s)(i := rf)" "beats t = beats s" "beating t = beating s"
    and "appReqs t = appReqs s" "appResps t = appResps s"
  shows "bounds_inv n t"
  using assms(1-3) by (simp add: bounds_inv_def assms(4-8))

lemma bounds_inv_keeps:
  assumes "bounds_inv n s" "keeps (nodes s i) rf"
    and "nodes t = (nodes s)(i := rf)" "beats t = beats s" "beating t = beating s"
    and "appReqs t = appReqs s" "appResps t = appResps s"
  shows "bounds_inv n t"
proof (rule bounds_inv_node [OF assms(1) _ _ assms(3-7)])
  show "server_ok n i rf" using assms(1) by (intro keepsD(1) [OF assms(2)]) (simp add: bounds_inv_def)
qed (rule keepsD(2) [OF assms(2)])

lemma getAppendLogs_ok:
  assumes "server_ok n i rf" "indices_ok rf" "j < n"
  shows "\<exists>prev tm es. getAppendLogs (int j) rf = Inr (prev, tm, es) \<and> 0 \<le> prev \<and>
     (\<forall>k < length es. 1 \<le> ent_Index (es ! k) \<and> ent_Index (es ! k) \<le> prev + 1 + int k)"
proof -
  let ?l = "logEntries rf" and ?x = "nextIndex rf ! j"
  have log: "log_ok ?l" and len: "length (nextIndex rf) = n" using assms(1) by (auto simp: server_ok_def)
  then have x: "1 \<le> ?x" using assms(2,3) by (auto simp: indices_ok_def)
  obtain a b where ab: "lastLogTermIndex rf = (a, b)" by fastforce
  with log_ok_last [OF log] have b: "0 \<le> b" "b < int (length ?l)" by simp_all
  show ?thesis
  proof (cases "b < ?x")
    case True
    with ab b len assms(3) show ?thesis by (simp add: getAppendLogs_def go_index_def)
  next
    case False
    with b x have lt: "nat ?x < length ?l" "nat (?x - 1) < length ?l" by linarith+
    have "1 \<le> ent_Index (drop (nat ?x) ?l ! k) \<and> ent_Index (drop (nat ?x) ?l ! k) \<le> ?x - 1 + 1 + int k"
      if "k < length (drop (nat ?x) ?l)" for k
    proof -
      have p: "nat ?x + k < length ?l" "0 < nat ?x + k" using that x by auto
      note i = log_ok_nth [OF log this]
      have "drop (nat ?x) ?l ! k = ?l ! (nat ?x + k)" using that by simp
      with i x show ?thesis by (simp add: nat_add_distrib)
    qed
    moreover have "getAppendLogs (int j) rf =
        Inr (?x - 1, ent_Term (?l ! nat (?x - 1)), drop (nat ?x) ?l)"
      using False ab b x lt len assms(3) by (simp add: getAppendLogs_def go_index_def slice_from_def)
    ultimately show ?thesis using x by simp
  qed
qed

lemma heartbeatBegin_ok:
  assumes "server_ok n i rf" "indices_ok rf" "j < n"
  shows "\<exists>args. heartbeatBegin (int j) rf = Inr args \<and> args_ok args"
  using getAppendLogs_ok [OF assms] by (auto simp: heartbeatBegin_def args_ok_def)

lemma bounds_init: "cluster_init n s \<Longrightarrow> bounds_inv n s"
proof -
  assume init: "cluster_init n s"
  have sane: "disk_sane MakePersister" by (simp add: disk_sane_def MakePersister_def ReadRaftState_def)
  have "server_ok n i (nodes s i)" for i
  proof -
    from init obtain env where "Make env n (int i) MakePersister = Inr (nodes s i)"
      unfolding cluster_init_def by blast
    then show ?thesis using sane by (rule Make_ok)
  qed
  with init show ?thesis by (simp add: bounds_inv_def cluster_init_def)
qed

lemma bounds_step:
  assumes inv: "bounds_inv n s" and step: "cstep n s e t"
  shows "bounds_inv n t"
proof -
  have ok: "server_ok n i (nodes s i)" for i using inv by (simp add: bounds_inv_def)
  show ?thesis
    using step
  proof cases
    case (elect_start i env rf args)
    then show ?thesis by (intro bounds_inv_keeps [OF inv keeps_electionBegin]) auto
  next
    case (elect_refused i env rf)
    then show ?thesis by (intro bounds_inv_keeps [OF inv keeps_refused]) auto
  next
    case (vote_handle i j args env rf reply)
    then show ?thesis by (intro bounds_inv_keeps [OF inv keeps_RequestVote]) auto
  next
    case (vote_reply i args count A j reply env rf count')
    then show ?thesis by (intro bounds_inv_keeps [OF inv keeps_electionReply [OF vote_reply(6)]]) simp_all
  next
    case (elect_end i args count A env rf succ)
    then show ?thesis
      using keeps_electionEnd [OF elect_end(4) ok] by (intro bounds_inv_node [OF inv]) auto
  next
    case (elect_failed i env rf)
    then show ?thesis by (intro bounds_inv_keeps [OF inv keeps_electionFailed]) auto
  next
    case (beat_start i)
    with inv ok [of i] show ?thesis by (auto simp: bounds_inv_def GetState_def server_ok_def)
  next
    case (beat_self i env rf)
    have "me (nodes s i) = int i" using ok [of i] by (simp add: server_ok_def)
    with beat_self have "keeps (nodes s i) rf" by (intro keeps_beatSelf) simp
    moreover have "set (remove1 i (beats s i)) \<subseteq> {..<n}"
      using bounds_invD(4) [OF inv] set_remove1_subset by (rule order_trans [rotated])
    moreover have "indices_ok (nodes s i)" using beat_self(3) by (intro bounds_invD(2) [OF inv]) auto
    ultimately show ?thesis using beat_self inv ok by (simp add: bounds_inv_def keeps_def)
  next
    case (beat_send j i args)
    have idx: "indices_ok (nodes s i)" using beat_send(3) by (intro bounds_invD(2) [OF inv]) auto
    have j: "j < n" using bounds_invD(4) [OF inv] beat_send(3) by auto
    have args: "args_ok args" using heartbeatBegin_ok [OF ok idx j] beat_send(6) by auto
    have "set (remove1 j (beats s i)) \<subseteq> {..<n}"
      using bounds_invD(4) [OF inv] set_remove1_subset by (rule order_trans [rotated])
    with beat_send(2) inv idx j args show ?thesis by (simp add: bounds_inv_def)
  next
    case (app_handle i j args env rf reply)
    have args: "args_ok args" using inv app_handle by (auto simp: bounds_inv_def)
    have "keeps (nodes s j) rf" using app_handle args by (intro keeps_AppendEntries)
    moreover have "0 \<le> aer_NextIndex reply"
      using AppendEntries_log_ok(2) [OF app_handle(5) args] ok [of j] by (simp add: server_ok_def)
    ultimately show ?thesis using app_handle inv ok by (auto simp: bounds_inv_def keeps_def)
  next
    case (beat_end i j args reply env rf)
    have idx: "indices_ok (nodes s i)" using inv beat_end by (auto simp: bounds_inv_def)
    have "0 \<le> aer_NextIndex reply" using inv beat_end by (auto simp: bounds_inv_def zeroReply_def)
    note k = keeps_heartbeatEnd [OF beat_end(5) this ok idx]
    with beat_end inv show ?thesis by (auto simp: bounds_inv_def)
  next
    case (start_check i tm isLeader c)
    with inv show ?thesis by (simp add: bounds_inv_def)
  next
    case (start_work tm isLeader c i rf res)
    then show ?thesis by (intro bounds_inv_keeps [OF inv keeps_StartLocked]) auto
  next
    case (deliver i rf)
    then show ?thesis by (intro bounds_inv_keeps [OF inv keeps_applyRound]) auto
  next
    case (restart i env rf)
    have "disk_sane (Copy (persister (nodes s i)))"
      using ok [of i] by (simp add: server_ok_def Copy_def)
    with restart have "server_ok n i rf" by (intro Make_ok)
    with restart inv show ?thesis by (auto simp: bounds_inv_def)
  qed
qed

interpretation bounds: invariant_system "cluster_init n" "cstep n" "bounds_inv n" for n
  by unfold_locales (fact bounds_init, fact bounds_step)

lemmas reached_bounds = bounds.reach_inv

section \<open>Properties\<close>

lemma AppendEntries_reached:
  assumes "bounds_inv n s" "(k, j, args) \<in> appReqs s"
  shows "returns (AppendEntries env args rf)"
proof -
  have "args_ok args" using assms by (rule bounds_invD(6))
  then have "\<forall>e \<in> set (ae_Entries args). 0 \<le> ent_Index e" by (force simp: args_ok_def in_set_conv_nth)
  from AppendEntries_returns [OF this] show ?thesis by (auto simp: returns_iff)
qed

lemma SendHeartbeat_reached:
  assumes "bounds_inv n s" "server_ok n i (nodes s i)" "j \<in> set (beats s i)"
  shows "returns (SendHeartbeat env (int j) (\<lambda>_. None) (nodes s i))"
proof -
  have "indices_ok (nodes s i)" using assms(3) by (intro bounds_invD(2) [OF assms(1)]) auto
  moreover have "j < n" using bounds_invD(4) [OF assms(1)] assms(3) by auto
  ultimately have "\<exists>args. heartbeatBegin (int j) (nodes s i) = Inr args"
    using heartbeatBegin_ok [OF assms(2)] by blast
  then show ?thesis by (auto simp: SendHeartbeat_def heartbeatEnd_def zeroReply_def adjustIndex_Inr)
qed

lemma heartbeatEnd_returns:
  assumes "server_ok n i rf" "j < n"
  shows "returns (heartbeatEnd env (int j) args reply rf)"
proof -
  have "\<exists>rf1. adjustIndex (int j) reply rf = Inr rf1"
    using assms by (cases "aer_NextIndex reply = 0") (simp_all add: server_ok_def adjustIndex_Inr)
  then show ?thesis
    by (cases "currentTerm rf < aer_Term reply") (auto simp: heartbeatEnd_stepdown heartbeatEnd_stay)
qed

lemma electionEnd_returns: "me rf = int i \<Longrightarrow> peers rf = n \<Longrightarrow> i < n \<Longrightarrow> returns (electionEnd env count rf)"
  by (simp add: electionEnd_def changeRole_Leader)

lemma startElection_returns:
  assumes "me rf = int i" "peers rf = n" "i < n"
  shows "returns (startElection env rs rf)"
proof (cases "role rf = Leader")
  case True
  then show ?thesis by (simp add: startElection_def)
next
  case False
  then obtain rf1 where "startElection env rs rf = electionEnd env (1 + int (length (granted_answers rs))) rf1"
    "me rf1 = me rf" "peers rf1 = peers rf"
    by (rule startElection_split)
  with assms show ?thesis by (simp add: electionEnd_returns)
qed

lemma Start_returns:
  assumes "server_ok n i rf" "i < n"
  shows "returns (Start c rf)"
  using assms StartLocked_leader [of rf]
  by (cases "role rf = Leader") (simp_all add: server_ok_def Start_def GetState_def Let_def)

lemma applyRound_returns:
  "0 \<le> lastApplied rf \<Longrightarrow> returns (applyRound rf) \<longleftrightarrow>
     \<not> (lastApplied rf < commitIndex rf \<and> int (length (logEntries rf)) \<le> lastApplied rf + 1)"
  by (simp add: applyRound_def go_index_def Let_def)

text \<open>
  C2: no handler panics. In every reachable state of the cluster, whatever was lost, delayed, repeated or crashed before: any
  AppendEntries request in the network can be handled by any server, any heartbeat of a round under way can be prepared, any answer
  to one can be processed, and elections, votes, \<open>Start\<close> and a restart return. The log a server holds and the log on its
  disk are never empty, and an entry's index never exceeds its position. The goroutine that applies entries panics in exactly one
  case: the next entry to apply is committed and the log ends before it.
\<close>

theorem handlers_return:
  assumes "cluster_reach n s" "i < n"
  shows "((k, j, args) \<in> appReqs s \<longrightarrow> returns (AppendEntries env args (nodes s i))) \<and>
     (j \<in> set (beats s i) \<longrightarrow> returns (SendHeartbeat env (int j) (\<lambda>_. None) (nodes s i))) \<and>
     (beating s i = Some (j, args) \<and> (i, j, args, reply) \<in> appResps s \<longrightarrow>
        returns (heartbeatEnd env (int j) args reply (nodes s i))) \<and>
     returns (startElection env rs (nodes s i)) \<and> returns (electionEnd env count (nodes s i)) \<and>
     returns (RequestVote env rargs (nodes s i)) \<and> returns (Start c (nodes s i)) \<and>
     returns (Make env n (int i) (Copy (persister (nodes s i)))) \<and>
     (returns (applyRound (nodes s i)) \<longleftrightarrow>
        \<not> (lastApplied (nodes s i) < commitIndex (nodes s i) \<and>
           int (length (logEntries (nodes s i))) \<le> lastApplied (nodes s i) + 1)) \<and>
     logEntries (nodes s i) \<noteq> [] \<and>
     (\<forall>p < length (logEntries (nodes s i)). ent_Index (logEntries (nodes s i) ! p) \<le> int p)"
proof -
  have inv: "bounds_inv n s" using assms(1) by (rule reached_bounds)
  then have ok: "server_ok n i (nodes s i)" by (simp add: bounds_inv_def)
  then have me: "me (nodes s i) = int i" "peers (nodes s i) = n" and log: "log_ok (logEntries (nodes s i))"
    by (auto simp: server_ok_def)
  have "returns (heartbeatEnd env (int j) args reply (nodes s i))" if "beating s i = Some (j, args)"
    using bounds_invD(5) [OF inv that] by (rule heartbeatEnd_returns [OF ok])
  moreover have "returns (RequestVote env rargs (nodes s i))" by (simp add: RequestVote_eq)
  moreover have "returns (Make env n (int i) (Copy (persister (nodes s i))))"
    using Make_returns by (simp add: returns_iff)
  moreover have "returns (applyRound (nodes s i)) \<longleftrightarrow>
        \<not> (lastApplied (nodes s i) < commitIndex (nodes s i) \<and>
           int (length (logEntries (nodes s i))) \<le> lastApplied (nodes s i) + 1)"
    using ok by (intro applyRound_returns) (simp add: server_ok_def)
  ultimately show ?thesis
    using AppendEntries_reached [OF inv] SendHeartbeat_reached [OF inv ok] startElection_returns [OF me assms(2)]
      electionEnd_returns [OF me assms(2)] Start_returns [OF ok assms(2)] log unfolding log_ok_def by blast
qed

theorem handlers_return_witness:
  "\<exists>s :: string Cluster. cluster_reach 3 s \<and> role (nodes s 0) = Leader \<and>
     returns (Start (Some ''x'') (nodes s 0)) \<and> returns (startElection (0, 0) [] (nodes s 2))"
proof -
  obtain s :: "string Cluster" where s: "crun 3 (0, 0) plain_win (cluster0 3) = Some s" "role (nodes s 0) = Leader"
    using plain_win_run by blast
  have "reach (cluster_init 3) (allowed_step benign 3) s" by (rule run_allowed [OF s(1) plain_win_benign])
  then have r: "cluster_reach 3 s" by (rule reach_mono) (simp add: allowed_step_def)
  then show ?thesis
    using handlers_return [OF r, of 0] handlers_return [OF r, of 2] s(2) by auto
qed

end
