(* ===== verification/Raft_Divergence.thy ===== *)
theory Raft_Divergence
  imports Raft_Scenarios
begin

text \<open>
  What two leaders of one term lead to: both commit an entry at the same index, and two servers hand
  different commands to their state machines for it.
\<close>

section \<open>The run\<close>

definition entry1 :: "string \<Rightarrow> string LogEntry" where
  "entry1 c = \<lparr>ent_Term = 2, ent_Index = 1, ent_Command = Some c\<rparr>"

definition append1 :: "int \<Rightarrow> string \<Rightarrow> string AppendEntriesArgs" where
  "append1 i c = \<lparr>ae_Term = 2, ae_LeaderId = i, ae_PrevLogIndex = 0, ae_PrevLogTerm = 0,
     ae_Entries = [entry1 c], ae_LeaderCommit = 0\<rparr>"

definition accepted :: "int \<Rightarrow> AppendEntriesReply" where
  "accepted k = \<lparr>aer_Term = 0, aer_Success = True, aer_NextIndex = k\<rparr>"

text \<open>A leader \<open>i\<close> takes a command, replicates it to server 1, which answers with \<open>k\<close>, and applies it.\<close>

definition agree_with_1 :: "nat \<Rightarrow> string \<Rightarrow> int \<Rightarrow> string event list" where
  "agree_with_1 i c k =
     [StartCheck i (Some c), StartWork i (2, True, Some c), BeatStart i, BeatSend i 1,
      AppHandle i 1 (append1 (int i) c), BeatEnd i (accepted k), Deliver i]"

definition divergent_run :: "string event list" where
  "divergent_run = stale_win @ agree_with_1 2 ''x'' 2 @ agree_with_1 0 ''y'' 3"

lemma replicate_3: "replicate 3 x = [x, x, x]"
  by (simp add: numeral_3_eq_3)

lemma upt_3: "[0..<3] = [0, 1, 2]"
  by (simp add: upt_rec)

lemmas replication_defs = GetState_def StartLocked_def heartbeatBegin_def getAppendLogs_def
  go_index_def go_update_def slice_from_def slice_to_def AppendEntries_def prevMismatch_def
  heartbeatEnd_def adjustIndex_def commitLog_def applyRound_def zeroReply_def replicate_3 upt_3
  prev_mismatch_def committable_def supporters_def

lemmas divergent_defs = divergent_run_def stale_win_def agree_with_1_def append1_def accepted_def entry1_def
  scenario_defs replication_defs

lemma divergent_run_exec:
  "\<exists>s. crun 3 (0, 0) divergent_run (cluster0 3) = Some s \<and>
     applyCh (nodes s 0) = [\<lparr>CommandValid = True, msg_Command = Some ''y'', CommandIndex = 1\<rparr>] \<and>
     applyCh (nodes s 2) = [\<lparr>CommandValid = True, msg_Command = Some ''x'', CommandIndex = 1\<rparr>]"
  by (simp add: divergent_defs)

lemma divergent_run_allowed:
  "allowed_run (but_for (\<lambda>e. e = ElectEnd 0)) 3 (0, 0) divergent_run (cluster0 3)"
  by (simp add: divergent_defs)

section \<open>Properties\<close>

text \<open>
  The state machines diverge. From the two leaders of term 2, without a crash: leader 2 replicates its entry to server 1, commits and applies it;
  then leader 0 sends another entry for the same index and the same term to server 1, which finds no conflict, appends
  it behind the first and reports success, so leader 0 commits and applies its own entry. Two servers have applied different
  commands at index 1, which is what the apply check of the test harness calls a failure.
\<close>

theorem state_machines_diverge:
  "\<exists>s :: string Cluster. reach (cluster_init 3) (allowed_step (but_for (\<lambda>e. e = ElectEnd 0)) 3) s \<and>
     (\<exists>m \<in> set (applyCh (nodes s 0)). \<exists>m' \<in> set (applyCh (nodes s 2)).
        CommandIndex m = CommandIndex m' \<and> msg_Command m \<noteq> msg_Command m')"
proof -
  obtain s where s: "crun 3 (0, 0) divergent_run (cluster0 3) = Some s"
    "applyCh (nodes s 0) = [\<lparr>CommandValid = True, msg_Command = Some ''y'', CommandIndex = 1\<rparr>]"
    "applyCh (nodes s 2) = [\<lparr>CommandValid = True, msg_Command = Some ''x'', CommandIndex = 1\<rparr>]"
    using divergent_run_exec by blast
  then show ?thesis using run_allowed [OF s(1) divergent_run_allowed] by force
qed

end
