(* ===== verification/Raft_Overwrite.thy ===== *)
theory Raft_Overwrite
  imports Raft_Divergence
begin

text \<open>
  A committed entry is overwritten. The leader commits an entry of an older term by counting copies of it (Figure 8 of the Raft paper), a
  later leader has it deleted, and the server that has yet to apply it indexes past the end of its log. The run
  is benign: no server wins after its term has moved on, none crashes and no leader's timer expires.
\<close>

section \<open>The run\<close>

text \<open>Server \<open>i\<close> is elected with the votes of \<open>j\<close> and \<open>k\<close>, which were in the terms \<open>t\<close> and \<open>u\<close>.\<close>

definition elect5 :: "nat \<Rightarrow> RequestVoteArgs \<Rightarrow> nat \<Rightarrow> int \<Rightarrow> nat \<Rightarrow> int \<Rightarrow> string event list" where
  "elect5 i args j t k u =
     [ElectStart i, VoteHandle i j args, VoteReply i j (answer t True),
      VoteHandle i k args, VoteReply i k (answer u True), ElectEnd i]"

definition askLast :: "int \<Rightarrow> int \<Rightarrow> int \<Rightarrow> int \<Rightarrow> RequestVoteArgs" where
  "askLast t i k u = \<lparr>rva_Term = t, rva_CandidateId = i, rva_LastLogIndex = k, rva_LastLogTerm = u\<rparr>"

text \<open>Leader \<open>i\<close> takes a command; it sends a heartbeat to \<open>j\<close> and hears the answer.\<close>

definition take_command :: "nat \<Rightarrow> int \<Rightarrow> string \<Rightarrow> string event list" where
  "take_command i t c = [StartCheck i (Some c), StartWork i (t, True, Some c)]"

definition beat_once :: "nat \<Rightarrow> nat \<Rightarrow> string AppendEntriesArgs \<Rightarrow> AppendEntriesReply \<Rightarrow> string event list" where
  "beat_once i j args reply = [BeatStart i, BeatSend i j, AppHandle i j args, BeatEnd i reply]"

definition entryOf :: "int \<Rightarrow> int \<Rightarrow> string \<Rightarrow> string LogEntry" where
  "entryOf t k c = \<lparr>ent_Term = t, ent_Index = k, ent_Command = Some c\<rparr>"

definition appendAfter :: "int \<Rightarrow> int \<Rightarrow> int \<Rightarrow> int \<Rightarrow> string LogEntry list \<Rightarrow> string AppendEntriesArgs" where
  "appendAfter t i p pt es = \<lparr>ae_Term = t, ae_LeaderId = i, ae_PrevLogIndex = p, ae_PrevLogTerm = pt,
     ae_Entries = es, ae_LeaderCommit = 0\<rparr>"

definition refused :: "int \<Rightarrow> int \<Rightarrow> AppendEntriesReply" where
  "refused t k = \<lparr>aer_Term = t, aer_Success = False, aer_NextIndex = k\<rparr>"

text \<open>
  Server 0 takes \<open>a\<close> as leader of term 1, server 1 takes \<open>b\<close> as leader of term 2; neither entry is replicated, and server 0 hears of
  the later term.
\<close>

definition two_proposals :: "string event list" where
  "two_proposals =
     elect5 0 (ask 1 0) 1 0 2 0 @ take_command 0 1 ''a'' @
     elect5 1 (ask 2 1) 3 0 4 0 @ take_command 1 2 ''b'' @
     beat_once 0 3 (appendAfter 1 0 0 0 [entryOf 1 1 ''a'']) (refused 2 0)"

text \<open>
  Server 0, leader again in term 3, brings \<open>a\<close> to the servers 2 and 3 and takes \<open>c\<close>. The answer of server 2 to \<open>c\<close> makes it count, and it commits \<open>a\<close>.
\<close>

definition old_term_commit :: "string event list" where
  "old_term_commit =
     elect5 0 (askLast 3 0 1 1) 2 1 3 2 @
     beat_once 0 2 (appendAfter 3 0 1 1 []) (refused 0 1) @
     beat_once 0 3 (appendAfter 3 0 1 1 []) (refused 0 1) @
     beat_once 0 2 (appendAfter 3 0 0 0 [entryOf 1 1 ''a'']) (accepted 2) @
     beat_once 0 3 (appendAfter 3 0 0 0 [entryOf 1 1 ''a'']) (accepted 2) @
     take_command 0 3 ''c'' @
     beat_once 0 2 (appendAfter 3 0 1 1 [entryOf 3 2 ''c'']) (accepted 3)"

text \<open>
  Server 1 hears of term 3 and wins term 4, as its last entry is of a later term than that of server 3. Its heartbeats move server 0
  to term 4 and cut off its log before \<open>a\<close>.
\<close>

definition cut_off :: "string event list" where
  "cut_off =
     beat_once 1 3 (appendAfter 2 1 0 0 [entryOf 2 1 ''b'']) (refused 3 0) @
     elect5 1 (askLast 4 1 1 2) 3 3 4 2 @
     beat_once 1 0 (appendAfter 4 1 1 2 []) (refused 4 0) @
     beat_once 1 0 (appendAfter 4 1 1 2 []) (refused 0 1)"

definition overwriting_run :: "string event list" where
  "overwriting_run = two_proposals @ old_term_commit @ cut_off"

lemma replicate_5: "replicate 5 x = [x, x, x, x, x]"
  by (simp add: eval_nat_numeral)

lemma upt_5: "[0..<5] = [0, 1, 2, 3, 4]"
  by (simp add: upt_rec)

lemma upto_1_2: "[1..2::int] = [1, 2]"
  by (simp add: upto.simps)

lemmas overwriting_defs = overwriting_run_def two_proposals_def old_term_commit_def cut_off_def elect5_def askLast_def
  take_command_def beat_once_def entryOf_def appendAfter_def refused_def accepted_def
  scenario_defs replication_defs replicate_5 upt_5 upto_1_2

lemma overwriting_run_exec:
  "\<exists>s. crun 5 (0, 0) overwriting_run (cluster0 5) = Some s \<and>
     commitIndex (nodes s 0) = 1 \<and> length (logEntries (nodes s 0)) = 1 \<and> applyRound (nodes s 0) = Inl IndexOutOfRange"
  by (simp add: overwriting_defs)

lemma overwriting_run_benign: "allowed_run benign 5 (0, 0) overwriting_run (cluster0 5)"
  by (simp add: overwriting_defs)

section \<open>Properties\<close>

text \<open>
  C34: the apply goroutine panics. \<open>AppendEntries\<close> cuts off the log without looking at the commit index, and \<open>commitLog\<close> commits entries of older terms by counting copies. Five servers
  reach, by benign steps alone, a state in which a server has committed the entry at index 1, no longer has it, and the next round of
  its apply goroutine indexes out of range.
\<close>

theorem committed_entry_overwritten:
  "\<exists>s :: string Cluster. benign_reach 5 s \<and>
     commitIndex (nodes s 0) = 1 \<and> length (logEntries (nodes s 0)) = 1 \<and> applyRound (nodes s 0) = Inl IndexOutOfRange"
  using overwriting_run_exec run_benign [OF _ overwriting_run_benign] by blast

end
