(* ===== verification/Raft_Timing.thy ===== *)
theory Raft_Timing
  imports Raft_Vote Raft_Entry
begin

text \<open>
  The time that heartbeats take. An RPC of \<open>vote.go\<close> or \<open>entry.go\<close> waits for its answer or for the end of its context; the goroutines of
  \<open>raft.go\<close> send the heartbeats of a round one after the other. Times are in nanoseconds.
\<close>

section \<open>Calls with a timeout\<close>

text \<open>When the call of a peer returns, if it does, and with which result.\<close>

type_synonym callAnswer = "(int \<times> bool) option"

text \<open>The result, and the time that has passed. If both happen at the same time, the context wins.\<close>

definition sendWithContext :: "int \<Rightarrow> callAnswer \<Rightarrow> bool \<times> int" where
  "sendWithContext ctxDone answer =
     (case answer of
        None \<Rightarrow> (False, ctxDone)
      | Some (at, ok) \<Rightarrow> if at < ctxDone then (ok, at) else (False, ctxDone))"

text \<open>Both functions ignore their argument and use \<open>RPCTimeout\<close>.\<close>

definition sendRequestVoteWithTimeout :: "int \<Rightarrow> callAnswer \<Rightarrow> bool \<times> int" where
  "sendRequestVoteWithTimeout timeout answer = sendWithContext RPCTimeout answer"

definition sendAppendEntriesWithTimeout :: "int \<Rightarrow> callAnswer \<Rightarrow> bool \<times> int" where
  "sendAppendEntriesWithTimeout timeout answer = sendWithContext RPCTimeout answer"

section \<open>Rounds\<close>

text \<open>
  \<open>SendHeartbeat\<close> sleeps for ten to twenty microseconds and, unless the peer is the server itself, calls it. Each
  turn is given by the random number and the answer.
\<close>

definition heartbeatTime :: "int \<Rightarrow> int \<Rightarrow> int \<times> callAnswer \<Rightarrow> int res" where
  "heartbeatTime self server turn =
     rbind (randTimeout (fst turn) (10 * 1000)) (\<lambda>d.
       if self = server then Inr d
       else Inr (d + snd (sendAppendEntriesWithTimeout RPCTimeout (snd turn))))"

fun roundTime :: "int \<Rightarrow> int \<Rightarrow> (int \<times> callAnswer) list \<Rightarrow> int res" where
  "roundTime self i [] = Inr 0"
| "roundTime self i (turn # turns) =
     rbind (heartbeatTime self i turn) (\<lambda>t. rbind (roundTime self (i + 1) turns) (\<lambda>r. Inr (t + r)))"

text \<open>
  The heartbeat of a turn arrives after the sleep and the time \<open>x\<close> that its delivery takes. \<open>heartbeatGap\<close> is the time from the arrival of the heartbeat at peer \<open>i\<close>
  in one round to its arrival in the next: the rest of the first round, the pause, the turns before \<open>i\<close> in the next round, and the sleep and delivery of the second heartbeat.
\<close>

definition heartbeatArrival :: "int \<Rightarrow> int \<times> callAnswer \<Rightarrow> int res" where
  "heartbeatArrival x turn = rbind (randTimeout (fst turn) (10 * 1000)) (\<lambda>d. Inr (d + x))"

definition heartbeatGap :: "int \<Rightarrow> nat \<Rightarrow> int \<Rightarrow> int \<Rightarrow> (int \<times> callAnswer) list \<Rightarrow> (int \<times> callAnswer) list \<Rightarrow> int res" where
  "heartbeatGap self i x y round nextRound =
     rbind (heartbeatArrival x (round ! i)) (\<lambda>first.
     rbind (roundTime self (int i) (drop i round)) (\<lambda>a.
     rbind (roundTime self 0 (take i nextRound)) (\<lambda>b.
     rbind (heartbeatArrival y (nextRound ! i)) (\<lambda>second.
       Inr (a - first + HeartbeatInterval + b + second)))))"

text \<open>The election goroutine: an election, and at once a round of heartbeats if it was won.\<close>

definition electionRound :: "env \<Rightarrow> RequestVoteReply option list \<Rightarrow> (int \<Rightarrow> 'c AppendEntriesArgs \<Rightarrow> AppendEntriesReply option)
    \<Rightarrow> 'c Raft \<Rightarrow> 'c Raft res" where
  "electionRound env replies net rf =
     rbind (startElection env replies rf) (\<lambda>(rf, succ).
       if succ then heartbeatRound env net rf else electionFailed env rf)"

section \<open>Bounds\<close>

definition slow :: "int \<times> callAnswer \<Rightarrow> bool" where
  "slow turn \<longleftrightarrow> (case snd turn of None \<Rightarrow> True | Some (at, ok) \<Rightarrow> RPCTimeout \<le> at)"

definition within :: "int \<Rightarrow> int \<times> callAnswer \<Rightarrow> bool" where
  "within a turn \<longleftrightarrow> (case snd turn of None \<Rightarrow> False | Some (at, ok) \<Rightarrow> at \<le> a)"

definition possible :: "int \<times> callAnswer \<Rightarrow> bool" where
  "possible turn \<longleftrightarrow> 0 \<le> fst turn \<and> (case snd turn of None \<Rightarrow> True | Some (at, ok) \<Rightarrow> 0 \<le> at)"

text \<open>The slow peers of a round that starts with peer \<open>i\<close>.\<close>

fun slowPeers :: "int \<Rightarrow> int \<Rightarrow> (int \<times> callAnswer) list \<Rightarrow> nat" where
  "slowPeers self i [] = 0"
| "slowPeers self i (turn # turns) =
     (if self \<noteq> i \<and> slow turn then 1 else 0) + slowPeers self (i + 1) turns"

lemma heartbeatTime_bounds:
  assumes "possible turn"
  obtains t where "heartbeatTime self i turn = Inr t"
    "10 * 1000 + (if self \<noteq> i \<and> slow turn then RPCTimeout else 0) \<le> t"
    "t \<le> 20 * 1000 + (if self = i then 0 else RPCTimeout)"
    "\<forall>a \<ge> 0. within a turn \<longrightarrow> t \<le> 20 * 1000 + a"
proof -
  obtain d where d: "randTimeout (fst turn) (10 * 1000) = Inr d" "10 * 1000 \<le> d" "d < 20 * 1000"
    using randTimeout_bounds [of "10 * 1000" "fst turn"] assms by (auto simp: possible_def)
  let ?t = "if self = i then d else d + snd (sendAppendEntriesWithTimeout RPCTimeout (snd turn))"
  have "heartbeatTime self i turn = Inr ?t" using d(1) by (simp add: heartbeatTime_def)
  then show thesis
    by (rule that)
      (use d assms in \<open>auto simp: sendAppendEntriesWithTimeout_def sendWithContext_def slow_def within_def possible_def
         RPCTimeout_def split: option.splits\<close>)
qed

lemma roundTime_bounds:
  assumes "\<forall>turn \<in> set turns. possible turn"
  shows "\<exists>t. roundTime self i turns = Inr t \<and> int (slowPeers self i turns) * RPCTimeout \<le> t \<and>
    (\<forall>a \<ge> 0. (\<forall>turn \<in> set turns. slow turn \<or> within a turn) \<longrightarrow>
       t \<le> int (slowPeers self i turns) * RPCTimeout + int (length turns) * (20 * 1000 + a))"
  using assms
proof (induction turns arbitrary: i)
  case (Cons turn turns)
  from Cons.prems have "possible turn" by simp
  then obtain t where t: "heartbeatTime self i turn = Inr t"
    "10 * 1000 + (if self \<noteq> i \<and> slow turn then RPCTimeout else 0) \<le> t"
    "t \<le> 20 * 1000 + (if self = i then 0 else RPCTimeout)"
    "\<forall>a \<ge> 0. within a turn \<longrightarrow> t \<le> 20 * 1000 + a"
    by (rule heartbeatTime_bounds)
  from Cons.IH [of "i + 1"] Cons.prems obtain r where r: "roundTime self (i + 1) turns = Inr r"
    "int (slowPeers self (i + 1) turns) * RPCTimeout \<le> r"
    "\<forall>a \<ge> 0. (\<forall>turn \<in> set turns. slow turn \<or> within a turn) \<longrightarrow>
       r \<le> int (slowPeers self (i + 1) turns) * RPCTimeout + int (length turns) * (20 * 1000 + a)"
    by auto
  have up: "t + r \<le> int (slowPeers self i (turn # turns)) * RPCTimeout + int (length (turn # turns)) * (20 * 1000 + a)"
    if a: "0 \<le> a" "\<forall>x \<in> set (turn # turns). slow x \<or> within a x" for a
  proof -
    have "t \<le> (if self \<noteq> i \<and> slow turn then RPCTimeout else 0) + (20 * 1000 + a)"
      using a t(3,4) by (auto split: if_splits)
    moreover have "r \<le> int (slowPeers self (i + 1) turns) * RPCTimeout + int (length turns) * (20 * 1000 + a)"
      using r(3) a by simp
    ultimately show ?thesis by (auto simp: algebra_simps split: if_splits)
  qed
  have low: "int (slowPeers self i (turn # turns)) * RPCTimeout \<le> t + r"
    using t(2) r(2) by (auto simp: algebra_simps split: if_splits)
  from t(1) r(1) low up show ?case by (intro exI [of _ "t + r"]) simp
qed simp

lemma roundTime_append:
  "roundTime self i (xs @ ys) =
     rbind (roundTime self i xs) (\<lambda>a. rbind (roundTime self (i + int (length xs)) ys) (\<lambda>b. Inr (a + b)))"
proof (induction xs arbitrary: i)
  case Nil
  then show ?case by (cases "roundTime self i ys") simp_all
next
  case (Cons x xs)
  then show ?case
    by (cases "heartbeatTime self i x"; cases "roundTime self (i + 1) xs";
        cases "roundTime self (i + 1 + int (length xs)) ys") (simp_all add: add.assoc add.commute [of 1])
qed

lemma heartbeatArrival_bounds:
  assumes "possible turn"
  obtains t where "heartbeatArrival x turn = Inr t" "10 * 1000 + x \<le> t" "t < 20 * 1000 + x"
  using randTimeout_bounds [of "10 * 1000" "fst turn"] assms by (auto simp: possible_def heartbeatArrival_def)

lemma heartbeatGap_bounds:
  assumes "i < length A" "length B = length A" "\<forall>turn \<in> set A \<union> set B. possible turn"
    and "roundTime self 0 (take i B @ drop i A) = Inr t"
  obtains gap where "heartbeatGap self i x y A B = Inr gap"
    "HeartbeatInterval + t + (y - x) - 10 * 1000 < gap" "gap < HeartbeatInterval + t + (y - x) + 10 * 1000"
proof -
  from assms obtain b a where ab: "roundTime self 0 (take i B) = Inr b" "roundTime self (int i) (drop i A) = Inr a" "t = b + a"
    by (cases "roundTime self 0 (take i B)"; cases "roundTime self (int i) (drop i A)")
       (auto simp: roundTime_append min_absorb2)
  have "possible (A ! i)" "possible (B ! i)" using assms(1-3) by simp_all
  then obtain e e' where e: "heartbeatArrival x (A ! i) = Inr e" "10 * 1000 + x \<le> e" "e < 20 * 1000 + x"
    and e': "heartbeatArrival y (B ! i) = Inr e'" "10 * 1000 + y \<le> e'" "e' < 20 * 1000 + y"
    by (metis heartbeatArrival_bounds)
  have "heartbeatGap self i x y A B = Inr (a - e + HeartbeatInterval + b + e')"
    by (simp add: heartbeatGap_def ab e(1) e'(1))
  then show thesis by (rule that) (use ab(3) e e' in linarith)+
qed

lemma resetTimer_when:
  assumes "0 \<le> rnd"
  shows "\<exists>running tm'. resetTimer (now, rnd) tm ElectionTimeout = Inr (running, tm') \<and>
    tm_when tm' = now + ElectionTimeout + rnd mod ElectionTimeout"
  using assms by (auto simp: resetTimer_def timerStop_def timerReset_def randTimeout_def go_rem_nonneg)

section \<open>The election goroutine\<close>

text \<open>After an election that was not won the server is a follower with the term and the vote it had, and its timer runs again.\<close>

lemma electionRound_lost:
  assumes "startElection env replies rf = Inr (rf', False)"
  shows "electionRound env replies net rf =
    Inr (rf'\<lparr>role := Follower, electionTimer := rearmed env (electionTimer rf')\<rparr>)"
  using assms by (simp add: electionRound_def electionFailed_def)

section \<open>Properties\<close>

text \<open>
  C27: heartbeats and election timers. Let the arrival of a heartbeat reset a follower's election timer, and let heartbeats reach this follower within four milliseconds. If at most two of
  up to nine peers do not answer before the RPC timeout and all others answer within four milliseconds, the next heartbeat arrives before the timer expires, whatever its random part. If three peers do not
  answer before the timeout, the sends that wait for them take longer than the timer, if its random part is below 145 milliseconds: the follower starts an
  election although the leader is alive.
\<close>

theorem heartbeat_gap_bounds:
  assumes len: "length A = n" "length B = n" "i < n" and ok: "\<forall>turn \<in> set A \<union> set B. possible turn" and rnd: "0 \<le> rnd"
    and x: "0 \<le> x" "x \<le> 4 * 1000000" and y: "0 \<le> y" "y \<le> 4 * 1000000"
  shows "\<exists>gap running tm'. heartbeatGap self i x y A B = Inr gap \<and>
     resetTimer (now, rnd) tm ElectionTimeout = Inr (running, tm') \<and>
     (slowPeers self 0 (take i B @ drop i A) \<le> 2 \<and> n \<le> 9 \<and>
        (\<forall>turn \<in> set (take i B @ drop i A). slow turn \<or> within (4 * 1000000) turn) \<longrightarrow> now + gap < tm_when tm') \<and>
     (3 \<le> slowPeers self 0 (take i B @ drop i A) \<and> rnd mod ElectionTimeout < 145 * 1000000 \<longrightarrow> tm_when tm' < now + gap)"
proof -
  let ?C = "take i B @ drop i A"
  have "\<forall>turn \<in> set ?C. possible turn" using ok by (auto dest: in_set_takeD in_set_dropD)
  from roundTime_bounds [OF this, of self 0] obtain t where t: "roundTime self 0 ?C = Inr t"
    "int (slowPeers self 0 ?C) * RPCTimeout \<le> t"
    "\<forall>a \<ge> 0. (\<forall>turn \<in> set ?C. slow turn \<or> within a turn) \<longrightarrow>
       t \<le> int (slowPeers self 0 ?C) * RPCTimeout + int (length ?C) * (20 * 1000 + a)"
    by blast
  have AB: "i < length A" "length B = length A" using len by simp_all
  obtain gap where gap: "heartbeatGap self i x y A B = Inr gap"
    "HeartbeatInterval + t + (y - x) - 10 * 1000 < gap" "gap < HeartbeatInterval + t + (y - x) + 10 * 1000"
    by (rule heartbeatGap_bounds [OF AB ok t(1)])
  obtain running tm' where tm: "resetTimer (now, rnd) tm ElectionTimeout = Inr (running, tm')"
    "tm_when tm' = now + ElectionTimeout + rnd mod ElectionTimeout"
    using resetTimer_when [OF rnd] by blast
  have r: "0 \<le> rnd mod ElectionTimeout" by (simp add: ElectionTimeout_def)
  have up: "now + gap < tm_when tm'"
    if "slowPeers self 0 ?C \<le> 2" "n \<le> 9" "\<forall>turn \<in> set ?C. slow turn \<or> within (4 * 1000000) turn"
  proof -
    have "t \<le> int (slowPeers self 0 ?C) * RPCTimeout + int (length ?C) * (20 * 1000 + 4 * 1000000)"
      by (rule t(3) [rule_format]) (simp, use that(3) in blast)
    moreover have "int (slowPeers self 0 ?C) * RPCTimeout \<le> 2 * RPCTimeout"
      using that(1) by (intro mult_right_mono) (simp_all add: RPCTimeout_def)
    moreover have "length ?C = n" using len by simp
    ultimately show ?thesis
      using that(2) gap(3) tm(2) r x y by (simp add: ElectionTimeout_def RPCTimeout_def HeartbeatInterval_def)
  qed
  have low: "tm_when tm' < now + gap"
    if "3 \<le> slowPeers self 0 ?C" "rnd mod ElectionTimeout < 145 * 1000000"
  proof -
    have "3 * RPCTimeout \<le> int (slowPeers self 0 ?C) * RPCTimeout"
      using that(1) by (intro mult_right_mono) (simp_all add: RPCTimeout_def)
    with t(2) gap(2) tm(2) that(2) x y show ?thesis by (simp add: ElectionTimeout_def RPCTimeout_def HeartbeatInterval_def)
  qed
  from gap(1) tm(1) up low show ?thesis by (intro exI [of _ gap] exI [of _ running] exI [of _ tm']) simp
qed

text \<open>Seven servers, three of which do not answer.\<close>

theorem heartbeat_gap_bounds_witness:
  "\<exists>gap running tm'. heartbeatGap 0 6 500 700 ([(0, None)] @ replicate 3 (0, None) @ replicate 3 (0, Some (1000, True)))
       ([(0, None)] @ replicate 3 (0, None) @ replicate 3 (0, Some (1000, True))) = Inr gap \<and>
     resetTimer (7, 0) \<lparr>tm_active = True, tm_fired = False, tm_when = 0\<rparr> ElectionTimeout = Inr (running, tm') \<and>
     tm_when tm' < 7 + gap"
proof -
  let ?A = "[(0, None)] @ replicate 3 (0, None) @ replicate 3 (0, Some (1000, True)) :: (int \<times> callAnswer) list"
  have "3 \<le> slowPeers 0 0 (take 6 ?A @ drop 6 ?A)" by (simp add: numeral_eq_Suc slow_def RPCTimeout_def)
  with heartbeat_gap_bounds [of ?A 7 ?A 6 0 500 700 0 7 "\<lparr>tm_active = True, tm_fired = False, tm_when = 0\<rparr>"]
  show ?thesis by (auto simp: possible_def simp del: append_take_drop_id)
qed

end
