(* ===== verification/Lab_RPC.thy ===== *)
theory Lab_RPC
  imports Prelude "HOL-Library.Word"
begin

text \<open>
  \<open>labrpc/labrpc.go\<close>: the simulated network. Clients send requests through named ends; the network looks up the
  server an end is connected to, runs the handler in a goroutine of its own and passes the reply
  back, or reports a failure when it drops a message, when the end is disabled or when the server has been
  deleted. Names of ends and servers (\<open>interface{}\<close> in Go) are types \<open>'e\<close> and \<open>'s\<close>; a pointer to a \<open>Server\<close> is a number;
  \<open>'st\<close> is the state of the objects whose methods are called.
\<close>

section \<open>Messages, services and servers\<close>

record 'e reqMsg =
  rq_endname :: 'e
  rq_svcMeth :: string
  rq_args :: string

record replyMsg =
  rp_ok :: bool
  rp_reply :: string

abbreviation failure :: replyMsg where
  "failure \<equiv> \<lparr>rp_ok = False, rp_reply = []\<rparr>"

text \<open>
  What \<open>MakeService\<close> reads of a method by reflection, and its effect: decode the arguments, call, encode the reply.
\<close>

record 'st rpcMethod =
  m_name :: string
  m_PkgPath :: string
  m_NumIn :: nat
  m_replyIsPtr :: bool
  m_NumOut :: nat
  m_Func :: "string \<Rightarrow> 'st \<Rightarrow> ('st \<times> string) res"

record 'st Service =
  svc_name :: string
  svc_methods :: "string \<rightharpoonup> (string \<Rightarrow> 'st \<Rightarrow> ('st \<times> string) res)"

record 'st Server =
  services :: "string \<rightharpoonup> 'st Service"
  srv_count :: int

definition suitable :: "'st rpcMethod \<Rightarrow> bool" where
  "suitable m \<longleftrightarrow> \<not> (m_PkgPath m \<noteq> '''' \<or> m_NumIn m \<noteq> 3 \<or> \<not> m_replyIsPtr m \<or> m_NumOut m \<noteq> 0)"

definition MakeService :: "string \<Rightarrow> 'st rpcMethod list \<Rightarrow> 'st Service" where
  "MakeService name ms =
     \<lparr>svc_name = name,
      svc_methods = fold (\<lambda>m f. if suitable m then f(m_name m \<mapsto> m_Func m) else f) ms Map.empty\<rparr>"

definition MakeServer :: "'st Server" where
  "MakeServer = \<lparr>services = Map.empty, srv_count = 0\<rparr>"

definition AddService :: "'st Service \<Rightarrow> 'st Server \<Rightarrow> 'st Server" where
  "AddService svc rs = rs\<lparr>services := (services rs)(svc_name svc \<mapsto> svc)\<rparr>"

definition svcDispatch :: "'st Service \<Rightarrow> string \<Rightarrow> 'e reqMsg \<Rightarrow> 'st \<Rightarrow> ('st \<times> replyMsg) res" where
  "svcDispatch svc methname req st =
     (case svc_methods svc methname of
        Some rpcMethod \<Rightarrow>
          rbind (rpcMethod (rq_args req) st) (\<lambda>(st, reply). Inr (st, \<lparr>rp_ok = True, rp_reply = reply\<rparr>))
      | None \<Rightarrow> Inl LogFatal)"

text \<open>\<open>strings.LastIndex\<close> of a single character: \<open>-1\<close> if there is none.\<close>

fun lastIndex :: "char \<Rightarrow> string \<Rightarrow> int" where
  "lastIndex c [] = -1"
| "lastIndex c (x # xs) =
     (let i = lastIndex c xs in if i \<ge> 0 then i + 1 else if x = c then 0 else -1)"

definition srvDispatch :: "'e reqMsg \<Rightarrow> 'st Server \<Rightarrow> 'st \<Rightarrow> 'st Server \<times> ('st \<times> replyMsg) res" where
  "srvDispatch req rs st =
     (let rs = rs\<lparr>srv_count := srv_count rs + 1\<rparr>;
          dot = lastIndex (CHR ''.'') (rq_svcMeth req)
      in (rs,
          rbind (slice_to (rq_svcMeth req) dot) (\<lambda>serviceName.
          rbind (slice_from (rq_svcMeth req) (dot + 1)) (\<lambda>methodName.
            case services rs serviceName of
              Some service \<Rightarrow> svcDispatch service methodName req st
            | None \<Rightarrow> Inl LogFatal))))"

section \<open>The network\<close>

record ('e, 's) Network =
  reliable :: bool
  longDelays :: bool
  longReordering :: bool
  ends :: "'e set"
  enabled :: "'e \<rightharpoonup> bool"
  servers :: "'s \<rightharpoonup> nat"
  connections :: "'e \<rightharpoonup> 's"
  rpcCount :: "32 word"
  rpcBytes :: "64 word"
  netDone :: bool

definition MakeNetwork :: "('e, 's) Network" where
  "MakeNetwork =
     \<lparr>reliable = True, longDelays = False, longReordering = False, ends = {}, enabled = Map.empty,
      servers = Map.empty, connections = Map.empty, rpcCount = 0, rpcBytes = 0, netDone = False\<rparr>"

definition Reliable :: "bool \<Rightarrow> ('e, 's) Network \<Rightarrow> ('e, 's) Network" where
  "Reliable yes rn = rn\<lparr>reliable := yes\<rparr>"

definition LongReordering :: "bool \<Rightarrow> ('e, 's) Network \<Rightarrow> ('e, 's) Network" where
  "LongReordering yes rn = rn\<lparr>longReordering := yes\<rparr>"

definition LongDelays :: "bool \<Rightarrow> ('e, 's) Network \<Rightarrow> ('e, 's) Network" where
  "LongDelays yes rn = rn\<lparr>longDelays := yes\<rparr>"

definition Cleanup :: "('e, 's) Network \<Rightarrow> ('e, 's) Network res" where
  "Cleanup rn = (if netDone rn then Inl CloseOfClosedChannel else Inr (rn\<lparr>netDone := True\<rparr>))"

definition MakeEnd :: "'e \<Rightarrow> ('e, 's) Network \<Rightarrow> ('e, 's) Network res" where
  "MakeEnd endname rn =
     (if endname \<in> ends rn then Inl LogFatal
      else Inr (rn\<lparr>ends := insert endname (ends rn), enabled := (enabled rn)(endname \<mapsto> False),
                   connections := (connections rn)(endname := None)\<rparr>))"

definition AddServer :: "'s \<Rightarrow> nat \<Rightarrow> ('e, 's) Network \<Rightarrow> ('e, 's) Network" where
  "AddServer servername rs rn = rn\<lparr>servers := (servers rn)(servername \<mapsto> rs)\<rparr>"

definition DeleteServer :: "'s \<Rightarrow> ('e, 's) Network \<Rightarrow> ('e, 's) Network" where
  "DeleteServer servername rn = rn\<lparr>servers := (servers rn)(servername := None)\<rparr>"

definition Connect :: "'e \<Rightarrow> 's \<Rightarrow> ('e, 's) Network \<Rightarrow> ('e, 's) Network" where
  "Connect endname servername rn = rn\<lparr>connections := (connections rn)(endname \<mapsto> servername)\<rparr>"

definition Enable :: "'e \<Rightarrow> bool \<Rightarrow> ('e, 's) Network \<Rightarrow> ('e, 's) Network" where
  "Enable endname b rn = rn\<lparr>enabled := (enabled rn)(endname \<mapsto> b)\<rparr>"

definition srv_GetCount :: "'st Server \<Rightarrow> int" where
  "srv_GetCount rs = srv_count rs"

definition GetCount :: "(nat \<Rightarrow> 'st Server) \<Rightarrow> 's \<Rightarrow> ('e, 's) Network \<Rightarrow> int res" where
  "GetCount heap servername rn =
     (case servers rn servername of None \<Rightarrow> Inl NilDereference | Some p \<Rightarrow> Inr (srv_GetCount (heap p)))"

definition GetTotalCount :: "('e, 's) Network \<Rightarrow> int" where
  "GetTotalCount rn = sint (rpcCount rn)"

definition GetTotalBytes :: "('e, 's) Network \<Rightarrow> int" where
  "GetTotalBytes rn = sint (rpcBytes rn)"

text \<open>A missing entry of \<open>enabled\<close> reads as \<open>false\<close>.\<close>

definition isEnabled :: "'e \<Rightarrow> ('e, 's) Network \<Rightarrow> bool" where
  "isEnabled endname rn = (case enabled rn endname of Some b \<Rightarrow> b | None \<Rightarrow> False)"

definition readEndnameInfo :: "'e \<Rightarrow> ('e, 's) Network \<Rightarrow> bool \<times> 's option \<times> nat option \<times> bool \<times> bool" where
  "readEndnameInfo endname rn =
     (let servername = connections rn endname
      in (isEnabled endname rn, servername,
          case servername of None \<Rightarrow> None | Some s \<Rightarrow> servers rn s,
          reliable rn, longReordering rn))"

definition isServerDead :: "'e \<Rightarrow> 's \<Rightarrow> nat \<Rightarrow> ('e, 's) Network \<Rightarrow> bool" where
  "isServerDead endname servername server rn \<longleftrightarrow>
     \<not> isEnabled endname rn \<or> servers rn servername \<noteq> Some server"

section \<open>One request\<close>

text \<open>
  \<open>processReq\<close> between the points where it waits or takes the lock: \<open>Arrived\<close> before it looks up the end,
  \<open>Admitted\<close> once a server was found (with the pointer and the two settings as they were read), \<open>Waiting\<close> in the loop that
  waits for the handler, \<open>Judging\<close> after the loop, with the reply if there was one, \<open>Delayed\<close> when
  the answer waits for a timer, \<open>Replied\<close> when it has been sent to the caller.
\<close>

datatype 's stage =
    Arrived
  | Admitted 's nat bool bool
  | Waiting 's nat bool bool
  | Judging 's nat bool bool "replyMsg option"
  | Delayed replyMsg
  | Replied replyMsg

text \<open>The goroutine that runs the handler: not there yet, running on a server, or with its reply in the channel \<open>ech\<close>.\<close>

datatype handler = NotStarted | Running nat | HandlerDone replyMsg

definition processStart :: "'e reqMsg \<Rightarrow> ('e, 's) Network \<Rightarrow> 's stage" where
  "processStart req rn =
     (case readEndnameInfo (rq_endname req) rn of
        (en, Some servername, Some server, rel, longreordering) \<Rightarrow>
          if en then Admitted servername server rel longreordering else Delayed failure
      | _ \<Rightarrow> Delayed failure)"

definition processAdmitted :: "nat \<Rightarrow> 's \<Rightarrow> nat \<Rightarrow> bool \<Rightarrow> bool \<Rightarrow> 's stage \<times> handler" where
  "processAdmitted rnd servername server rel lr =
     (if \<not> rel \<and> rnd mod 1000 < 100 then (Replied failure, NotStarted)
      else (Waiting servername server rel lr, Running server))"

definition processTick :: "'e reqMsg \<Rightarrow> ('e, 's) Network \<Rightarrow> 's \<Rightarrow> nat \<Rightarrow> bool \<Rightarrow> bool \<Rightarrow> 's stage" where
  "processTick req rn servername server rel lr =
     (if isServerDead (rq_endname req) servername server rn
      then Judging servername server rel lr None else Waiting servername server rel lr)"

text \<open>The decision after the loop; \<open>r1\<close> and \<open>r2\<close> are the random numbers for dropping and for delaying the reply.\<close>

definition processJudge :: "nat \<Rightarrow> nat \<Rightarrow> 'e reqMsg \<Rightarrow> 's \<Rightarrow> nat \<Rightarrow> bool \<Rightarrow> bool \<Rightarrow> replyMsg option
    \<Rightarrow> ('e, 's) Network \<Rightarrow> ('e, 's) Network \<times> 's stage" where
  "processJudge r1 r2 req servername server rel lr reply rn =
     (let serverDead = isServerDead (rq_endname req) servername server rn
      in case reply of
           None \<Rightarrow> (rn, Replied failure)
         | Some reply \<Rightarrow>
             if serverDead then (rn, Replied failure)
             else if \<not> rel \<and> r1 mod 1000 < 100 then (rn, Replied failure)
             else if lr \<and> r2 mod 900 < 600 then (rn, Delayed reply)
             else (rn\<lparr>rpcBytes := rpcBytes rn + of_nat (length (rp_reply reply))\<rparr>, Replied reply))"

definition processTimer :: "replyMsg \<Rightarrow> ('e, 's) Network \<Rightarrow> ('e, 's) Network \<times> 's stage" where
  "processTimer reply rn =
     ((if rp_ok reply then rn\<lparr>rpcBytes := rpcBytes rn + of_nat (length (rp_reply reply))\<rparr> else rn),
      Replied reply)"

section \<open>The system\<close>

text \<open>\<open>execs\<close> counts how often the handler of the request has run; no step reads it.\<close>

record ('e, 's) request =
  rq_msg :: "'e reqMsg"
  rq_stage :: "'s stage"
  rq_handler :: handler
  execs :: nat

record ('e, 's, 'st) World =
  net :: "('e, 's) Network"
  heap :: "nat \<Rightarrow> 'st Server"
  objs :: 'st
  requests :: "('e, 's) request list"
  halted :: bool

datatype ('e, 's) admin =
    ReliableA bool
  | LongReorderingA bool
  | LongDelaysA bool
  | MakeEndA 'e
  | AddServerA 's nat
  | DeleteServerA 's
  | ConnectA 'e 's
  | EnableA 'e bool

fun administer :: "('e, 's) admin \<Rightarrow> ('e, 's) Network \<Rightarrow> ('e, 's) Network res" where
  "administer (ReliableA b) rn = Inr (Reliable b rn)"
| "administer (LongReorderingA b) rn = Inr (LongReordering b rn)"
| "administer (LongDelaysA b) rn = Inr (LongDelays b rn)"
| "administer (MakeEndA e) rn = MakeEnd e rn"
| "administer (AddServerA s p) rn = Inr (AddServer s p rn)"
| "administer (DeleteServerA s) rn = Inr (DeleteServer s rn)"
| "administer (ConnectA e s) rn = Inr (Connect e s rn)"
| "administer (EnableA e b) rn = Inr (Enable e b rn)"

datatype ('e, 's) nevent =
    CallEv "'e reqMsg"
  | StartEv nat
  | AdmitEv nat nat
  | HandleEv nat
  | TickEvent nat
  | ReceiveEv nat
  | JudgeEv nat nat nat
  | TimerEv nat
  | AdminEv "('e, 's) admin"

abbreviation set_request :: "nat \<Rightarrow> ('e, 's) request \<Rightarrow> ('e, 's, 'st) World \<Rightarrow> ('e, 's, 'st) World" where
  "set_request i r w \<equiv> w\<lparr>requests := (requests w)[i := r]\<rparr>"

text \<open>\<open>ClientEnd.Call\<close> up to its wait for the reply, with the accounting of the network's goroutine.\<close>

definition callSend :: "'e reqMsg \<Rightarrow> ('e, 's, 'st) World \<Rightarrow> ('e, 's, 'st) World option" where
  "callSend req w =
     (if netDone (net w) then None
      else Some (w\<lparr>net := (net w)\<lparr>rpcCount := rpcCount (net w) + 1,
                              rpcBytes := rpcBytes (net w) + of_nat (length (rq_args req))\<rparr>,
                   requests := requests w @
                     [\<lparr>rq_msg = req, rq_stage = Arrived, rq_handler = NotStarted, execs = 0\<rparr>]\<rparr>))"

text \<open>The rest of \<open>ClientEnd.Call\<close>, when the reply is there: what it returns and what it leaves in \<open>reply\<close>. \<open>decode\<close> is that of \<open>labgob\<close>.\<close>

definition callResult :: "(string \<Rightarrow> 'a option) \<Rightarrow> replyMsg \<Rightarrow> 'a \<Rightarrow> (bool \<times> 'a) res" where
  "callResult decode rep reply =
     (if rp_ok rep
      then (case decode (rp_reply rep) of None \<Rightarrow> Inl LogFatal | Some v \<Rightarrow> Inr (True, v))
      else Inr (False, reply))"

inductive nstep :: "('e, 's, 'st) World \<Rightarrow> ('e, 's) nevent \<Rightarrow> ('e, 's, 'st) World \<Rightarrow> bool" where
  call: "\<not> halted w \<Longrightarrow> callSend req w = Some w' \<Longrightarrow> nstep w (CallEv req) w'"
| start: "\<not> halted w \<Longrightarrow> i < length (requests w) \<Longrightarrow> requests w ! i = r \<Longrightarrow> rq_stage r = Arrived \<Longrightarrow>
    nstep w (StartEv i) (set_request i (r\<lparr>rq_stage := processStart (rq_msg r) (net w)\<rparr>) w)"
| admit: "\<not> halted w \<Longrightarrow> i < length (requests w) \<Longrightarrow> requests w ! i = r \<Longrightarrow> rq_stage r = Admitted s p rel lr \<Longrightarrow>
    processAdmitted rnd s p rel lr = (stage, h) \<Longrightarrow>
    nstep w (AdmitEv i rnd) (set_request i (r\<lparr>rq_stage := stage, rq_handler := h\<rparr>) w)"
| handle: "\<not> halted w \<Longrightarrow> i < length (requests w) \<Longrightarrow> requests w ! i = r \<Longrightarrow> rq_handler r = Running p \<Longrightarrow>
    srvDispatch (rq_msg r) (heap w p) (objs w) = (srv, Inr (st, reply)) \<Longrightarrow>
    nstep w (HandleEv i)
      (set_request i (r\<lparr>rq_handler := HandlerDone reply, execs := execs r + 1\<rparr>)
         (w\<lparr>heap := (heap w)(p := srv), objs := st\<rparr>))"
| handle_fatal: "\<not> halted w \<Longrightarrow> i < length (requests w) \<Longrightarrow> requests w ! i = r \<Longrightarrow> rq_handler r = Running p \<Longrightarrow>
    srvDispatch (rq_msg r) (heap w p) (objs w) = (srv, Inl e) \<Longrightarrow>
    nstep w (HandleEv i) (w\<lparr>halted := True\<rparr>)"
| tick: "\<not> halted w \<Longrightarrow> i < length (requests w) \<Longrightarrow> requests w ! i = r \<Longrightarrow> rq_stage r = Waiting s p rel lr \<Longrightarrow>
    nstep w (TickEvent i) (set_request i (r\<lparr>rq_stage := processTick (rq_msg r) (net w) s p rel lr\<rparr>) w)"
| receive: "\<not> halted w \<Longrightarrow> i < length (requests w) \<Longrightarrow> requests w ! i = r \<Longrightarrow> rq_stage r = Waiting s p rel lr \<Longrightarrow>
    rq_handler r = HandlerDone reply \<Longrightarrow>
    nstep w (ReceiveEv i) (set_request i (r\<lparr>rq_stage := Judging s p rel lr (Some reply)\<rparr>) w)"
| judge: "\<not> halted w \<Longrightarrow> i < length (requests w) \<Longrightarrow> requests w ! i = r \<Longrightarrow> rq_stage r = Judging s p rel lr reply \<Longrightarrow>
    processJudge r1 r2 (rq_msg r) s p rel lr reply (net w) = (rn, stage) \<Longrightarrow>
    nstep w (JudgeEv i r1 r2) (set_request i (r\<lparr>rq_stage := stage\<rparr>) (w\<lparr>net := rn\<rparr>))"
| timer: "\<not> halted w \<Longrightarrow> i < length (requests w) \<Longrightarrow> requests w ! i = r \<Longrightarrow> rq_stage r = Delayed reply \<Longrightarrow>
    processTimer reply (net w) = (rn, stage) \<Longrightarrow>
    nstep w (TimerEv i) (set_request i (r\<lparr>rq_stage := stage\<rparr>) (w\<lparr>net := rn\<rparr>))"
| admin: "\<not> halted w \<Longrightarrow> administer a (net w) = Inr rn \<Longrightarrow> nstep w (AdminEv a) (w\<lparr>net := rn\<rparr>)"

inductive_cases nstepE: "nstep w e w'"

definition net_init :: "('e, 's, 'st) World \<Rightarrow> bool" where
  "net_init w \<longleftrightarrow> net w = MakeNetwork \<and> requests w = [] \<and> \<not> halted w"

section \<open>Invariants\<close>

definition executed :: "('e, 's) request \<Rightarrow> replyMsg \<Rightarrow> bool" where
  "executed r reply \<longleftrightarrow> rq_handler r = HandlerDone reply"

definition request_ok :: "('e, 's) request \<Rightarrow> bool" where
  "request_ok r \<longleftrightarrow>
     execs r = (case rq_handler r of HandlerDone _ \<Rightarrow> 1 | _ \<Rightarrow> 0) \<and>
     (case rq_stage r of
        Arrived \<Rightarrow> rq_handler r = NotStarted
      | Admitted _ _ _ _ \<Rightarrow> rq_handler r = NotStarted
      | Waiting _ p _ _ \<Rightarrow> rq_handler r \<noteq> NotStarted
      | Judging _ _ _ _ reply \<Rightarrow> (\<forall>a. reply = Some a \<longrightarrow> executed r a)
      | Delayed a \<Rightarrow> rp_ok a \<longrightarrow> executed r a
      | Replied a \<Rightarrow> rp_ok a \<longrightarrow> executed r a)"

definition requests_ok :: "('e, 's, 'st) World \<Rightarrow> bool" where
  "requests_ok w \<longleftrightarrow> (\<forall>r \<in> set (requests w). request_ok r)"

lemma requests_ok_update:
  assumes "requests_ok w" "request_ok r" "requests w' = (requests w)[i := r]"
  shows "requests_ok w'"
  using assms set_update_subset_insert [of "requests w" i r] by (auto simp: requests_ok_def)

lemma requests_ok_nth: "requests_ok w \<Longrightarrow> i < length (requests w) \<Longrightarrow> request_ok (requests w ! i)"
  by (simp add: requests_ok_def)

lemma processStart_cases:
  "processStart req rn = Delayed failure \<or>
   (\<exists>s p. processStart req rn = Admitted s p (reliable rn) (longReordering rn) \<and>
      isEnabled (rq_endname req) rn \<and> connections rn (rq_endname req) = Some s \<and> servers rn s = Some p)"
  by (auto simp: processStart_def readEndnameInfo_def Let_def split: option.split)

lemma processJudge_cases:
  assumes "processJudge r1 r2 req s p rel lr reply rn = (rn', stage)"
  shows "stage = Replied failure \<and> rn' = rn \<or>
     (\<exists>a. reply = Some a \<and> \<not> isServerDead (rq_endname req) s p rn \<and>
        (stage = Delayed a \<and> rn' = rn \<or>
         stage = Replied a \<and> rn' = rn\<lparr>rpcBytes := rpcBytes rn + of_nat (length (rp_reply a))\<rparr>))"
  using assms by (auto simp: processJudge_def Let_def split: option.splits if_splits)

lemma requests_ok_init: "net_init w \<Longrightarrow> requests_ok w"
  by (simp add: net_init_def requests_ok_def)

lemma requests_ok_step:
  assumes "requests_ok w" "nstep w e w'"
  shows "requests_ok w'"
  using assms(2)
proof cases
  case (call req)
  with assms(1) show ?thesis
    by (auto simp: callSend_def requests_ok_def request_ok_def split: if_splits)
next
  case (start i r)
  note ok = requests_ok_nth [OF assms(1) start(4)]
  show ?thesis
    by (rule requests_ok_update [OF assms(1)])
      (use start ok processStart_cases [of "rq_msg r" "net w"] in \<open>auto simp: request_ok_def\<close>)
next
  case (admit i r s p rel lr rnd stage h)
  note ok = requests_ok_nth [OF assms(1) admit(4)]
  show ?thesis
    by (rule requests_ok_update [OF assms(1)])
      (use admit ok in \<open>auto simp: request_ok_def processAdmitted_def split: if_splits\<close>)
next
  case (handle i r p srv st reply)
  note ok = requests_ok_nth [OF assms(1) handle(4)]
  show ?thesis
    by (rule requests_ok_update [OF assms(1)])
      (use handle ok in \<open>auto simp: request_ok_def executed_def split: stage.splits\<close>)
next
  case handle_fatal
  with assms(1) show ?thesis by (simp add: requests_ok_def)
next
  case (tick i r s p rel lr)
  note ok = requests_ok_nth [OF assms(1) tick(4)]
  show ?thesis
    by (rule requests_ok_update [OF assms(1)])
      (use tick ok in \<open>auto simp: request_ok_def processTick_def\<close>)
next
  case (receive i r s p rel lr reply)
  note ok = requests_ok_nth [OF assms(1) receive(4)]
  show ?thesis
    by (rule requests_ok_update [OF assms(1)])
      (use receive ok in \<open>auto simp: request_ok_def executed_def\<close>)
next
  case (judge i r s p rel lr reply r1 r2 rn stage)
  note ok = requests_ok_nth [OF assms(1) judge(4)]
  show ?thesis
    by (rule requests_ok_update [OF assms(1)])
      (use judge ok processJudge_cases [OF judge(7)] in \<open>auto simp: request_ok_def executed_def\<close>)
next
  case (timer i r reply rn stage)
  note ok = requests_ok_nth [OF assms(1) timer(4)]
  show ?thesis
    by (rule requests_ok_update [OF assms(1)])
      (use timer ok in \<open>auto simp: request_ok_def processTimer_def executed_def\<close>)
next
  case admin
  with assms(1) show ?thesis by (simp add: requests_ok_def)
qed

interpretation rpc: invariant_system net_init nstep requests_ok
  by unfold_locales (fact requests_ok_init, fact requests_ok_step)

text \<open>A call that returns true leaves the decoded result of the one run of its handler; one that returns false leaves \<open>reply\<close> alone.\<close>

lemma callResult_executed:
  assumes "reach net_init nstep w" "i < length (requests w)" "rq_stage (requests w ! i) = Replied rep"
    "callResult decode rep reply = Inr (ok, v)"
  shows "if ok then execs (requests w ! i) = 1 \<and> rq_handler (requests w ! i) = HandlerDone rep \<and> decode (rp_reply rep) = Some v
    else v = reply"
proof -
  have "request_ok (requests w ! i)" using rpc.reach_inv [OF assms(1)] assms(2) requests_ok_nth by blast
  with assms(3,4) show ?thesis
    by (auto simp: callResult_def request_ok_def executed_def split: if_splits option.splits handler.splits)
qed

subsection \<open>Deleted servers\<close>

text \<open>A request that was admitted to the server \<open>p\<close> under the name \<open>s\<close>, and one that cannot succeed any more.\<close>

fun aimed :: "'s \<Rightarrow> nat \<Rightarrow> 's stage \<Rightarrow> bool" where
  "aimed s p (Admitted s' p' rel lr) \<longleftrightarrow> s' = s \<and> p' = p"
| "aimed s p (Waiting s' p' rel lr) \<longleftrightarrow> s' = s \<and> p' = p"
| "aimed s p (Judging s' p' rel lr reply) \<longleftrightarrow> s' = s \<and> p' = p"
| "aimed s p _ \<longleftrightarrow> False"

fun failed :: "'s stage \<Rightarrow> bool" where
  "failed (Delayed a) \<longleftrightarrow> \<not> rp_ok a"
| "failed (Replied a) \<longleftrightarrow> \<not> rp_ok a"
| "failed _ \<longleftrightarrow> False"

definition without_readd :: "'s \<Rightarrow> nat \<Rightarrow> ('e, 's, 'st) World \<Rightarrow> ('e, 's) nevent \<Rightarrow> ('e, 's, 'st) World \<Rightarrow> bool" where
  "without_readd s p w e w' \<longleftrightarrow> nstep w e w' \<and> e \<noteq> AdminEv (AddServerA s p)"

definition doomed :: "'s \<Rightarrow> nat \<Rightarrow> nat \<Rightarrow> ('e, 's, 'st) World \<Rightarrow> bool" where
  "doomed s p i w \<longleftrightarrow> servers (net w) s \<noteq> Some p \<and> i < length (requests w) \<and>
     (aimed s p (rq_stage (requests w ! i)) \<or> failed (rq_stage (requests w ! i)))"

lemma doomed_update:
  assumes "doomed s p i w" "k < length (requests w)" "requests w' = (requests w)[k := r]"
    and "servers (net w') s \<noteq> Some p"
    and "k = i \<Longrightarrow> aimed s p (rq_stage (requests w ! i)) \<or> failed (rq_stage (requests w ! i)) \<Longrightarrow>
        aimed s p (rq_stage r) \<or> failed (rq_stage r)"
  shows "doomed s p i w'"
  using assms by (cases "k = i") (simp_all add: doomed_def)

lemma processTimer_servers: "processTimer a rn = (rn', stage) \<Longrightarrow> servers rn' = servers rn \<and> stage = Replied a"
  by (auto simp: processTimer_def)

lemma processJudge_servers:
  "processJudge r1 r2 req s p rel lr reply rn = (rn', stage) \<Longrightarrow> servers rn' = servers rn"
  by (auto dest: processJudge_cases)

lemma administer_servers:
  "administer a rn = Inr rn' \<Longrightarrow> servers rn s \<noteq> Some p \<Longrightarrow> a \<noteq> AddServerA s p \<Longrightarrow> servers rn' s \<noteq> Some p"
  by (cases a) (auto simp: Reliable_def LongReordering_def LongDelays_def MakeEnd_def AddServer_def
      DeleteServer_def Connect_def Enable_def split: if_splits)

lemma doomed_step:
  assumes d: "doomed s p i w" and "without_readd s p w e w'"
  shows "doomed s p i w'"
proof -
  from assms(2) have step: "nstep w e w'" and e: "e \<noteq> AdminEv (AddServerA s p)"
    by (simp_all add: without_readd_def)
  from d have dead: "servers (net w) s \<noteq> Some p" and i: "i < length (requests w)" by (simp_all add: doomed_def)
  note up = doomed_update [OF d]
  from step show ?thesis
  proof cases
    case (call req)
    with d show ?thesis by (auto simp: callSend_def doomed_def nth_append split: if_splits)
  next
    case (start k r)
    show ?thesis by (rule up [OF start(4)]) (use start dead in auto)
  next
    case (admit k r s' p' rel lr rnd stage h)
    show ?thesis
      by (rule up [OF admit(4)]) (use admit dead in \<open>auto simp: processAdmitted_def split: if_splits\<close>)
  next
    case (handle k r p' srv st reply)
    show ?thesis
      by (rule up [OF handle(4), where r = "r\<lparr>rq_handler := HandlerDone reply, execs := execs r + 1\<rparr>"])
        (use handle dead in auto)
  next
    case handle_fatal
    with d show ?thesis by (simp add: doomed_def)
  next
    case (tick k r s' p' rel lr)
    show ?thesis by (rule up [OF tick(4)]) (use tick dead in \<open>auto simp: processTick_def\<close>)
  next
    case (receive k r s' p' rel lr reply)
    show ?thesis by (rule up [OF receive(4)]) (use receive dead in auto)
  next
    case (judge k r s' p' rel lr reply r1 r2 rn stage)
    show ?thesis
      by (rule up [OF judge(4)])
        (use judge dead processJudge_cases [OF judge(7)] in \<open>auto simp: isServerDead_def dest: processJudge_servers\<close>)
  next
    case (timer k r reply rn stage)
    show ?thesis by (rule up [OF timer(4)]) (use timer dead in \<open>auto dest!: processTimer_servers\<close>)
  next
    case (admin a rn)
    with d e administer_servers [OF admin(4) dead] show ?thesis by (auto simp: doomed_def)
  qed
qed

interpretation deleted: invariant_system "doomed s p i" "without_readd s p" "doomed s p i" for s p i
  by unfold_locales (simp, fact doomed_step)

subsection \<open>Running a request to its end\<close>

lemma lastIndex_notin: "c \<notin> set xs \<Longrightarrow> lastIndex c xs = -1"
  by (induction xs) (auto simp: Let_def)

lemma lastIndex_append: "c \<notin> set ys \<Longrightarrow> lastIndex c (xs @ c # ys) = int (length xs)"
  by (induction xs) (auto simp: Let_def lastIndex_notin)

lemma srvDispatch_method:
  assumes "rq_svcMeth req = sv @ CHR ''.'' # meth" "CHR ''.'' \<notin> set meth"
    and "services rs sv = Some svc" "svc_methods svc meth = Some f"
    and "f (rq_args req) st = Inr (st', out)"
  shows "srvDispatch req rs st =
    (rs\<lparr>srv_count := srv_count rs + 1\<rparr>, Inr (st', \<lparr>rp_ok = True, rp_reply = out\<rparr>))"
proof -
  have "nat (int (length sv) + 1) = Suc (length sv)" by simp
  with assms show ?thesis
    by (simp add: srvDispatch_def Let_def lastIndex_append slice_to_def slice_from_def svcDispatch_def)
qed

lemma srvDispatch_ok: "srvDispatch req rs st = (rs', Inr (st', a)) \<Longrightarrow> rp_ok a"
  by (auto simp: srvDispatch_def Let_def svcDispatch_def split: option.splits)

subsection \<open>Answers are final\<close>

lemma nstep_stage:
  assumes "nstep w e w'" "i < length (requests w)"
  shows "i < length (requests w')" "rq_stage (requests w ! i) = Replied a \<Longrightarrow> rq_stage (requests w' ! i) = Replied a"
  using assms by (auto elim!: nstepE simp: callSend_def nth_append nth_list_update split: if_splits)

lemma answer_final:
  assumes "reach (\<lambda>v. v = w) nstep w'" "i < length (requests w)" "rq_stage (requests w ! i) = Replied a"
  shows "i < length (requests w') \<and> rq_stage (requests w' ! i) = Replied a"
  using assms(1)
proof induction
  case (reach_init v)
  with assms show ?case by simp
next
  case (reach_step v e v')
  with nstep_stage show ?case by blast
qed

subsection \<open>A network that is left alone\<close>

text \<open>
  A request through an enabled end to a registered server, on a reliable network that does not reorder: where it is, as long as nobody changes the network.
\<close>

definition undisturbed :: "('e, 's, 'st) World \<Rightarrow> ('e, 's) nevent \<Rightarrow> ('e, 's, 'st) World \<Rightarrow> bool" where
  "undisturbed w e w' \<longleftrightarrow> nstep w e w' \<and> (\<forall>a. e \<noteq> AdminEv a)"

fun track :: "'s \<Rightarrow> nat \<Rightarrow> 's stage \<Rightarrow> bool" where
  "track s p Arrived \<longleftrightarrow> True"
| "track s p (Admitted s' p' rel lr) \<longleftrightarrow> s' = s \<and> p' = p \<and> rel \<and> \<not> lr"
| "track s p (Waiting s' p' rel lr) \<longleftrightarrow> s' = s \<and> p' = p \<and> rel \<and> \<not> lr"
| "track s p (Judging s' p' rel lr reply) \<longleftrightarrow> s' = s \<and> p' = p \<and> rel \<and> \<not> lr \<and> reply \<noteq> None"
| "track s p (Delayed a) \<longleftrightarrow> False"
| "track s p (Replied a) \<longleftrightarrow> rp_ok a"

definition plugged :: "'e \<Rightarrow> 's \<Rightarrow> nat \<Rightarrow> ('e, 's) Network \<Rightarrow> bool" where
  "plugged e s p rn \<longleftrightarrow> reliable rn \<and> \<not> longReordering rn \<and> isEnabled e rn \<and> connections rn e = Some s \<and> servers rn s = Some p"

definition on_track :: "'s \<Rightarrow> nat \<Rightarrow> ('e, 's) request \<Rightarrow> bool" where
  "on_track s p r \<longleftrightarrow> track s p (rq_stage r) \<and> (\<forall>a. rq_handler r = HandlerDone a \<longrightarrow> rp_ok a)"

definition on_course :: "'e \<Rightarrow> 's \<Rightarrow> nat \<Rightarrow> nat \<Rightarrow> ('e, 's, 'st) World \<Rightarrow> bool" where
  "on_course e s p i w \<longleftrightarrow> requests_ok w \<and> i < length (requests w) \<and> plugged e s p (net w) \<and>
     rq_endname (rq_msg (requests w ! i)) = e \<and> on_track s p (requests w ! i)"

lemma undisturbed_wired:
  assumes "undisturbed w e w'"
  shows "plugged e' s p (net w') \<longleftrightarrow> plugged e' s p (net w)"
  using assms unfolding undisturbed_def
  by (auto elim!: nstepE simp: callSend_def processTimer_def plugged_def isEnabled_def split: if_splits dest!: processJudge_cases)

lemma wired_start:
  "plugged (rq_endname req) s p rn \<Longrightarrow> processStart req rn = Admitted s p True False"
  by (simp add: plugged_def processStart_def readEndnameInfo_def)

lemma wired_alive: "plugged e s p rn \<Longrightarrow> \<not> isServerDead e s p rn"
  by (simp add: plugged_def isServerDead_def)

lemma processJudge_reliable:
  "\<not> isServerDead (rq_endname req) s p rn \<Longrightarrow>
   processJudge r1 r2 req s p True False (Some a) rn = (rn\<lparr>rpcBytes := rpcBytes rn + of_nat (length (rp_reply a))\<rparr>, Replied a)"
  by (simp add: processJudge_def)

lemma on_course_update:
  assumes "on_course e s p i w" "undisturbed w ev w'" "k < length (requests w)" "requests w' = (requests w)[k := r]"
    and "k = i \<Longrightarrow> rq_msg r = rq_msg (requests w ! i) \<and> on_track s p r"
  shows "on_course e s p i w'"
proof -
  have "requests_ok w'"
    using assms(1,2) requests_ok_step by (auto simp: on_course_def undisturbed_def)
  with assms show ?thesis
    by (cases "k = i") (simp_all add: on_course_def undisturbed_wired [OF assms(2)])
qed

lemma on_course_step:
  assumes c: "on_course e s p i w" and u: "undisturbed w ev w'"
  shows "on_course e s p i w'"
proof -
  have step: "nstep w ev w'" using u by (simp add: undisturbed_def)
  have ok: "requests_ok w" and i: "i < length (requests w)" and wd: "plugged (rq_endname (rq_msg (requests w ! i))) s p (net w)"
    and tr: "on_track s p (requests w ! i)"
    using c by (simp_all add: on_course_def)
  have rok: "request_ok (requests w ! i)" using ok i by (rule requests_ok_nth)
  note up = on_course_update [OF c u]
  from step show ?thesis
  proof cases
    case (call req)
    with c requests_ok_step [OF ok step] undisturbed_wired [OF u] show ?thesis
      by (auto simp: on_course_def callSend_def nth_append split: if_splits)
  next
    case (start k r)
    show ?thesis by (rule up [OF start(4)]) (use start tr wd in \<open>auto simp: on_track_def wired_start\<close>)
  next
    case (admit k r s' p' rel lr rnd stage h)
    show ?thesis
      by (rule up [OF admit(4)])
        (use admit tr in \<open>auto simp: on_track_def processAdmitted_def split: if_splits\<close>)
  next
    case (handle k r p' srv st reply)
    show ?thesis
      by (rule up [OF handle(4), where r = "r\<lparr>rq_handler := HandlerDone reply, execs := execs r + 1\<rparr>"])
        (use handle tr srvDispatch_ok [OF handle(7)] in \<open>auto simp: on_track_def\<close>)
  next
    case handle_fatal
    with c show ?thesis by (simp add: on_course_def requests_ok_def)
  next
    case (tick k r s' p' rel lr)
    show ?thesis
      by (rule up [OF tick(4)])
        (use tick tr wired_alive [OF wd] in \<open>auto simp: on_track_def processTick_def\<close>)
  next
    case (receive k r s' p' rel lr reply)
    show ?thesis by (rule up [OF receive(4)]) (use receive tr in \<open>auto simp: on_track_def\<close>)
  next
    case (judge k r s' p' rel lr reply r1 r2 rn stage)
    have "on_track s p (r\<lparr>rq_stage := stage\<rparr>)" if "k = i"
    proof -
      have "track s p (Judging s' p' rel lr reply)" using tr judge(5,6) that by (simp add: on_track_def)
      then obtain a where a: "reply = Some a" "s' = s" "p' = p" "rel" "\<not> lr" by auto
      then have "rq_handler r = HandlerDone a" using rok judge(5,6) that by (simp add: request_ok_def executed_def)
      moreover have "stage = Replied a"
        using judge(7) a wired_alive [OF wd] judge(5) that by (simp add: processJudge_reliable)
      ultimately show ?thesis using tr judge(5) that by (simp add: on_track_def)
    qed
    then show ?thesis by (intro up [OF judge(4)]) (use judge in auto)
  next
    case (timer k r reply rn stage)
    show ?thesis by (rule up [OF timer(4)]) (use timer tr in \<open>auto simp: on_track_def\<close>)
  next
    case (admin a rn)
    with u show ?thesis by (simp add: undisturbed_def)
  qed
qed

interpretation course: invariant_system "on_course e s p i" undisturbed "on_course e s p i" for e s p i
  by unfold_locales (simp, fact on_course_step)

text \<open>The next step of a request that is on its way, and how many there are.\<close>

fun stepsLeft :: "('e, 's) request \<Rightarrow> nat" where
  "stepsLeft r = (case rq_stage r of Arrived \<Rightarrow> 5 | Admitted _ _ _ _ \<Rightarrow> 4
     | Waiting _ _ _ _ \<Rightarrow> (case rq_handler r of HandlerDone _ \<Rightarrow> 2 | _ \<Rightarrow> 3) | Judging _ _ _ _ _ \<Rightarrow> 1 | _ \<Rightarrow> 0)"

lemma on_course_next:
  assumes c: "on_course e s p i w" and h: "\<not> halted w" and n: "stepsLeft (requests w ! i) = Suc n"
  shows "\<exists>ev w'. undisturbed w ev w' \<and> (halted w' \<or> stepsLeft (requests w' ! i) = n)"
proof -
  let ?r = "requests w ! i"
  have i: "i < length (requests w)" and wd: "plugged (rq_endname (rq_msg ?r)) s p (net w)"
    and tr: "on_track s p ?r" and ok: "request_ok ?r"
    using c by (auto simp: on_course_def intro: requests_ok_nth)
  have next_step: "?thesis" if "nstep w ev w'" "\<forall>a. ev \<noteq> AdminEv a" "halted w' \<or> stepsLeft (requests w' ! i) = n" for ev w'
    using that unfolding undisturbed_def by blast
  show ?thesis
  proof (cases "rq_stage ?r")
    case Arrived
    with wired_start [OF wd] n i show ?thesis by (intro next_step [OF nstep.start [OF h i refl]]) simp_all
  next
    case (Admitted s' p' rel lr)
    then have rel: "rel" using tr by (simp add: on_track_def)
    then have "processAdmitted 0 s' p' rel lr = (Waiting s' p' rel lr, Running p')" by (simp add: processAdmitted_def)
    from nstep.admit [OF h i refl Admitted this] show ?thesis by (rule next_step) (use n i Admitted in simp_all)
  next
    case (Waiting s' p' rel lr)
    show ?thesis
    proof (cases "rq_handler ?r")
      case NotStarted
      with ok Waiting show ?thesis by (simp add: request_ok_def)
    next
      case (Running q)
      obtain srv res where d: "srvDispatch (rq_msg ?r) (heap w q) (objs w) = (srv, res)" by fastforce
      show ?thesis
      proof (cases res)
        case (Inl err)
        with d show ?thesis by (intro next_step [OF nstep.handle_fatal [OF h i refl Running]]) simp_all
      next
        case (Inr x)
        obtain st reply where "x = (st, reply)" by fastforce
        with d Inr n i Waiting Running show ?thesis
          by (intro next_step [OF nstep.handle [OF h i refl Running, of srv st reply]]) simp_all
      qed
    next
      case (HandlerDone a)
      with n i Waiting show ?thesis by (intro next_step [OF nstep.receive [OF h i refl Waiting HandlerDone]]) simp_all
    qed
  next
    case (Judging s' p' rel lr reply)
    obtain rn stage where j: "processJudge 0 0 (rq_msg ?r) s' p' rel lr reply (net w) = (rn, stage)" by fastforce
    then have "n = 0" "stepsLeft (?r\<lparr>rq_stage := stage\<rparr>) = 0"
      using n Judging by (auto dest!: processJudge_cases)
    with i show ?thesis by (intro next_step [OF nstep.judge [OF h i refl Judging j]]) simp_all
  qed (use n in simp_all)
qed

lemma on_course_answered:
  assumes "on_course e s p i w"
  shows "\<exists>w'. reach (\<lambda>v. v = w) undisturbed w' \<and> (halted w' \<or> (\<exists>a. rq_stage (requests w' ! i) = Replied a))"
  using assms
proof (induction "stepsLeft (requests w ! i)" arbitrary: w)
  case 0
  then have "\<exists>a. rq_stage (requests w ! i) = Replied a"
    by (auto simp: on_course_def on_track_def split: stage.splits handler.splits)
  then show ?case using reach.reach_init [of "\<lambda>v. v = w"] by blast
next
  case (Suc n)
  show ?case
  proof (cases "halted w")
    case True
    then show ?thesis using reach.reach_init [of "\<lambda>v. v = w"] by blast
  next
    case False
    from on_course_next [OF Suc.prems False Suc.hyps(2) [symmetric]] obtain ev w1 where
      w1: "undisturbed w ev w1" "halted w1 \<or> stepsLeft (requests w1 ! i) = n" by blast
    have r1: "reach (\<lambda>v. v = w) undisturbed w1"
      by (rule reach.reach_step [where step = undisturbed, OF _ w1(1)]) (simp add: reach.reach_init)
    show ?thesis
    proof (cases "halted w1")
      case True
      with r1 show ?thesis by blast
    next
      case False
      with w1 have "n = stepsLeft (requests w1 ! i)" by simp
      from Suc.hyps(1) [OF this on_course_step [OF Suc.prems w1(1)]] obtain w' where
        "reach (\<lambda>v. v = w1) undisturbed w'" "halted w' \<or> (\<exists>a. rq_stage (requests w' ! i) = Replied a)" by blast
      moreover from this(1) r1 have "reach (\<lambda>v. v = w) undisturbed w'" by (rule reach_trans)
      ultimately show ?thesis by blast
    qed
  qed
qed

section \<open>Running the network\<close>

text \<open>The steps as a function, for concrete runs.\<close>

fun nexec :: "('e, 's, 'st) World \<Rightarrow> ('e, 's) nevent \<Rightarrow> ('e, 's, 'st) World option" where
  "nexec w (CallEv req) = (if halted w then None else callSend req w)"
| "nexec w (AdminEv a) =
     (if halted w then None else case administer a (net w) of Inl _ \<Rightarrow> None | Inr rn \<Rightarrow> Some (w\<lparr>net := rn\<rparr>))"
| "nexec w (StartEv i) =
     (if halted w \<or> length (requests w) \<le> i then None
      else let r = requests w ! i in case rq_stage r of
        Arrived \<Rightarrow> Some (set_request i (r\<lparr>rq_stage := processStart (rq_msg r) (net w)\<rparr>) w) | _ \<Rightarrow> None)"
| "nexec w (AdmitEv i rnd) =
     (if halted w \<or> length (requests w) \<le> i then None
      else let r = requests w ! i in case rq_stage r of
        Admitted s p rel lr \<Rightarrow> (case processAdmitted rnd s p rel lr of (stage, h) \<Rightarrow>
          Some (set_request i (r\<lparr>rq_stage := stage, rq_handler := h\<rparr>) w)) | _ \<Rightarrow> None)"
| "nexec w (HandleEv i) =
     (if halted w \<or> length (requests w) \<le> i then None
      else let r = requests w ! i in case rq_handler r of
        Running p \<Rightarrow> (case srvDispatch (rq_msg r) (heap w p) (objs w) of
            (srv, Inr (st, reply)) \<Rightarrow> Some (set_request i (r\<lparr>rq_handler := HandlerDone reply, execs := execs r + 1\<rparr>)
               (w\<lparr>heap := (heap w)(p := srv), objs := st\<rparr>))
          | (srv, Inl e) \<Rightarrow> Some (w\<lparr>halted := True\<rparr>))
      | _ \<Rightarrow> None)"
| "nexec w (TickEvent i) =
     (if halted w \<or> length (requests w) \<le> i then None
      else let r = requests w ! i in case rq_stage r of
        Waiting s p rel lr \<Rightarrow> Some (set_request i (r\<lparr>rq_stage := processTick (rq_msg r) (net w) s p rel lr\<rparr>) w) | _ \<Rightarrow> None)"
| "nexec w (ReceiveEv i) =
     (if halted w \<or> length (requests w) \<le> i then None
      else let r = requests w ! i in case (rq_stage r, rq_handler r) of
        (Waiting s p rel lr, HandlerDone reply) \<Rightarrow>
          Some (set_request i (r\<lparr>rq_stage := Judging s p rel lr (Some reply)\<rparr>) w) | _ \<Rightarrow> None)"
| "nexec w (JudgeEv i r1 r2) =
     (if halted w \<or> length (requests w) \<le> i then None
      else let r = requests w ! i in case rq_stage r of
        Judging s p rel lr reply \<Rightarrow> (case processJudge r1 r2 (rq_msg r) s p rel lr reply (net w) of (rn, stage) \<Rightarrow>
          Some (set_request i (r\<lparr>rq_stage := stage\<rparr>) (w\<lparr>net := rn\<rparr>))) | _ \<Rightarrow> None)"
| "nexec w (TimerEv i) =
     (if halted w \<or> length (requests w) \<le> i then None
      else let r = requests w ! i in case rq_stage r of
        Delayed reply \<Rightarrow> (case processTimer reply (net w) of (rn, stage) \<Rightarrow>
          Some (set_request i (r\<lparr>rq_stage := stage\<rparr>) (w\<lparr>net := rn\<rparr>))) | _ \<Rightarrow> None)"

lemma nexec_sound: "nexec w e = Some w' \<Longrightarrow> nstep w e w'"
  by (cases e)
    (auto simp: Let_def split: if_splits stage.splits handler.splits prod.splits sum.splits
      intro: nstep.intros nstep.handle [OF _ _ refl, simplified] nstep.judge [OF _ _ refl, simplified] nstep.timer [OF _ _ refl, simplified])

fun nrun :: "('e, 's) nevent list \<Rightarrow> ('e, 's, 'st) World \<Rightarrow> ('e, 's, 'st) World option" where
  "nrun [] w = Some w"
| "nrun (e # es) w = Option.bind (nexec w e) (nrun es)"

lemma nrun_reach:
  "reach init step w \<Longrightarrow> (\<And>u e u'. e \<in> set es \<Longrightarrow> nstep u e u' \<Longrightarrow> step u e u') \<Longrightarrow> nrun es w = Some w' \<Longrightarrow>
   reach init step w'"
proof (induction es arbitrary: w)
  case (Cons e es)
  from Cons.prems(3) obtain u where u: "nexec w e = Some u" "nrun es u = Some w'" by (auto simp: bind_eq_Some_conv)
  have "step w e u" using nexec_sound [OF u(1)] by (intro Cons.prems(2)) simp_all
  with Cons.prems(1) have "reach init step u" by (rule reach.reach_step)
  then show ?case using Cons.prems(2) u(2) by (intro Cons.IH) auto
qed simp

text \<open>A server with one method that returns its arguments, a client end connected to it, and a call that has been handled.\<close>

definition echoServer :: "nat Server" where
  "echoServer = AddService (MakeService ''Echo''
     [\<lparr>m_name = ''Say'', m_PkgPath = '''', m_NumIn = 3, m_replyIsPtr = True, m_NumOut = 0,
       m_Func = (\<lambda>args st. Inr (st + 1, args))\<rparr>]) MakeServer"

definition world0 :: "(nat, nat, nat) World" where
  "world0 = \<lparr>net = MakeNetwork, heap = (\<lambda>_. echoServer), objs = 0, requests = [], halted = False\<rparr>"

definition echoCall :: "(nat, nat) nevent list" where
  "echoCall =
     [AdminEv (MakeEndA 0), AdminEv (AddServerA 7 1), AdminEv (ConnectA 0 7), AdminEv (EnableA 0 True),
      CallEv \<lparr>rq_endname = 0, rq_svcMeth = ''Echo.Say'', rq_args = ''hi''\<rparr>]"

definition echoHandled :: "(nat, nat) nevent list" where
  "echoHandled = echoCall @ [StartEv 0, AdmitEv 0 0, HandleEv 0, ReceiveEv 0]"

lemmas echo_defs = echoServer_def world0_def echoCall_def echoHandled_def MakeNetwork_def MakeEnd_def
  AddServer_def Connect_def Enable_def DeleteServer_def callSend_def processStart_def readEndnameInfo_def isEnabled_def
  processAdmitted_def processJudge_def isServerDead_def srvDispatch_def svcDispatch_def Let_def slice_to_def slice_from_def
  AddService_def MakeServer_def MakeService_def suitable_def

lemma world0_reach: "nrun es world0 = Some w \<Longrightarrow> reach net_init nstep w"
  by (rule nrun_reach [of net_init nstep world0])
    (simp_all add: reach.reach_init net_init_def world0_def)

section \<open>Properties\<close>

text \<open>
  C11: at most once. In every reachable state of the network, under any interleaving of requests, handlers and changes to the network,
  the handler of a request has run at most once; a caller that got a positive reply got the one its handler
  produced, in the one execution there was; and once a request has been answered, the answer stays as it is whatever happens next: there is no second one.
\<close>

theorem rpc_at_most_once:
  assumes "reach net_init nstep w" "i < length (requests w)" "requests w ! i = r"
  shows "execs r \<le> 1 \<and> (\<forall>a. rq_stage r = Replied a \<and> rp_ok a \<longrightarrow> execs r = 1 \<and> rq_handler r = HandlerDone a) \<and>
     (\<forall>a w'. rq_stage r = Replied a \<and> reach (\<lambda>v. v = w) nstep w' \<longrightarrow> rq_stage (requests w' ! i) = Replied a)"
proof -
  have "request_ok r" using rpc.reach_inv [OF assms(1)] assms(2,3) requests_ok_nth by blast
  moreover have "rq_stage (requests w' ! i) = Replied a"
    if "rq_stage r = Replied a" "reach (\<lambda>v. v = w) nstep w'" for a w'
    using answer_final [OF that(2) assms(2)] that(1) assms(3) by simp
  ultimately show ?thesis by (auto simp: request_ok_def executed_def split: handler.splits)
qed

theorem rpc_at_most_once_witness:
  "\<exists>w. nrun (echoHandled @ [JudgeEv 0 0 0]) world0 = Some w \<and>
     rq_stage (requests w ! 0) = Replied \<lparr>rp_ok = True, rp_reply = ''hi''\<rparr> \<and> execs (requests w ! 0) = 1 \<and>
     (\<forall>w'. reach (\<lambda>v. v = w) nstep w' \<longrightarrow> rq_stage (requests w' ! 0) = Replied \<lparr>rp_ok = True, rp_reply = ''hi''\<rparr>)"
proof -
  obtain w where w: "nrun (echoHandled @ [JudgeEv 0 0 0]) world0 = Some w" "length (requests w) = 1"
    "rq_stage (requests w ! 0) = Replied \<lparr>rp_ok = True, rp_reply = ''hi''\<rparr>"
    by (simp add: echo_defs)
  from rpc_at_most_once [OF world0_reach [OF w(1)], of 0 "requests w ! 0"] w show ?thesis by simp
qed

text \<open>
  C15: no answer from a deleted server. Take a request that was admitted to a server and whose answer has not been decided yet (neither sent nor put off by the reordering timer). If this
  server is no longer registered under its name (it was deleted or replaced), the request never gets a positive reply, even if its handler has finished, as long as that same server is not registered again. The
  comment in \<open>processReq\<close> says why: a reply must not come from an instance whose persister has been superseded.
\<close>

theorem deleted_server_never_answers:
  assumes "servers (net w) s \<noteq> Some p" "i < length (requests w)" "aimed s p (rq_stage (requests w ! i))"
    and "reach (\<lambda>v. v = w) (without_readd s p) w'" "rq_stage (requests w' ! i) = Replied a"
  shows "\<not> rp_ok a"
proof -
  have "reach (doomed s p i) (without_readd s p) w'"
    using assms(4) by (rule reach_weaken_init) (use assms(1-3) in \<open>simp add: doomed_def\<close>)
  from deleted.reach_inv [OF this] assms(5) show ?thesis by (simp add: doomed_def)
qed

text \<open>The server is deleted when the handler has already returned.\<close>

theorem deleted_server_never_answers_witness:
  "\<exists>w w' a. nrun (echoHandled @ [AdminEv (DeleteServerA 7)]) world0 = Some w \<and>
     rq_stage (requests w ! 0) = Judging 7 1 True False (Some \<lparr>rp_ok = True, rp_reply = ''hi''\<rparr>) \<and>
     nrun [JudgeEv 0 0 0] w = Some w' \<and> rq_stage (requests w' ! 0) = Replied a \<and> \<not> rp_ok a"
proof -
  obtain w where w: "nrun (echoHandled @ [AdminEv (DeleteServerA 7)]) world0 = Some w" "length (requests w) = 1"
    "servers (net w) 7 \<noteq> Some 1" "\<not> halted w"
    "rq_stage (requests w ! 0) = Judging 7 1 True False (Some \<lparr>rp_ok = True, rp_reply = ''hi''\<rparr>)"
    by (simp add: echo_defs)
  obtain w' a where w': "nrun [JudgeEv 0 0 0] w = Some w'" "rq_stage (requests w' ! 0) = Replied a"
    using w(2-5) by (simp add: processJudge_def isServerDead_def)
  have "reach (\<lambda>v. v = w) (without_readd 7 1) w'"
    by (rule nrun_reach [OF reach.reach_init _ w'(1)]) (auto simp: without_readd_def)
  from deleted_server_never_answers [OF w(3) _ _ this w'(2)] w(2,5) w w' show ?thesis by auto
qed

text \<open>
  C17: a call on a working network. Let a request come through an enabled end that is connected to a registered server, on a reliable network that does not
  reorder replies. As long as nobody changes the network, whatever other requests do meanwhile: any answer it gets is the positive reply of the one run of its handler, and
  in every state there are steps that lead to its answer, unless a handler ends the process. If nothing else
  happens and the server has the method, the method runs on the current state of the objects and its result is the caller's reply; the server has counted one RPC.
\<close>

theorem reliable_call_answered:
  assumes "reach net_init nstep w" "\<not> halted w" "i < length (requests w)" "requests w ! i = r" "rq_stage r = Arrived"
    and "isEnabled (rq_endname (rq_msg r)) (net w)" "connections (net w) (rq_endname (rq_msg r)) = Some s"
    and "servers (net w) s = Some p" "reliable (net w)" "\<not> longReordering (net w)"
  shows "(\<forall>w'. reach (\<lambda>v. v = w) undisturbed w' \<longrightarrow>
       (\<forall>a. rq_stage (requests w' ! i) = Replied a \<longrightarrow>
          rp_ok a \<and> rq_handler (requests w' ! i) = HandlerDone a \<and> execs (requests w' ! i) = 1) \<and>
       (\<exists>w''. reach (\<lambda>v. v = w') undisturbed w'' \<and> (halted w'' \<or> (\<exists>a. rq_stage (requests w'' ! i) = Replied a)))) \<and>
     (\<forall>sv meth svc f st out. rq_svcMeth (rq_msg r) = sv @ CHR ''.'' # meth \<and> CHR ''.'' \<notin> set meth \<and>
        services (heap w p) sv = Some svc \<and> svc_methods svc meth = Some f \<and> f (rq_args (rq_msg r)) (objs w) = Inr (st, out) \<longrightarrow>
        (\<exists>w'. reach (\<lambda>v. v = w) undisturbed w' \<and>
           rq_stage (requests w' ! i) = Replied \<lparr>rp_ok = True, rp_reply = out\<rparr> \<and>
           execs (requests w' ! i) = 1 \<and> objs w' = st \<and> srv_count (heap w' p) = srv_count (heap w p) + 1))"
proof (intro conjI allI impI)
  have rok: "requests_ok w" using assms(1) by (rule rpc.reach_inv)
  then have ok: "request_ok r" "rq_handler r = NotStarted" "execs r = 0"
    using requests_ok_nth [OF rok assms(3)] assms(4,5) by (simp_all add: request_ok_def)
  have c: "on_course (rq_endname (rq_msg r)) s p i w"
    using rok ok assms by (simp add: on_course_def on_track_def plugged_def)
  {
    fix w' assume w': "reach (\<lambda>v. v = w) undisturbed w'"
    have "reach (on_course (rq_endname (rq_msg r)) s p i) undisturbed w'"
      using w' by (rule reach_weaken_init) (use c in simp)
    then have c': "on_course (rq_endname (rq_msg r)) s p i w'" by (rule course.reach_inv)
    then have i: "request_ok (requests w' ! i)" "on_track s p (requests w' ! i)"
      by (auto simp: on_course_def intro: requests_ok_nth)
    show "rp_ok a" "rq_handler (requests w' ! i) = HandlerDone a" "execs (requests w' ! i) = 1"
      if "rq_stage (requests w' ! i) = Replied a" for a
      using i that by (auto simp: on_track_def request_ok_def executed_def)
    show "\<exists>w''. reach (\<lambda>v. v = w') undisturbed w'' \<and> (halted w'' \<or> (\<exists>a. rq_stage (requests w'' ! i) = Replied a))"
      using c' by (rule on_course_answered)
  }
  fix sv meth svc f st out
  assume m: "rq_svcMeth (rq_msg r) = sv @ CHR ''.'' # meth \<and> CHR ''.'' \<notin> set meth \<and>
      services (heap w p) sv = Some svc \<and> svc_methods svc meth = Some f \<and> f (rq_args (rq_msg r)) (objs w) = Inr (st, out)"
  let ?srv = "(heap w p)\<lparr>srv_count := srv_count (heap w p) + 1\<rparr>"
  have disp: "srvDispatch (rq_msg r) (heap w p) (objs w) = (?srv, Inr (st, \<lparr>rp_ok = True, rp_reply = out\<rparr>))"
    using m by (blast intro: srvDispatch_method)
  have wd: "plugged (rq_endname (rq_msg r)) s p (net w)" using assms by (simp add: plugged_def)
  obtain w' where w': "nrun [StartEv i, AdmitEv i 0, HandleEv i, ReceiveEv i, JudgeEv i 0 0] w = Some w'"
    "rq_stage (requests w' ! i) = Replied \<lparr>rp_ok = True, rp_reply = out\<rparr>" "execs (requests w' ! i) = 1" "objs w' = st"
    "srv_count (heap w' p) = srv_count (heap w p) + 1"
    using assms(2-5) ok(2,3) disp wired_start [OF wd] wired_alive [OF wd]
    by (simp add: processAdmitted_def processJudge_reliable)
  have "reach (\<lambda>v. v = w) undisturbed w'"
    by (rule nrun_reach [OF reach.reach_init _ w'(1)]) (auto simp: undisturbed_def)
  with w' show "\<exists>w'. reach (\<lambda>v. v = w) undisturbed w' \<and>
      rq_stage (requests w' ! i) = Replied \<lparr>rp_ok = True, rp_reply = out\<rparr> \<and>
      execs (requests w' ! i) = 1 \<and> objs w' = st \<and> srv_count (heap w' p) = srv_count (heap w p) + 1"
    by blast
qed

theorem reliable_call_answered_witness:
  "\<exists>w w'. nrun echoCall world0 = Some w \<and> reach (\<lambda>v. v = w) undisturbed w' \<and>
     rq_stage (requests w' ! 0) = Replied \<lparr>rp_ok = True, rp_reply = ''hi''\<rparr> \<and> objs w' = 1"
proof -
  let ?f = "\<lambda>args st. Inr (st + 1 :: nat, args) :: (nat \<times> string) res"
  let ?r = "\<lparr>rq_msg = \<lparr>rq_endname = 0 :: nat, rq_svcMeth = ''Echo.Say'', rq_args = ''hi''\<rparr>,
     rq_stage = Arrived, rq_handler = NotStarted, execs = 0\<rparr> :: (nat, nat) request"
  obtain w where w: "nrun echoCall world0 = Some w" "\<not> halted w" "0 < length (requests w)" "requests w ! 0 = ?r"
    "isEnabled 0 (net w)" "connections (net w) 0 = Some 7" "servers (net w) 7 = Some 1" "reliable (net w)"
    "\<not> longReordering (net w)" "heap w = (\<lambda>_. echoServer)" "objs w = 0"
    by (simp add: echo_defs)
  have svc: "services echoServer ''Echo'' = Some (MakeService ''Echo''
     [\<lparr>m_name = ''Say'', m_PkgPath = '''', m_NumIn = 3, m_replyIsPtr = True, m_NumOut = 0, m_Func = ?f\<rparr>])"
    by (simp add: echoServer_def AddService_def MakeService_def)
  have meth: "svc_methods (MakeService ''Echo''
     [\<lparr>m_name = ''Say'', m_PkgPath = '''', m_NumIn = 3, m_replyIsPtr = True, m_NumOut = 0, m_Func = ?f\<rparr>]) ''Say'' = Some ?f"
    by (simp add: MakeService_def suitable_def)
  have "\<exists>w'. reach (\<lambda>v. v = w) undisturbed w' \<and>
      rq_stage (requests w' ! 0) = Replied \<lparr>rp_ok = True, rp_reply = ''hi''\<rparr> \<and>
      execs (requests w' ! 0) = 1 \<and> objs w' = 1 \<and> srv_count (heap w' 1) = srv_count (heap w 1) + 1"
    by (rule reliable_call_answered [OF world0_reach [OF w(1)] w(2-4) _ _ _ w(7-9), THEN conjunct2, rule_format,
          of "''Echo''" "''Say''" _ ?f 1 "''hi''"])
      (use w svc meth in auto)
  with w(1) show ?thesis by blast
qed

end
