(* ===== verification/Rand_String.thy ===== *)
theory Rand_String
  imports Prelude "HOL-Library.Word"
begin

text \<open>
  \<open>randstring\<close> of \<open>raft/config.go\<close>, which makes up the names of the client ends. The random bytes are an argument; the
  URL variant of the base64 encoding of the Go library is written out.
\<close>

section \<open>Encoding\<close>

definition urlAlphabet :: string where
  "urlAlphabet = ''ABCDEFGHIJKLMNOPQRSTUVWXYZabcdefghijklmnopqrstuvwxyz0123456789-_''"

definition sixBits :: "nat \<Rightarrow> char" where
  "sixBits v = urlAlphabet ! (v mod 64)"

definition threeBytes :: "8 word \<Rightarrow> 8 word \<Rightarrow> 8 word \<Rightarrow> string" where
  "threeBytes a b c =
     (let v = (unat a * 256 + unat b) * 256 + unat c
      in [sixBits (v div 262144), sixBits (v div 4096), sixBits (v div 64), sixBits v])"

fun EncodeToString :: "8 word list \<Rightarrow> string" where
  "EncodeToString (a # b # c # bs) = threeBytes a b c @ EncodeToString bs"
| "EncodeToString [a, b] =
     (let v = (unat a * 256 + unat b) * 256
      in [sixBits (v div 262144), sixBits (v div 4096), sixBits (v div 64), CHR ''=''])"
| "EncodeToString [a] =
     (let v = unat a * 65536 in [sixBits (v div 262144), sixBits (v div 4096), CHR ''='', CHR ''=''])"
| "EncodeToString [] = []"

definition randstring :: "nat \<Rightarrow> 8 word list \<Rightarrow> string res" where
  "randstring n b = (let s = EncodeToString b in slice_to s (int n))"

section \<open>The names\<close>

lemma length_urlAlphabet [simp]: "length urlAlphabet = 64"
  by (simp add: urlAlphabet_def)

lemma distinct_urlAlphabet: "distinct urlAlphabet"
  by (simp add: urlAlphabet_def)

lemma sixBits_in [simp]: "sixBits v \<in> set urlAlphabet"
  by (simp add: sixBits_def)

lemma sixBits_eq [simp]: "sixBits v = sixBits w \<longleftrightarrow> v mod 64 = w mod 64"
  by (simp add: sixBits_def nth_eq_iff_index_eq [OF distinct_urlAlphabet])

lemma length_threeBytes [simp]: "length (threeBytes a b c) = 4"
  by (simp add: threeBytes_def Let_def)

lemma set_threeBytes: "set (threeBytes a b c) \<subseteq> set urlAlphabet"
  by (simp add: threeBytes_def Let_def)

lemma same_digits: "x div 64 = y div 64 \<Longrightarrow> x mod 64 = y mod 64 \<Longrightarrow> x = (y :: nat)"
  by (metis div_mult_mod_eq)

lemma four_digits:
  fixes v w :: nat
  assumes "v < 16777216" "w < 16777216" "v div 262144 mod 64 = w div 262144 mod 64" "v div 4096 mod 64 = w div 4096 mod 64"
    "v div 64 mod 64 = w div 64 mod 64" "v mod 64 = w mod 64"
  shows "v = w"
proof -
  have d: "x div 4096 = x div 64 div 64" "x div 262144 = x div 64 div 64 div 64" for x :: nat
    using div_mult2_eq [of x 64 64] div_mult2_eq [of x 4096 64] by simp_all
  have "v div 262144 < 64" "w div 262144 < 64" using assms(1,2) by simp_all
  with assms(3) have "v div 262144 = w div 262144" by (simp only: mod_less)
  then have "v div 64 div 64 = w div 64 div 64" using assms(4) unfolding d by (rule same_digits)
  then have "v div 64 = w div 64" using assms(5) by (rule same_digits)
  then show ?thesis using assms(6) by (rule same_digits)
qed

lemma low_byte:
  fixes x x' y y' :: nat
  assumes "x * 256 + y = x' * 256 + y'" "y < 256" "y' < 256"
  shows "x = x' \<and> y = y'"
proof -
  have d: "(u * 256 + v) div 256 = u" "(u * 256 + v) mod 256 = v" if "v < 256" for u v :: nat using that by simp_all
  show ?thesis using d [OF assms(2), of x] d [OF assms(3), of x'] assms(1) by simp
qed

lemma threeBytes_inj [simp]: "threeBytes a b c = threeBytes a' b' c' \<longleftrightarrow> a = a' \<and> b = b' \<and> c = c'"
proof
  let ?u = "unat a * 256 + unat b" and ?u' = "unat a' * 256 + unat b'"
  let ?v = "?u * 256 + unat c" and ?v' = "?u' * 256 + unat c'"
  have less: "unat x < 256" for x :: "8 word" using unsigned_less [of x] by simp
  assume "threeBytes a b c = threeBytes a' b' c'"
  then have eqs: "?v div 262144 mod 64 = ?v' div 262144 mod 64" "?v div 4096 mod 64 = ?v' div 4096 mod 64"
    "?v div 64 mod 64 = ?v' div 64 mod 64" "?v mod 64 = ?v' mod 64"
    unfolding threeBytes_def Let_def list.inject sixBits_eq by blast+
  have "?v < 16777216" "?v' < 16777216"
    using less [of a] less [of b] less [of c] less [of a'] less [of b'] less [of c'] by simp_all
  then have v: "?v = ?v'" using eqs by (rule four_digits)
  from low_byte [OF v less less] have u: "?u = ?u'" and c: "unat c = unat c'" by simp_all
  from low_byte [OF u less less] c show "a = a' \<and> b = b' \<and> c = c'" by (simp add: word_unat_eq_iff)
qed simp

lemma length_EncodeToString: "length (EncodeToString bs) = (length bs + 2) div 3 * 4"
proof (induction bs rule: EncodeToString.induct)
  case (1 a b c bs)
  have "(length (a # b # c # bs) + 2) div 3 = Suc ((length bs + 2) div 3)" by simp
  with 1 show ?case by (simp only: EncodeToString.simps length_append length_threeBytes mult_Suc)
qed (simp_all add: Let_def)

text \<open>The characters before the padding.\<close>

lemma take_EncodeToString_chars:
  "3 * n \<le> 4 * length bs \<Longrightarrow> set (take n (EncodeToString bs)) \<subseteq> set urlAlphabet"
proof (induction bs arbitrary: n rule: EncodeToString.induct)
  case (1 a b c bs)
  have "set (take (n - 4) (EncodeToString bs)) \<subseteq> set urlAlphabet" using 1 by simp
  then show ?case using set_threeBytes [of a b c] set_take_subset [of n "threeBytes a b c"] by auto
next
  case (2 a b)
  then have "n = 0 \<or> n = 1 \<or> n = 2" by auto
  then show ?case by (auto simp: Let_def)
next
  case (3 a)
  then have "n = 0 \<or> n = 1" by auto
  then show ?case by (auto simp: Let_def)
qed simp

text \<open>Four characters are three bytes.\<close>

lemma EncodeToString_prefix:
  "3 * k \<le> length bs \<Longrightarrow> 3 * k \<le> length bs' \<Longrightarrow>
   take (4 * k) (EncodeToString bs) = take (4 * k) (EncodeToString bs') \<longleftrightarrow> take (3 * k) bs = take (3 * k) bs'"
proof (induction k arbitrary: bs bs')
  case (Suc k)
  obtain a b c cs where bs: "bs = a # b # c # cs" using Suc.prems(1) by (auto simp: numeral_3_eq_3 Suc_le_length_iff)
  obtain a' b' c' cs' where bs': "bs' = a' # b' # c' # cs'" using Suc.prems(2) by (auto simp: numeral_3_eq_3 Suc_le_length_iff)
  have "take (4 * k) (EncodeToString cs) = take (4 * k) (EncodeToString cs') \<longleftrightarrow> take (3 * k) cs = take (3 * k) cs'"
    by (rule Suc.IH) (use Suc.prems bs bs' in simp_all)
  then show ?case by (simp add: bs bs' take_Cons')
qed simp

lemma randstring_take: "n \<le> length (EncodeToString b) \<Longrightarrow> randstring n b = Inr (take n (EncodeToString b))"
  by (simp add: randstring_def Let_def)

text \<open>
  \<open>randstring(n)\<close> returns \<open>n\<close> characters, none of them padding. For the twenty characters of an end name, two names are the same only if
  the first fifteen random bytes are: \<open>MakeEnd\<close>, which ends the process on a name it knows, is safe as long as these differ.
\<close>

lemma randstring_returns:
  assumes "length b = 2 * n"
  shows "\<exists>s. randstring n b = Inr s \<and> length s = n \<and> set s \<subseteq> set urlAlphabet"
proof -
  have "n \<le> length (EncodeToString b)" by (simp add: length_EncodeToString assms)
  moreover have "set (take n (EncodeToString b)) \<subseteq> set urlAlphabet" by (rule take_EncodeToString_chars) (simp add: assms)
  ultimately show ?thesis by (simp add: randstring_take min_def)
qed

lemma randstring_eq:
  assumes "length b = 2 * (4 * k)" "length b' = 2 * (4 * k)"
  shows "randstring (4 * k) b = randstring (4 * k) b' \<longleftrightarrow> take (3 * k) b = take (3 * k) b'"
proof -
  have "4 * k \<le> length (EncodeToString b)" "4 * k \<le> length (EncodeToString b')" by (simp_all add: length_EncodeToString assms)
  then show ?thesis using EncodeToString_prefix [of k b b'] assms by (simp add: randstring_take)
qed

end
