(* ===== verification/Raft_Config.thy ===== *)
theory Raft_Config
  imports Raft_State Lab_RPC Rand_String
begin

text \<open>
  \<open>raft/config.go\<close>: the harness that starts, crashes, connects and disconnects Raft servers on the simulated network
  of \<open>labrpc\<close> and checks what they deliver. \<open>cfg.saved[i]\<close> and the persister of the running instance are one object in Go;
  the model keeps the contents with the instance while there is one (\<open>savedNow\<close>), and in \<open>saved\<close> otherwise. A \<open>nil\<close> list
  of end names is the empty list. Random end names, the results of \<open>randstring(20)\<close> (theory \<open>Rand_String\<close>), are an argument.
\<close>

section \<open>State\<close>

record 'c config =
  cfg_net :: "(string, nat) Network"
  cfg_n :: nat
  rafts :: "'c Raft option list"
  connected :: "bool list"
  saved :: "'c gobval Persister option list"
  endnames :: "string list list"
  logs :: "(int \<rightharpoonup> 'c option) list"
  applyErr :: "string list"
  maxIndex :: int
  rpcs0 :: int
  cmds0 :: int
  bytes0 :: int
  maxIndex0 :: int
  nextServer :: nat

definition savedNow :: "nat \<Rightarrow> 'c config \<Rightarrow> 'c gobval Persister option" where
  "savedNow i cfg =
     (case rafts cfg ! i of Some rf \<Rightarrow> Some (persister rf) | None \<Rightarrow> saved cfg ! i)"

section \<open>Connecting and disconnecting\<close>

definition enableEnd :: "nat \<Rightarrow> nat \<Rightarrow> bool \<Rightarrow> 'c config \<Rightarrow> 'c config res" where
  "enableEnd i j b cfg =
     rbind (go_index (endnames cfg) (int i)) (\<lambda>names.
     rbind (go_index names (int j)) (\<lambda>endname.
       Inr (cfg\<lparr>cfg_net := Enable endname b (cfg_net cfg)\<rparr>)))"

definition connect :: "nat \<Rightarrow> 'c config \<Rightarrow> 'c config res" where
  "connect i cfg =
     rbind (go_update (connected cfg) (int i) True) (\<lambda>c.
     let cfg = cfg\<lparr>connected := c\<rparr> in
     rbind (forEach [0..<cfg_n cfg]
              (\<lambda>j cfg. if connected cfg ! j then enableEnd i j True cfg else Inr cfg) cfg) (\<lambda>cfg.
       forEach [0..<cfg_n cfg]
         (\<lambda>j cfg. if connected cfg ! j then enableEnd j i True cfg else Inr cfg) cfg))"

definition disconnect :: "nat \<Rightarrow> 'c config \<Rightarrow> 'c config res" where
  "disconnect i cfg =
     rbind (go_update (connected cfg) (int i) False) (\<lambda>c.
     let cfg = cfg\<lparr>connected := c\<rparr> in
     rbind (forEach [0..<cfg_n cfg]
              (\<lambda>j cfg. if endnames cfg ! i \<noteq> [] then enableEnd i j False cfg else Inr cfg) cfg) (\<lambda>cfg.
       forEach [0..<cfg_n cfg]
         (\<lambda>j cfg. if endnames cfg ! j \<noteq> [] then enableEnd j i False cfg else Inr cfg) cfg))"

section \<open>Crashing and starting\<close>

definition crash1 :: "nat \<Rightarrow> 'c config \<Rightarrow> 'c config res" where
  "crash1 i cfg =
     rbind (disconnect i cfg) (\<lambda>cfg.
     let cfg = cfg\<lparr>cfg_net := DeleteServer i (cfg_net cfg)\<rparr>;
         s = map_option Copy (savedNow i cfg);
         cfg = cfg\<lparr>rafts := (rafts cfg)[i := None]\<rparr>;
         s = map_option (\<lambda>p. SaveRaftState (ReadRaftState p) MakePersister) s
     in Inr (cfg\<lparr>saved := (saved cfg)[i := s]\<rparr>))"

definition start1 :: "env \<Rightarrow> (nat \<Rightarrow> string) \<Rightarrow> nat \<Rightarrow> 'c config \<Rightarrow> 'c config res" where
  "start1 env names i cfg =
     rbind (crash1 i cfg) (\<lambda>cfg.
     let cfg = cfg\<lparr>endnames := (endnames cfg)[i := map names [0..<cfg_n cfg]]\<rparr> in
     rbind (forEach [0..<cfg_n cfg]
              (\<lambda>j cfg. rbind (MakeEnd (names j) (cfg_net cfg)) (\<lambda>rn.
                 Inr (cfg\<lparr>cfg_net := Connect (names j) j rn\<rparr>))) cfg) (\<lambda>cfg.
     let p = (case saved cfg ! i of Some p \<Rightarrow> Copy p | None \<Rightarrow> MakePersister);
         cfg = cfg\<lparr>saved := (saved cfg)[i := Some p]\<rparr> in
     rbind (Make env (cfg_n cfg) (int i) p) (\<lambda>rf.
     let cfg = cfg\<lparr>rafts := (rafts cfg)[i := Some rf]\<rparr>;
         srv = nextServer cfg;
         cfg = cfg\<lparr>nextServer := srv + 1\<rparr>
     in Inr (cfg\<lparr>cfg_net := AddServer i srv (cfg_net cfg)\<rparr>))))"

definition setunreliable :: "bool \<Rightarrow> 'c config \<Rightarrow> 'c config" where
  "setunreliable unrel cfg = cfg\<lparr>cfg_net := Reliable (\<not> unrel) (cfg_net cfg)\<rparr>"

definition setlongreordering :: "bool \<Rightarrow> 'c config \<Rightarrow> 'c config" where
  "setlongreordering longrel cfg = cfg\<lparr>cfg_net := LongReordering longrel (cfg_net cfg)\<rparr>"

definition emptyConfig :: "nat \<Rightarrow> 'c config" where
  "emptyConfig n =
     \<lparr>cfg_net = MakeNetwork, cfg_n = n, rafts = replicate n None, connected = replicate n False,
      saved = replicate n None, endnames = replicate n [], logs = replicate n Map.empty,
      applyErr = replicate n '''', maxIndex = 0, rpcs0 = 0, cmds0 = 0, bytes0 = 0, maxIndex0 = 0,
      nextServer = 0\<rparr>"

definition make_config :: "env \<Rightarrow> (nat \<Rightarrow> nat \<Rightarrow> string) \<Rightarrow> nat \<Rightarrow> bool \<Rightarrow> 'c config res" where
  "make_config env names n unreliable =
     (let cfg = setunreliable unreliable (emptyConfig n);
          cfg = cfg\<lparr>cfg_net := LongDelays True (cfg_net cfg)\<rparr>
      in rbind (forEach [0..<n]
                  (\<lambda>i cfg. start1 env (names i) i (cfg\<lparr>logs := (logs cfg)[i := Map.empty]\<rparr>)) cfg)
           (forEach [0..<n] connect))"

text \<open>\<open>checkTimeout\<close> with what \<open>t.Failed()\<close> says and the seconds since \<open>make_config\<close>.\<close>

definition checkTimeout :: "bool \<Rightarrow> int \<Rightarrow> unit res" where
  "checkTimeout tFailed elapsed = (if \<not> tFailed \<and> elapsed > 120 then Inl TestFatal else Inr ())"

definition cleanup :: "bool \<Rightarrow> int \<Rightarrow> 'c config \<Rightarrow> 'c config res" where
  "cleanup tFailed elapsed cfg =
     (let cfg = cfg\<lparr>rafts := map (map_option Kill) (rafts cfg)\<rparr>
      in rbind (Cleanup (cfg_net cfg)) (\<lambda>rn.
         let cfg = cfg\<lparr>cfg_net := rn\<rparr>
         in rbind (checkTimeout tFailed elapsed) (\<lambda>_. Inr cfg)))"

section \<open>Reading what the servers apply\<close>

text \<open>
  One message of the goroutine that reads \<open>applyCh\<close> of server \<open>i\<close>. \<open>log.Fatalf\<close> ends the process if any server
  has applied another command at this index, or if the index before is missing. The code enters the command under the lock and calls \<open>log.Fatalf\<close> after it has
  released it; the model takes both as one step, so it leaves out what other goroutines may see of the entry between the two, before the process ends.
\<close>

definition applyReader :: "nat \<Rightarrow> 'c ApplyMsg \<Rightarrow> 'c config \<Rightarrow> 'c config res" where
  "applyReader i m cfg =
     (if \<not> CommandValid m then Inr cfg
      else let v = msg_Command m;
               mismatch = (\<exists>l \<in> set (logs cfg). case l (CommandIndex m) of None \<Rightarrow> False | Some old \<Rightarrow> old \<noteq> v);
               prevok = ((logs cfg ! i) (CommandIndex m - 1) \<noteq> None);
               cfg = cfg\<lparr>logs := (logs cfg)[i := (logs cfg ! i)(CommandIndex m \<mapsto> v)]\<rparr>;
               cfg = (if CommandIndex m > maxIndex cfg then cfg\<lparr>maxIndex := CommandIndex m\<rparr> else cfg);
               outOfOrder = (CommandIndex m > 1 \<and> \<not> prevok)
           in if mismatch \<or> outOfOrder then Inl LogFatal else Inr cfg)"

section \<open>Checks\<close>

definition raftState :: "nat \<Rightarrow> 'c config \<Rightarrow> (int \<times> bool) res" where
  "raftState i cfg =
     rbind (go_index (rafts cfg) (int i)) (\<lambda>r.
       case r of None \<Rightarrow> Inl NilDereference | Some rf \<Rightarrow> Inr (GetState rf))"

text \<open>One iteration of \<open>checkOneLeader\<close>: the leaders by term; \<open>None\<close> if there is none and it tries again.\<close>

definition collectLeaders :: "'c config \<Rightarrow> (int \<times> nat) list res" where
  "collectLeaders cfg =
     forEach [0..<cfg_n cfg]
       (\<lambda>i ls. if connected cfg ! i
               then rbind (raftState i cfg) (\<lambda>(trm, leader). Inr (if leader then ls @ [(trm, i)] else ls))
               else Inr ls) []"

definition leadersOf :: "int \<Rightarrow> (int \<times> nat) list \<Rightarrow> nat list" where
  "leadersOf trm ls = map snd (filter (\<lambda>(t, i). t = trm) ls)"

definition oneLeaderRound :: "'c config \<Rightarrow> nat option res" where
  "oneLeaderRound cfg =
     rbind (collectLeaders cfg) (\<lambda>ls.
       if \<exists>trm \<in> set (map fst ls). length (leadersOf trm ls) > 1 then Inl TestFatal
       else if ls = [] then Inr None
       else let lastTermWithLeader = fold max (map fst ls) (-1)
            in rbind (go_index (leadersOf lastTermWithLeader ls) 0) (\<lambda>i. Inr (Some i)))"

text \<open>\<open>checkOneLeader\<close> over the states it sees in its at most ten iterations.\<close>

fun checkOneLeader :: "'c config list \<Rightarrow> nat res" where
  "checkOneLeader [] = Inl TestFatal"
| "checkOneLeader (cfg # later) =
     rbind (oneLeaderRound cfg) (\<lambda>r. case r of Some i \<Rightarrow> Inr i | None \<Rightarrow> checkOneLeader later)"

definition checkTerms :: "'c config \<Rightarrow> int res" where
  "checkTerms cfg =
     forEach [0..<cfg_n cfg]
       (\<lambda>i trm. if connected cfg ! i
                then rbind (raftState i cfg) (\<lambda>(xterm, _).
                  if trm = -1 then Inr xterm else if trm \<noteq> xterm then Inl TestFatal else Inr trm)
                else Inr trm) (-1)"

definition checkNoLeader :: "'c config \<Rightarrow> unit res" where
  "checkNoLeader cfg =
     forEach [0..<cfg_n cfg]
       (\<lambda>i u. if connected cfg ! i
              then rbind (raftState i cfg) (\<lambda>(_, is_leader). if is_leader then Inl TestFatal else Inr u)
              else Inr u) ()"

definition nCommitted :: "int \<Rightarrow> 'c config \<Rightarrow> (nat \<times> 'c option) res" where
  "nCommitted index cfg =
     forEach [0..<length (rafts cfg)]
       (\<lambda>i (count, cmd).
          if applyErr cfg ! i \<noteq> '''' then Inl TestFatal
          else case (logs cfg ! i) index of
                 None \<Rightarrow> Inr (count, cmd)
               | Some cmd1 \<Rightarrow>
                   if count > 0 \<and> cmd \<noteq> cmd1 then Inl TestFatal else Inr (count + 1, cmd1)) (0, None)"

section \<open>Waiting for agreement\<close>

text \<open>
  \<open>wait\<close> sees the configuration twice in an iteration, before and after it sleeps; \<open>its\<close> are these states, at most 30 pairs, and \<open>final\<close>
  is the state after the loop. The \<open>-1\<close> it returns when a server has moved on to a later term is \<open>MovedOn\<close>.
\<close>

datatype 'c waitResult = MovedOn | Agreed "'c option"

fun anyTermAbove :: "int \<Rightarrow> 'c Raft option list \<Rightarrow> bool res" where
  "anyTermAbove startTerm [] = Inr False"
| "anyTermAbove startTerm (None # rs) = Inl NilDereference"
| "anyTermAbove startTerm (Some r # rs) =
     (let (t, _) = GetState r in if t > startTerm then Inr True else anyTermAbove startTerm rs)"

definition waitEnd :: "int \<Rightarrow> int \<Rightarrow> 'c config \<Rightarrow> 'c waitResult res" where
  "waitEnd index n cfg =
     rbind (nCommitted index cfg) (\<lambda>(nd, cmd). if int nd < n then Inl TestFatal else Inr (Agreed cmd))"

fun waitLoop :: "int \<Rightarrow> int \<Rightarrow> int \<Rightarrow> ('c config \<times> 'c config) list \<Rightarrow> 'c config \<Rightarrow> 'c waitResult res" where
  "waitLoop index n startTerm [] final = waitEnd index n final"
| "waitLoop index n startTerm ((cfg, cfg') # its) final =
     rbind (nCommitted index cfg) (\<lambda>(nd, _).
       if int nd \<ge> n then waitEnd index n final
       else if startTerm > -1
            then rbind (anyTermAbove startTerm (rafts cfg')) (\<lambda>moved.
                   if moved then Inr MovedOn else waitLoop index n startTerm its final)
            else waitLoop index n startTerm its final)"

definition waitFor :: "int \<Rightarrow> int \<Rightarrow> int \<Rightarrow> ('c config \<times> 'c config) list \<Rightarrow> 'c config \<Rightarrow> 'c waitResult res" where
  "waitFor index n startTerm its final = waitLoop index n startTerm (take 30 its) final"

text \<open>
  \<open>one\<close>: one try of a server, the loop that tries all of them, the loop that polls for the agreement, and the loop around both. As the
  servers run in between, each try and each poll sees a state of its own; \<open>rounds\<close> are the states seen in the iterations
  that start within the ten seconds.
\<close>

definition tryStart :: "'c option \<Rightarrow> nat \<Rightarrow> 'c config \<Rightarrow> ('c config \<times> int option) res" where
  "tryStart cmd starts cfg =
     (case (if connected cfg ! starts then rafts cfg ! starts else None) of
        None \<Rightarrow> Inr (cfg, None)
      | Some rf \<Rightarrow>
          rbind (Start cmd rf) (\<lambda>(rf, index1, _, ok).
            Inr (cfg\<lparr>rafts := (rafts cfg)[starts := Some rf]\<rparr>, if ok then Some index1 else None)))"

fun submit :: "'c option \<Rightarrow> 'c config list \<Rightarrow> nat \<Rightarrow> (nat \<times> int) res" where
  "submit cmd [] starts = Inr (starts, -1)"
| "submit cmd (cfg # cfgs) starts =
     (let starts = (starts + 1) mod cfg_n cfg
      in rbind (tryStart cmd starts cfg) (\<lambda>(_, index).
           case index of Some i \<Rightarrow> Inr (starts, i) | None \<Rightarrow> submit cmd cfgs starts))"

fun pollAgreement :: "'c option \<Rightarrow> int \<Rightarrow> int \<Rightarrow> 'c config list \<Rightarrow> bool res" where
  "pollAgreement cmd expectedServers index [] = Inr False"
| "pollAgreement cmd expectedServers index (cfg # cfgs) =
     rbind (nCommitted index cfg) (\<lambda>(nd, cmd1).
       if nd > 0 \<and> int nd \<ge> expectedServers \<and> cmd1 = cmd then Inr True
       else pollAgreement cmd expectedServers index cfgs)"

fun one :: "'c option \<Rightarrow> int \<Rightarrow> bool \<Rightarrow> nat \<Rightarrow> ('c config list \<times> 'c config list) list \<Rightarrow> int res" where
  "one cmd expectedServers retry starts [] = Inl TestFatal"
| "one cmd expectedServers retry starts ((tries, polls) # rounds) =
     rbind (submit cmd tries starts) (\<lambda>(starts, index).
       if index \<noteq> -1
       then rbind (pollAgreement cmd expectedServers index polls) (\<lambda>agreed.
              if agreed then Inr index
              else if \<not> retry then Inl TestFatal
              else one cmd expectedServers retry starts rounds)
       else one cmd expectedServers retry starts rounds)"

section \<open>Statistics\<close>

text \<open>\<open>begin\<close> and \<open>end\<close>; what \<open>end\<close> prints besides the time: servers, RPCs, bytes and agreements since \<open>begin\<close>.\<close>

definition cfg_rpcCount :: "(nat \<Rightarrow> 'st Server) \<Rightarrow> nat \<Rightarrow> 'c config \<Rightarrow> int res" where
  "cfg_rpcCount srvs server cfg = GetCount srvs server (cfg_net cfg)"

definition rpcTotal :: "'c config \<Rightarrow> int" where
  "rpcTotal cfg = GetTotalCount (cfg_net cfg)"

definition bytesTotal :: "'c config \<Rightarrow> int" where
  "bytesTotal cfg = GetTotalBytes (cfg_net cfg)"

definition beginTest :: "'c config \<Rightarrow> 'c config" where
  "beginTest cfg =
     cfg\<lparr>rpcs0 := rpcTotal cfg, bytes0 := bytesTotal cfg, cmds0 := 0,
         maxIndex0 := maxIndex cfg\<rparr>"

definition endTest :: "bool \<Rightarrow> int \<Rightarrow> 'c config \<Rightarrow> (nat \<times> int \<times> int \<times> int) option res" where
  "endTest tFailed elapsed cfg =
     rbind (checkTimeout tFailed elapsed) (\<lambda>_.
       Inr (if \<not> tFailed
            then let npeers = cfg_n cfg;
                     nrpc = rpcTotal cfg - rpcs0 cfg;
                     nbytes = bytesTotal cfg - bytes0 cfg;
                     ncmds = maxIndex cfg - maxIndex0 cfg
                 in Some (npeers, nrpc, nbytes, ncmds)
            else None))"

end
