(* ===== verification/Raft_Wiring.thy ===== *)
theory Raft_Wiring
  imports Raft_Config
begin

text \<open>
  What \<open>connect\<close>, \<open>disconnect\<close>, \<open>crash1\<close> and \<open>start1\<close> of \<open>raft/config.go\<close> do to the network: an invariant of every
  sequence of these calls says which ends carry messages, and to which instance of a server.
\<close>

section \<open>The wiring\<close>

text \<open>
  Which ends are enabled: exactly those from a connected server to a connected server, of the servers' current instances. An
  end of an instance that has been replaced is therefore disabled.
\<close>

definition wired :: "'c config \<Rightarrow> bool" where
  "wired cfg \<longleftrightarrow>
     length (connected cfg) = cfg_n cfg \<and> length (endnames cfg) = cfg_n cfg \<and>
     length (rafts cfg) = cfg_n cfg \<and> length (saved cfg) = cfg_n cfg \<and>
     (\<forall>i < cfg_n cfg. endnames cfg ! i = [] \<or> length (endnames cfg ! i) = cfg_n cfg) \<and>
     (\<forall>i < cfg_n cfg. connected cfg ! i \<longrightarrow> endnames cfg ! i \<noteq> []) \<and>
     (\<forall>i < cfg_n cfg. \<forall>j < cfg_n cfg. endnames cfg ! i \<noteq> [] \<longrightarrow>
        endnames cfg ! i ! j \<in> ends (cfg_net cfg) \<and>
        connections (cfg_net cfg) (endnames cfg ! i ! j) = Some j) \<and>
     (\<forall>i < cfg_n cfg. \<forall>j < cfg_n cfg. \<forall>k < cfg_n cfg. \<forall>l < cfg_n cfg.
        endnames cfg ! i \<noteq> [] \<longrightarrow> endnames cfg ! k \<noteq> [] \<longrightarrow>
        endnames cfg ! i ! j = endnames cfg ! k ! l \<longrightarrow> i = k \<and> j = l) \<and>
     (\<forall>e. isEnabled e (cfg_net cfg) \<longleftrightarrow>
        (\<exists>i < cfg_n cfg. \<exists>j < cfg_n cfg. connected cfg ! i \<and> connected cfg ! j \<and> e = endnames cfg ! i ! j))"

lemma wiredD:
  assumes "wired cfg"
  shows "length (connected cfg) = cfg_n cfg" "length (endnames cfg) = cfg_n cfg"
    "length (rafts cfg) = cfg_n cfg" "length (saved cfg) = cfg_n cfg"
    "i < cfg_n cfg \<Longrightarrow> endnames cfg ! i \<noteq> [] \<Longrightarrow> length (endnames cfg ! i) = cfg_n cfg"
    "i < cfg_n cfg \<Longrightarrow> connected cfg ! i \<Longrightarrow> endnames cfg ! i \<noteq> []"
    "i < cfg_n cfg \<Longrightarrow> j < cfg_n cfg \<Longrightarrow> endnames cfg ! i \<noteq> [] \<Longrightarrow>
       endnames cfg ! i ! j \<in> ends (cfg_net cfg) \<and> connections (cfg_net cfg) (endnames cfg ! i ! j) = Some j"
    "i < cfg_n cfg \<Longrightarrow> j < cfg_n cfg \<Longrightarrow> k < cfg_n cfg \<Longrightarrow> l < cfg_n cfg \<Longrightarrow> endnames cfg ! i \<noteq> [] \<Longrightarrow>
       endnames cfg ! k \<noteq> [] \<Longrightarrow> endnames cfg ! i ! j = endnames cfg ! k ! l \<Longrightarrow> i = k \<and> j = l"
    "isEnabled e (cfg_net cfg) \<longleftrightarrow>
       (\<exists>i < cfg_n cfg. \<exists>j < cfg_n cfg. connected cfg ! i \<and> connected cfg ! j \<and> e = endnames cfg ! i ! j)"
  using assms unfolding wired_def by (elim conjE; blast)+

lemma wiredI:
  assumes "length (connected cfg) = cfg_n cfg" "length (endnames cfg) = cfg_n cfg"
    "length (rafts cfg) = cfg_n cfg" "length (saved cfg) = cfg_n cfg"
    "\<And>i. i < cfg_n cfg \<Longrightarrow> endnames cfg ! i = [] \<or> length (endnames cfg ! i) = cfg_n cfg"
    "\<And>i. i < cfg_n cfg \<Longrightarrow> connected cfg ! i \<Longrightarrow> endnames cfg ! i \<noteq> []"
    "\<And>i j. i < cfg_n cfg \<Longrightarrow> j < cfg_n cfg \<Longrightarrow> endnames cfg ! i \<noteq> [] \<Longrightarrow>
       endnames cfg ! i ! j \<in> ends (cfg_net cfg) \<and> connections (cfg_net cfg) (endnames cfg ! i ! j) = Some j"
    "\<And>i j k l. i < cfg_n cfg \<Longrightarrow> j < cfg_n cfg \<Longrightarrow> k < cfg_n cfg \<Longrightarrow> l < cfg_n cfg \<Longrightarrow> endnames cfg ! i \<noteq> [] \<Longrightarrow>
       endnames cfg ! k \<noteq> [] \<Longrightarrow> endnames cfg ! i ! j = endnames cfg ! k ! l \<Longrightarrow> i = k \<and> j = l"
    "\<And>e. isEnabled e (cfg_net cfg) \<longleftrightarrow>
       (\<exists>i < cfg_n cfg. \<exists>j < cfg_n cfg. connected cfg ! i \<and> connected cfg ! j \<and> e = endnames cfg ! i ! j)"
  shows "wired cfg"
  unfolding wired_def by (intro conjI; (intro allI impI)?; rule assms; assumption)

text \<open>Enabling or disabling a set of ends, one by one or in a loop.\<close>

definition setEnabled :: "(string \<Rightarrow> bool) \<Rightarrow> bool \<Rightarrow> 'c config \<Rightarrow> 'c config" where
  "setEnabled Q v cfg = cfg\<lparr>cfg_net := (cfg_net cfg)\<lparr>enabled := (\<lambda>e. if Q e then Some v else enabled (cfg_net cfg) e)\<rparr>\<rparr>"

lemma setEnabled_sel [simp]:
  "cfg_n (setEnabled Q v cfg) = cfg_n cfg" "rafts (setEnabled Q v cfg) = rafts cfg"
  "connected (setEnabled Q v cfg) = connected cfg" "saved (setEnabled Q v cfg) = saved cfg"
  "endnames (setEnabled Q v cfg) = endnames cfg" "logs (setEnabled Q v cfg) = logs cfg"
  "nextServer (setEnabled Q v cfg) = nextServer cfg"
  "ends (cfg_net (setEnabled Q v cfg)) = ends (cfg_net cfg)"
  "servers (cfg_net (setEnabled Q v cfg)) = servers (cfg_net cfg)"
  "connections (cfg_net (setEnabled Q v cfg)) = connections (cfg_net cfg)"
  "isEnabled e (cfg_net (setEnabled Q v cfg)) = (if Q e then v else isEnabled e (cfg_net cfg))"
  "applyErr (setEnabled Q v cfg) = applyErr cfg" "maxIndex (setEnabled Q v cfg) = maxIndex cfg"
  "saved (setEnabled Q v cfg) = saved cfg"
  by (simp_all add: setEnabled_def isEnabled_def)

lemma setEnabled_single: "cfg\<lparr>cfg_net := Enable x v (cfg_net cfg)\<rparr> = setEnabled (\<lambda>e. e = x) v cfg"
  by (simp add: setEnabled_def Enable_def fun_upd_def)

lemma setEnabled_none: "setEnabled (\<lambda>e. False) v cfg = cfg"
  by (simp add: setEnabled_def)

lemma setEnabled_twice: "setEnabled Q v (setEnabled R v cfg) = setEnabled (\<lambda>e. R e \<or> Q e) v cfg"
proof -
  have "(\<lambda>e. if Q e then Some v else if R e then Some v else f e) = (\<lambda>e. if R e \<or> Q e then Some v else f e)"
    for f :: "string \<Rightarrow> bool option"
    by auto
  then show ?thesis by (simp add: setEnabled_def cong: if_cong)
qed

lemma enable_loop:
  assumes "\<And>j. j \<in> set xs \<Longrightarrow> P j cfg \<Longrightarrow> a j < length (endnames cfg) \<and> b j < length (endnames cfg ! a j)"
    and "\<And>j Q. P j (setEnabled Q v cfg) = P j cfg"
  shows "forEach xs (\<lambda>j cfg. if P j cfg then enableEnd (a j) (b j) v cfg else Inr cfg) cfg =
    Inr (setEnabled (\<lambda>e. \<exists>j \<in> set xs. P j cfg \<and> e = endnames cfg ! a j ! b j) v cfg)"
  using assms
proof (induction xs arbitrary: cfg)
  case Nil
  then show ?case by (simp add: setEnabled_none)
next
  case (Cons x xs)
  show ?case
  proof (cases "P x cfg")
    case True
    let ?cfg = "setEnabled (\<lambda>e. e = endnames cfg ! a x ! b x) v cfg"
    have step: "enableEnd (a x) (b x) v cfg = Inr ?cfg"
      using Cons.prems(1) [of x] True by (simp add: enableEnd_def go_index_def setEnabled_single)
    have P: "P j (setEnabled Q v cfg) = P j cfg" for j Q by (rule Cons.prems(2))
    let ?f = "\<lambda>j cfg. if P j cfg then enableEnd (a j) (b j) v cfg else Inr cfg"
    have "forEach (x # xs) ?f cfg = forEach xs ?f ?cfg" by (simp add: True step)
    also have "\<dots> = Inr (setEnabled (\<lambda>e. \<exists>j \<in> set xs. P j ?cfg \<and> e = endnames ?cfg ! a j ! b j) v ?cfg)"
      by (rule Cons.IH) (use Cons.prems(1) P in \<open>auto simp: setEnabled_twice\<close>)
    also have "\<dots> = Inr (setEnabled (\<lambda>e. e = endnames cfg ! a x ! b x \<or>
        (\<exists>j \<in> set xs. P j cfg \<and> e = endnames cfg ! a j ! b j)) v cfg)"
      by (simp only: setEnabled_twice P setEnabled_sel)
    also have "(\<lambda>e. e = endnames cfg ! a x ! b x \<or> (\<exists>j \<in> set xs. P j cfg \<and> e = endnames cfg ! a j ! b j)) =
        (\<lambda>e. \<exists>j \<in> set (x # xs). P j cfg \<and> e = endnames cfg ! a j ! b j)"
      by (rule ext) (simp add: True)
    finally show ?thesis .
  next
    case False
    then have "(\<lambda>e. \<exists>j \<in> set (x # xs). P j cfg \<and> e = endnames cfg ! a j ! b j) =
        (\<lambda>e. \<exists>j \<in> set xs. P j cfg \<and> e = endnames cfg ! a j ! b j)"
      by simp
    with False Cons show ?thesis by simp
  qed
qed

lemma disconnect_eq:
  assumes "wired cfg" "i < cfg_n cfg"
  shows "disconnect i cfg =
    Inr (setEnabled (\<lambda>e. \<exists>j < cfg_n cfg. endnames cfg ! i \<noteq> [] \<and> e = endnames cfg ! i ! j \<or>
                              endnames cfg ! j \<noteq> [] \<and> e = endnames cfg ! j ! i) False
      (cfg\<lparr>connected := (connected cfg)[i := False]\<rparr>))"
proof -
  note w = wiredD [OF assms(1)]
  let ?cfg = "cfg\<lparr>connected := (connected cfg)[i := False]\<rparr>"
  let ?Q1 = "\<lambda>e. \<exists>j \<in> set [0..<cfg_n cfg]. endnames cfg ! i \<noteq> [] \<and> e = endnames cfg ! i ! j"
  let ?Q2 = "\<lambda>e. \<exists>j \<in> set [0..<cfg_n cfg]. endnames cfg ! j \<noteq> [] \<and> e = endnames cfg ! j ! i"
  have 1: "forEach [0..<cfg_n cfg]
      (\<lambda>j cfg. if endnames cfg ! i \<noteq> [] then enableEnd i j False cfg else Inr cfg) ?cfg = Inr (setEnabled ?Q1 False ?cfg)"
    by (subst enable_loop) (use w(2,5) assms(2) in simp_all)
  have 2: "forEach [0..<cfg_n cfg]
      (\<lambda>j cfg. if endnames cfg ! j \<noteq> [] then enableEnd j i False cfg else Inr cfg) (setEnabled ?Q1 False ?cfg) =
      Inr (setEnabled ?Q2 False (setEnabled ?Q1 False ?cfg))"
    by (subst enable_loop) (use w(2,5) assms(2) in simp_all)
  have "setEnabled ?Q2 False (setEnabled ?Q1 False ?cfg) = setEnabled (\<lambda>e. ?Q1 e \<or> ?Q2 e) False ?cfg"
    by (rule setEnabled_twice)
  moreover have "(\<lambda>e. ?Q1 e \<or> ?Q2 e) = (\<lambda>e. \<exists>j < cfg_n cfg. endnames cfg ! i \<noteq> [] \<and> e = endnames cfg ! i ! j \<or>
                              endnames cfg ! j \<noteq> [] \<and> e = endnames cfg ! j ! i)"
    by (auto simp: fun_eq_iff)
  ultimately show ?thesis
    using 1 2 w(1) assms(2) by (simp add: disconnect_def go_update_def Let_def)
qed

lemma connect_eq:
  assumes "wired cfg" "i < cfg_n cfg" "endnames cfg ! i \<noteq> []"
  shows "connect i cfg =
    Inr (setEnabled (\<lambda>e. \<exists>j < cfg_n cfg. (connected cfg)[i := True] ! j \<and>
                           (e = endnames cfg ! i ! j \<or> e = endnames cfg ! j ! i)) True
      (cfg\<lparr>connected := (connected cfg)[i := True]\<rparr>))"
proof -
  note w = wiredD [OF assms(1)]
  let ?c = "(connected cfg)[i := True]"
  let ?cfg = "cfg\<lparr>connected := ?c\<rparr>"
  let ?Q1 = "\<lambda>e. \<exists>j \<in> set [0..<cfg_n cfg]. ?c ! j \<and> e = endnames cfg ! i ! j"
  let ?Q2 = "\<lambda>e. \<exists>j \<in> set [0..<cfg_n cfg]. ?c ! j \<and> e = endnames cfg ! j ! i"
  have up: "length (endnames cfg ! j) = cfg_n cfg" if "j < cfg_n cfg" "?c ! j" for j
    using that w(1,5,6) assms(2,3) by (cases "j = i") simp_all
  have 1: "forEach [0..<cfg_n cfg]
      (\<lambda>j cfg. if connected cfg ! j then enableEnd i j True cfg else Inr cfg) ?cfg = Inr (setEnabled ?Q1 True ?cfg)"
    by (subst enable_loop) (use w(2,5) assms(2,3) in simp_all)
  have 2: "forEach [0..<cfg_n cfg]
      (\<lambda>j cfg. if connected cfg ! j then enableEnd j i True cfg else Inr cfg) (setEnabled ?Q1 True ?cfg) =
      Inr (setEnabled ?Q2 True (setEnabled ?Q1 True ?cfg))"
    by (subst enable_loop) (use w(2) up assms(2) in simp_all)
  have "setEnabled ?Q2 True (setEnabled ?Q1 True ?cfg) = setEnabled (\<lambda>e. ?Q1 e \<or> ?Q2 e) True ?cfg"
    by (rule setEnabled_twice)
  moreover have "(\<lambda>e. ?Q1 e \<or> ?Q2 e) =
      (\<lambda>e. \<exists>j < cfg_n cfg. ?c ! j \<and> (e = endnames cfg ! i ! j \<or> e = endnames cfg ! j ! i))"
    by (auto simp: fun_eq_iff)
  ultimately show ?thesis
    using 1 2 w(1) assms(2) by (simp add: connect_def go_update_def Let_def)
qed

text \<open>Connecting a server that was never started is an index out of range: its end names are \<open>nil\<close>.\<close>

lemma connect_not_started:
  assumes "wired cfg" "i < cfg_n cfg" "endnames cfg ! i = []"
  shows "connect i cfg = Inl IndexOutOfRange"
proof -
  note w = wiredD [OF assms(1)]
  let ?c = "(connected cfg)[i := True]" and ?f = "\<lambda>j cfg. if connected cfg ! j then enableEnd i j True cfg else Inr cfg"
  have fail: "\<exists>j \<in> set xs. ?c ! j \<Longrightarrow>
      forEach xs ?f (cfg\<lparr>connected := ?c\<rparr>) = Inl IndexOutOfRange" for xs
  proof (induction xs)
    case (Cons x xs)
    then show ?case
      by (cases "?c ! x") (use w(2) assms(2,3) in \<open>simp_all add: enableEnd_def go_index_def\<close>)
  qed simp
  have "\<exists>j \<in> set [0..<cfg_n cfg]. ?c ! j" using w(1) assms(2) by (auto intro!: bexI [of _ i])
  from fail [OF this] w(1) assms(2) show ?thesis
    by (simp add: connect_def go_update_def Let_def)
qed

lemma wired_reconnect:
  assumes "wired cfg" "length c = cfg_n cfg" "\<And>j. j < cfg_n cfg \<Longrightarrow> c ! j \<Longrightarrow> endnames cfg ! j \<noteq> []"
    and en: "\<And>e. (if Q e then v else isEnabled e (cfg_net cfg)) \<longleftrightarrow>
      (\<exists>a < cfg_n cfg. \<exists>b < cfg_n cfg. c ! a \<and> c ! b \<and> e = endnames cfg ! a ! b)"
  shows "wired (setEnabled Q v (cfg\<lparr>connected := c\<rparr>))"
proof -
  have u: "cfg_net (cfg\<lparr>connected := c\<rparr>) = cfg_net cfg" "cfg_n (cfg\<lparr>connected := c\<rparr>) = cfg_n cfg"
    "endnames (cfg\<lparr>connected := c\<rparr>) = endnames cfg" "connected (cfg\<lparr>connected := c\<rparr>) = c"
    "rafts (cfg\<lparr>connected := c\<rparr>) = rafts cfg" "saved (cfg\<lparr>connected := c\<rparr>) = saved cfg"
    by simp_all
  have e: "isEnabled e (cfg_net (setEnabled Q v (cfg\<lparr>connected := c\<rparr>))) \<longleftrightarrow>
      (\<exists>a < cfg_n cfg. \<exists>b < cfg_n cfg. c ! a \<and> c ! b \<and> e = endnames cfg ! a ! b)" for e
    using en [of e] by (simp only: setEnabled_sel u)
  have "\<forall>i < cfg_n cfg. c ! i \<longrightarrow> endnames cfg ! i \<noteq> []" using assms(3) by simp
  with assms(1,2) show ?thesis
    unfolding wired_def e setEnabled_sel(1-10) u
    by (elim conjE) (intro conjI; (assumption | (rule allI, rule refl)))
qed

lemma wired_connect:
  assumes "wired cfg" "i < cfg_n cfg" "endnames cfg ! i \<noteq> []" "connect i cfg = Inr cfg'"
  shows "wired cfg'"
proof -
  note w = wiredD [OF assms(1)]
  let ?c = "(connected cfg)[i := True]"
  let ?Q = "\<lambda>e. \<exists>j < cfg_n cfg. ?c ! j \<and> (e = endnames cfg ! i ! j \<or> e = endnames cfg ! j ! i)"
  have cfg': "cfg' = setEnabled ?Q True (cfg\<lparr>connected := ?c\<rparr>)"
    using assms(4) connect_eq [OF assms(1-3)] by simp
  have c: "?c ! j \<longleftrightarrow> j = i \<or> connected cfg ! j" if "j < cfg_n cfg" for j
    using that w(1) assms(2) by (cases "j = i") simp_all
  show ?thesis unfolding cfg'
  proof (rule wired_reconnect [OF assms(1)])
    show "endnames cfg ! j \<noteq> []" if "j < cfg_n cfg" "?c ! j" for j using that c w(6) assms(3) by blast
    have "(?Q e \<or> isEnabled e (cfg_net cfg)) \<longleftrightarrow>
        (\<exists>a < cfg_n cfg. \<exists>b < cfg_n cfg. ?c ! a \<and> ?c ! b \<and> e = endnames cfg ! a ! b)" for e
      unfolding w(9) using c assms(2) by blast
    then show "(if ?Q e then True else isEnabled e (cfg_net cfg)) \<longleftrightarrow>
        (\<exists>a < cfg_n cfg. \<exists>b < cfg_n cfg. ?c ! a \<and> ?c ! b \<and> e = endnames cfg ! a ! b)" for e
      by (simp only: if_bool_eq_disj) blast
  qed (simp add: w(1))
qed

lemma wired_disconnect:
  assumes "wired cfg" "i < cfg_n cfg" "disconnect i cfg = Inr cfg'"
  shows "wired cfg'"
proof -
  note w = wiredD [OF assms(1)]
  let ?c = "(connected cfg)[i := False]"
  let ?Q = "\<lambda>e. \<exists>j < cfg_n cfg. endnames cfg ! i \<noteq> [] \<and> e = endnames cfg ! i ! j \<or>
                              endnames cfg ! j \<noteq> [] \<and> e = endnames cfg ! j ! i"
  have cfg': "cfg' = setEnabled ?Q False (cfg\<lparr>connected := ?c\<rparr>)"
    using assms(3) disconnect_eq [OF assms(1,2)] by simp
  have c: "?c ! j \<longleftrightarrow> j \<noteq> i \<and> connected cfg ! j" if "j < cfg_n cfg" for j
    using that w(1) assms(2) by (cases "j = i") simp_all
  have "(if ?Q e then False else isEnabled e (cfg_net cfg)) \<longleftrightarrow>
      (\<exists>a < cfg_n cfg. \<exists>b < cfg_n cfg. ?c ! a \<and> ?c ! b \<and> e = endnames cfg ! a ! b)" (is "?l = ?r") for e
  proof
    assume l: ?l
    then have q: "\<not> ?Q e" by (rule contrapos_pn) simp
    with l have "isEnabled e (cfg_net cfg)" by (simp only: if_False)
    then obtain a b where ab: "a < cfg_n cfg" "b < cfg_n cfg" "connected cfg ! a" "connected cfg ! b"
      "e = endnames cfg ! a ! b"
      unfolding w(9) by blast
    have "a \<noteq> i" "b \<noteq> i" using q ab w(6) by blast+
    with ab c show ?r by blast
  next
    assume ?r
    then obtain a b where ab: "a < cfg_n cfg" "b < cfg_n cfg" "connected cfg ! a" "connected cfg ! b" "a \<noteq> i" "b \<noteq> i"
      "e = endnames cfg ! a ! b"
      using c by blast
    have ne: "endnames cfg ! a \<noteq> []" using ab w(6) by blast
    have "\<not> ?Q e"
    proof
      assume "?Q e"
      then obtain j where j: "j < cfg_n cfg" and "endnames cfg ! i \<noteq> [] \<and> e = endnames cfg ! i ! j \<or>
          endnames cfg ! j \<noteq> [] \<and> e = endnames cfg ! j ! i"
        by (elim exE conjE)
      then show False unfolding ab(7)
      proof (elim disjE conjE)
        assume "endnames cfg ! i \<noteq> []" "endnames cfg ! a ! b = endnames cfg ! i ! j"
        with w(8) [OF ab(1,2) assms(2) j ne] ab(5) show False by blast
      next
        assume "endnames cfg ! j \<noteq> []" "endnames cfg ! a ! b = endnames cfg ! j ! i"
        with w(8) [OF ab(1,2) j assms(2) ne] ab(6) show False by blast
      qed
    qed
    moreover have "isEnabled e (cfg_net cfg)" unfolding w(9) using ab by blast
    ultimately show ?l by (simp only: if_False)
  qed
  then have en: "(if ?Q e then False else isEnabled e (cfg_net cfg)) \<longleftrightarrow>
      (\<exists>a < cfg_n cfg. \<exists>b < cfg_n cfg. ?c ! a \<and> ?c ! b \<and> e = endnames cfg ! a ! b)" for e
    .
  have "endnames cfg ! j \<noteq> []" if "j < cfg_n cfg" "?c ! j" for j using that c w(6) by blast
  then show ?thesis unfolding cfg' using w(1) by (intro wired_reconnect assms(1) en) simp_all
qed

section \<open>Crash and restart\<close>

text \<open>The parts of the configuration the wiring does not look at.\<close>

lemma wired_frame:
  assumes "wired cfg" "cfg_n cfg' = cfg_n cfg" "connected cfg' = connected cfg" "endnames cfg' = endnames cfg"
    "length (rafts cfg') = length (rafts cfg)" "length (saved cfg') = length (saved cfg)"
    "ends (cfg_net cfg') = ends (cfg_net cfg)" "enabled (cfg_net cfg') = enabled (cfg_net cfg)"
    "connections (cfg_net cfg') = connections (cfg_net cfg)"
  shows "wired cfg'"
  using assms(1) unfolding wired_def isEnabled_def assms(2-9) .

lemma savedNow_cong:
  "rafts cfg' ! i = rafts cfg ! i \<Longrightarrow> saved cfg' ! i = saved cfg ! i \<Longrightarrow> savedNow i cfg' = savedNow i cfg"
  by (simp only: savedNow_def)

lemma savedNow_net [simp]: "savedNow i (cfg\<lparr>cfg_net := rn\<rparr>) = savedNow i cfg"
  by (rule savedNow_cong) simp_all

lemma disconnect_Inr:
  assumes "wired cfg" "disconnect i cfg = Inr cfg'"
  shows "i < cfg_n cfg"
  using assms wiredD(1) [OF assms(1)] by (auto simp: disconnect_def)

lemma crash1_Inr:
  assumes "wired cfg" "crash1 i cfg = Inr cfg'"
  obtains cfg1 where "i < cfg_n cfg" "disconnect i cfg = Inr cfg1" "wired cfg1"
    "cfg' = cfg1\<lparr>cfg_net := DeleteServer i (cfg_net cfg1), rafts := (rafts cfg1)[i := None],
               saved := (saved cfg1)[i := map_option (\<lambda>p. SaveRaftState (ReadRaftState p) MakePersister) (savedNow i cfg1)]\<rparr>"
proof -
  from assms(2) obtain cfg1 where d: "disconnect i cfg = Inr cfg1" by (auto simp: crash1_def)
  have i: "i < cfg_n cfg" by (rule disconnect_Inr [OF assms(1) d])
  show thesis
    by (rule that [OF i d wired_disconnect [OF assms(1) i d]])
       (use assms(2) d in \<open>simp add: crash1_def Let_def option.map_comp comp_def\<close>)
qed

lemma wired_crash1:
  assumes "wired cfg" "crash1 i cfg = Inr cfg'"
  shows "wired cfg'"
  using assms(1,2)
proof (rule crash1_Inr)
  fix cfg1
  assume "wired cfg1" and cfg': "cfg' = cfg1\<lparr>cfg_net := DeleteServer i (cfg_net cfg1), rafts := (rafts cfg1)[i := None],
    saved := (saved cfg1)[i := map_option (\<lambda>p. SaveRaftState (ReadRaftState p) MakePersister) (savedNow i cfg1)]\<rparr>"
  then show ?thesis by (rule_tac wired_frame [of cfg1]) (simp_all add: DeleteServer_def)
qed

text \<open>The new ends of an instance: their names are new and different, and they are disabled.\<close>

abbreviation makeEnd :: "(nat \<Rightarrow> string) \<Rightarrow> nat \<Rightarrow> 'c config \<Rightarrow> 'c config res" where
  "makeEnd names j cfg \<equiv>
     rbind (MakeEnd (names j) (cfg_net cfg)) (\<lambda>rn. Inr (cfg\<lparr>cfg_net := Connect (names j) j rn\<rparr>))"

lemma makeEnds:
  assumes "forEach [0..<m] (makeEnd names) cfg = Inr cfg'"
  shows "cfg' = cfg\<lparr>cfg_net := (cfg_net cfg)\<lparr>ends := ends (cfg_net cfg) \<union> names ` {..<m},
           enabled := (\<lambda>e. if e \<in> names ` {..<m} then Some False else enabled (cfg_net cfg) e),
           connections := connections (cfg_net cfg')\<rparr>\<rparr>"
    (is "cfg' = ?upd m cfg'")
    and "inj_on names {..<m}" "names ` {..<m} \<inter> ends (cfg_net cfg) = {}"
    and "j < m \<Longrightarrow> connections (cfg_net cfg') (names j) = Some j"
    and "e \<notin> names ` {..<m} \<Longrightarrow> connections (cfg_net cfg') e = connections (cfg_net cfg) e"
proof -
  let ?I = "\<lambda>m cfg'. cfg' = ?upd m cfg' \<and> inj_on names {..<m} \<and> names ` {..<m} \<inter> ends (cfg_net cfg) = {} \<and>
    (\<forall>j<m. connections (cfg_net cfg') (names j) = Some j) \<and>
    (\<forall>e. e \<notin> names ` {..<m} \<longrightarrow> connections (cfg_net cfg') e = connections (cfg_net cfg) e)"
  have "?I m cfg'"
    using assms
  proof (induction m arbitrary: cfg')
    case 0
    then show ?case by simp
  next
    case (Suc m)
    from Suc.prems obtain cfg1 where 1: "forEach [0..<m] (makeEnd names) cfg = Inr cfg1"
      and 2: "makeEnd names m cfg1 = Inr cfg'"
      by (auto simp: forEach_append)
    have I: "?I m cfg1" by (rule Suc.IH [OF 1])
    define rn where "rn = cfg_net cfg"
    define conns where "conns = connections (cfg_net cfg1)"
    from I have cfg1: "cfg1 = cfg\<lparr>cfg_net := rn\<lparr>ends := ends rn \<union> names ` {..<m},
        enabled := (\<lambda>e. if e \<in> names ` {..<m} then Some False else enabled rn e), connections := conns\<rparr>\<rparr>"
      unfolding rn_def conns_def by (rule conjunct1)
    from 2 have new: "names m \<notin> ends rn" "names m \<notin> names ` {..<m}"
      by (auto simp: cfg1 MakeEnd_def split: if_splits)
    have new2: "names j \<noteq> names m" if "j < m" for j using that new(2) by (metis imageI lessThan_iff)
    from 2 new have cfg': "cfg' = cfg\<lparr>cfg_net := rn\<lparr>ends := insert (names m) (ends rn \<union> names ` {..<m}),
        enabled := (\<lambda>e. if e \<in> names ` {..<m} then Some False else enabled rn e)(names m \<mapsto> False),
        connections := conns(names m \<mapsto> m)\<rparr>\<rparr>"
      by (simp add: cfg1 MakeEnd_def Connect_def)
    have en: "(\<lambda>e. if e \<in> names ` {..<m} then Some False else enabled rn e)(names m \<mapsto> False) =
        (\<lambda>e. if e \<in> names ` {..<Suc m} then Some False else enabled rn e)"
      by (auto simp: fun_eq_iff lessThan_Suc)
    have ends: "insert (names m) (ends rn \<union> names ` {..<m}) = ends rn \<union> names ` {..<Suc m}"
      by (simp add: lessThan_Suc)
    have conns: "connections (cfg_net cfg') = conns(names m \<mapsto> m)" by (simp add: cfg')
    have "cfg' = ?upd (Suc m) cfg'" unfolding conns rn_def [symmetric] by (rule cfg' [unfolded en ends])
    moreover have "inj_on names {..<Suc m}" "names ` {..<Suc m} \<inter> ends (cfg_net cfg) = {}"
      using I new by (auto simp: lessThan_Suc rn_def)
    moreover have "\<forall>j<Suc m. connections (cfg_net cfg') (names j) = Some j"
      using I new2 by (simp add: cfg' conns_def less_Suc_eq all_conj_distrib)
    moreover have "\<forall>e. e \<notin> names ` {..<Suc m} \<longrightarrow> connections (cfg_net cfg') e = connections (cfg_net cfg) e"
      using I by (auto simp: cfg' conns_def lessThan_Suc)
    ultimately show ?case by blast
  qed
  then show "cfg' = ?upd m cfg'" "inj_on names {..<m}" "names ` {..<m} \<inter> ends (cfg_net cfg) = {}"
    "j < m \<Longrightarrow> connections (cfg_net cfg') (names j) = Some j"
    "e \<notin> names ` {..<m} \<Longrightarrow> connections (cfg_net cfg') e = connections (cfg_net cfg) e"
    by blast+
qed

lemma wired_fresh_ends:
  assumes "wired cfg" "i < cfg_n cfg" "\<not> connected cfg ! i"
    and loop: "forEach [0..<cfg_n cfg] (makeEnd names)
                 (cfg\<lparr>endnames := (endnames cfg)[i := map names [0..<cfg_n cfg]]\<rparr>) = Inr cfg'"
  shows "wired cfg'"
proof -
  note w = wiredD [OF assms(1)]
  let ?en = "(endnames cfg)[i := map names [0..<cfg_n cfg]]" and ?new = "names ` {..<cfg_n cfg}"
  note l = makeEnds [OF loop]
  have sel: "cfg_n cfg' = cfg_n cfg" "connected cfg' = connected cfg" "endnames cfg' = ?en" "rafts cfg' = rafts cfg"
    "saved cfg' = saved cfg" "ends (cfg_net cfg') = ends (cfg_net cfg) \<union> ?new"
    by (subst l(1); simp)+
  have isEn: "isEnabled e (cfg_net cfg') \<longleftrightarrow> e \<notin> ?new \<and> isEnabled e (cfg_net cfg)" for e
    by (subst l(1)) (simp add: isEnabled_def)
  have old: "endnames cfg ! a ! b \<notin> ?new" if "a < cfg_n cfg" "b < cfg_n cfg" "endnames cfg ! a \<noteq> []" for a b
    using w(7) [OF that] l(3) by auto
  have old2: "names k \<noteq> endnames cfg ! a ! b"
    if "a < cfg_n cfg" "b < cfg_n cfg" "k < cfg_n cfg" "endnames cfg ! a \<noteq> []" for a b k
    using old [OF that(1,2,4)] that(3) by (metis imageI lessThan_iff)
  have en: "?en ! a = (if a = i then map names [0..<cfg_n cfg] else endnames cfg ! a)" if "a < cfg_n cfg" for a
    using that w(2) by simp
  have conn: "?en ! a ! b \<in> ends (cfg_net cfg') \<and> connections (cfg_net cfg') (?en ! a ! b) = Some b"
    if "a < cfg_n cfg" "b < cfg_n cfg" "?en ! a \<noteq> []" for a b
  proof (cases "a = i")
    case True
    then show ?thesis using that en l(4) [of b] by (simp add: sel)
  next
    case False
    then show ?thesis using that en w(7) [of a b] old [of a b] l(5) by (simp add: sel)
  qed
  have inj: "a = c \<and> b = d" if "a < cfg_n cfg" "b < cfg_n cfg" "c < cfg_n cfg" "d < cfg_n cfg" "?en ! a \<noteq> []" "?en ! c \<noteq> []"
    "?en ! a ! b = ?en ! c ! d" for a b c d
    using that en w(8) [of a b c d] old2 [of a b d] old2 [of c d b] l(2)
    by (cases "a = i"; cases "c = i") (auto dest: inj_onD)
  have isEn': "isEnabled e (cfg_net cfg') \<longleftrightarrow>
      (\<exists>a < cfg_n cfg. \<exists>b < cfg_n cfg. connected cfg ! a \<and> connected cfg ! b \<and> e = ?en ! a ! b)" for e
    unfolding isEn w(9) using en old w(6) assms(3) by (metis (no_types, lifting))
  show ?thesis
  proof (rule wiredI, unfold sel(1-5))
    show "?en ! a = [] \<or> length (?en ! a) = cfg_n cfg" if "a < cfg_n cfg" for a using that en w(5) [of a] by auto
    show "?en ! a \<noteq> []" if "a < cfg_n cfg" "connected cfg ! a" for a using that en w(6) assms(2) by simp
  qed (rule conn inj isEn'; assumption | simp add: w(1-4))+
qed

lemma start1_Inr:
  assumes "wired cfg" "start1 env names i cfg = Inr cfg'"
  obtains cfg1 cfg2 p rf where "i < cfg_n cfg" "crash1 i cfg = Inr cfg1" "wired cfg2"
    "forEach [0..<cfg_n cfg1] (makeEnd names)
       (cfg1\<lparr>endnames := (endnames cfg1)[i := map names [0..<cfg_n cfg1]]\<rparr>) = Inr cfg2"
    "p = (case saved cfg2 ! i of Some p \<Rightarrow> p | None \<Rightarrow> MakePersister)"
    "Make env (cfg_n cfg2) (int i) p = Inr rf"
    "cfg' = cfg2\<lparr>saved := (saved cfg2)[i := Some p], rafts := (rafts cfg2)[i := Some rf],
                 nextServer := nextServer cfg2 + 1, cfg_net := AddServer i (nextServer cfg2) (cfg_net cfg2)\<rparr>"
proof -
  from assms(2) obtain cfg1 where c: "crash1 i cfg = Inr cfg1" by (auto simp: start1_def)
  obtain cfg0 where i: "i < cfg_n cfg" and d: "disconnect i cfg = Inr cfg0" "wired cfg0"
    and cfg1: "cfg1 = cfg0\<lparr>cfg_net := DeleteServer i (cfg_net cfg0), rafts := (rafts cfg0)[i := None],
       saved := (saved cfg0)[i := map_option (\<lambda>p. SaveRaftState (ReadRaftState p) MakePersister) (savedNow i cfg0)]\<rparr>"
    by (rule crash1_Inr [OF assms(1) c])
  from assms(2) c obtain cfg2 where l: "forEach [0..<cfg_n cfg1] (makeEnd names)
      (cfg1\<lparr>endnames := (endnames cfg1)[i := map names [0..<cfg_n cfg1]]\<rparr>) = Inr cfg2"
    by (auto simp: start1_def Let_def)
  let ?p = "case saved cfg2 ! i of Some p \<Rightarrow> p | None \<Rightarrow> MakePersister"
  from assms(2) c l obtain rf where m: "Make env (cfg_n cfg2) (int i) ?p = Inr rf"
    by (auto simp: start1_def Let_def cong: option.case_cong)
  have off: "cfg_n cfg1 = cfg_n cfg" "\<not> connected cfg1 ! i"
    using disconnect_eq [OF assms(1) i] d(1) wiredD(1) [OF assms(1)] i by (auto simp: cfg1)
  have "wired cfg2"
    by (rule wired_fresh_ends [OF wired_crash1 [OF assms(1) c] _ off(2) l]) (simp add: off(1) i)
  then show thesis
    by (rule that [OF i c _ l refl m])
       (use assms(2) c l m in \<open>simp add: start1_def Let_def cong: option.case_cong\<close>)
qed

lemma wired_start1:
  assumes "wired cfg" "start1 env names i cfg = Inr cfg'"
  shows "wired cfg'"
  using assms
proof (rule start1_Inr)
  fix cfg1 cfg2 :: "'a config" and p rf
  assume "wired cfg2" and cfg': "cfg' = cfg2\<lparr>saved := (saved cfg2)[i := Some p], rafts := (rafts cfg2)[i := Some rf],
                 nextServer := nextServer cfg2 + 1, cfg_net := AddServer i (nextServer cfg2) (cfg_net cfg2)\<rparr>"
  then show ?thesis by (rule_tac wired_frame [of cfg2]) (simp_all add: AddServer_def)
qed

section \<open>What each call changes\<close>

lemma connect_Inr:
  assumes "wired cfg" "connect i cfg = Inr cfg'"
  shows "i < cfg_n cfg" "endnames cfg ! i \<noteq> []"
    "\<exists>Q. cfg' = setEnabled Q True (cfg\<lparr>connected := (connected cfg)[i := True]\<rparr>)"
proof -
  show i: "i < cfg_n cfg" using assms wiredD(1) [OF assms(1)] by (auto simp: connect_def)
  show e: "endnames cfg ! i \<noteq> []" using connect_not_started [OF assms(1) i] assms(2) by auto
  show "\<exists>Q. cfg' = setEnabled Q True (cfg\<lparr>connected := (connected cfg)[i := True]\<rparr>)"
    using connect_eq [OF assms(1) i e] assms(2) by auto
qed

text \<open>What is on the disk of server \<open>i\<close>, running or not.\<close>

definition onDisk :: "nat \<Rightarrow> 'c config \<Rightarrow> 'c gobval list" where
  "onDisk i cfg = (case savedNow i cfg of None \<Rightarrow> [] | Some p \<Rightarrow> ReadRaftState p)"

lemma crash1_effect:
  assumes "wired cfg" "crash1 i cfg = Inr cfg'"
  shows "i < cfg_n cfg" "cfg_n cfg' = cfg_n cfg" "connected cfg' = (connected cfg)[i := False]"
    "endnames cfg' = endnames cfg" "rafts cfg' = (rafts cfg)[i := None]"
    "logs cfg' = logs cfg" "applyErr cfg' = applyErr cfg" "maxIndex cfg' = maxIndex cfg" "nextServer cfg' = nextServer cfg"
    "ends (cfg_net cfg') = ends (cfg_net cfg)" "servers (cfg_net cfg') = (servers (cfg_net cfg))(i := None)"
    "\<And>j. onDisk j cfg' = onDisk j cfg"
proof -
  obtain cfg1 where i: "i < cfg_n cfg" and d: "disconnect i cfg = Inr cfg1" and cfg':
    "cfg' = cfg1\<lparr>cfg_net := DeleteServer i (cfg_net cfg1), rafts := (rafts cfg1)[i := None],
       saved := (saved cfg1)[i := map_option (\<lambda>p. SaveRaftState (ReadRaftState p) MakePersister) (savedNow i cfg1)]\<rparr>"
    using assms by (rule crash1_Inr)
  obtain Q where cfg1: "cfg1 = setEnabled Q False (cfg\<lparr>connected := (connected cfg)[i := False]\<rparr>)"
    using disconnect_eq [OF assms(1) i] d by simp
  show "i < cfg_n cfg" by (rule i)
  show "cfg_n cfg' = cfg_n cfg" "connected cfg' = (connected cfg)[i := False]"
    "endnames cfg' = endnames cfg" "rafts cfg' = (rafts cfg)[i := None]" "logs cfg' = logs cfg"
    "applyErr cfg' = applyErr cfg" "maxIndex cfg' = maxIndex cfg" "nextServer cfg' = nextServer cfg"
    "ends (cfg_net cfg') = ends (cfg_net cfg)" "servers (cfg_net cfg') = (servers (cfg_net cfg))(i := None)"
    by (simp_all add: cfg' cfg1 DeleteServer_def)
  have s: "savedNow j cfg1 = savedNow j cfg" for j by (simp add: savedNow_def cfg1 split: option.splits)
  have len: "length (rafts cfg1) = cfg_n cfg" "length (saved cfg1) = cfg_n cfg"
    using wiredD(3,4) [OF assms(1)] by (simp_all add: cfg1)
  show "onDisk j cfg' = onDisk j cfg" for j
  proof (cases "j = i")
    case True
    have "rafts cfg' ! i = None"
      "saved cfg' ! i = map_option (\<lambda>p. SaveRaftState (ReadRaftState p) MakePersister) (savedNow i cfg)"
      using len i by (simp_all add: cfg' s)
    then have "savedNow i cfg' = map_option (\<lambda>p. SaveRaftState (ReadRaftState p) MakePersister) (savedNow i cfg)"
      unfolding savedNow_def [of i cfg'] by simp
    then show ?thesis by (simp add: True onDisk_def persister_defs split: option.splits)
  next
    case False
    then have "savedNow j cfg' = savedNow j cfg" by (intro savedNow_cong) (simp_all add: cfg' cfg1)
    then show ?thesis by (simp add: onDisk_def)
  qed
qed

lemma start1_effect:
  assumes "wired cfg" "start1 env names i cfg = Inr cfg'"
  obtains p rf where "i < cfg_n cfg" "cfg_n cfg' = cfg_n cfg" "connected cfg' = (connected cfg)[i := False]"
    "endnames cfg' = (endnames cfg)[i := map names [0..<cfg_n cfg]]" "rafts cfg' = (rafts cfg)[i := Some rf]"
    "logs cfg' = logs cfg" "applyErr cfg' = applyErr cfg" "maxIndex cfg' = maxIndex cfg" "nextServer cfg' = nextServer cfg + 1"
    "ends (cfg_net cfg') = ends (cfg_net cfg) \<union> names ` {..<cfg_n cfg}" "names ` {..<cfg_n cfg} \<inter> ends (cfg_net cfg) = {}"
    "servers (cfg_net cfg') = (servers (cfg_net cfg))(i \<mapsto> nextServer cfg)"
    "Make env (cfg_n cfg) (int i) p = Inr rf" "ReadRaftState p = onDisk i cfg" "\<forall>j. onDisk j cfg' = onDisk j cfg"
proof -
  obtain cfg1 cfg2 p rf where c: "crash1 i cfg = Inr cfg1"
    and l: "forEach [0..<cfg_n cfg1] (makeEnd names)
       (cfg1\<lparr>endnames := (endnames cfg1)[i := map names [0..<cfg_n cfg1]]\<rparr>) = Inr cfg2"
    and p: "p = (case saved cfg2 ! i of Some p \<Rightarrow> p | None \<Rightarrow> MakePersister)"
    and m: "Make env (cfg_n cfg2) (int i) p = Inr rf"
    and cfg': "cfg' = cfg2\<lparr>saved := (saved cfg2)[i := Some p], rafts := (rafts cfg2)[i := Some rf],
                 nextServer := nextServer cfg2 + 1, cfg_net := AddServer i (nextServer cfg2) (cfg_net cfg2)\<rparr>"
    using assms by (rule start1_Inr)
  note e = crash1_effect [OF assms(1) c] and w = wiredD [OF wired_crash1 [OF assms(1) c]]
  have sel: "cfg_n cfg2 = cfg_n cfg1" "connected cfg2 = connected cfg1" "rafts cfg2 = rafts cfg1"
    "saved cfg2 = saved cfg1" "logs cfg2 = logs cfg1" "applyErr cfg2 = applyErr cfg1" "maxIndex cfg2 = maxIndex cfg1"
    "nextServer cfg2 = nextServer cfg1" "endnames cfg2 = (endnames cfg1)[i := map names [0..<cfg_n cfg1]]"
    "servers (cfg_net cfg2) = servers (cfg_net cfg1)"
    "ends (cfg_net cfg2) = ends (cfg_net cfg1) \<union> names ` {..<cfg_n cfg1}"
    by (subst makeEnds(1) [OF l]; simp)+
  have i1: "i < length (rafts cfg1)" "i < length (saved cfg1)" using w(3,4) e(1,2) by simp_all
  have off: "rafts cfg1 ! i = None" using i1 e(5) by simp
  have disk1: "ReadRaftState p = onDisk i cfg1"
    by (simp add: p onDisk_def savedNow_def sel off persister_defs split: option.splits)
  have disk2: "onDisk j cfg' = onDisk j cfg1" for j
  proof (cases "j = i")
    case True
    then show ?thesis
      using Make_persistent(7) [OF m] disk1 i1 by (simp add: onDisk_def savedNow_def cfg' sel)
  next
    case False
    then have "savedNow j cfg' = savedNow j cfg1" by (intro savedNow_cong) (simp_all add: cfg' sel)
    then show ?thesis by (simp add: onDisk_def)
  qed
  show thesis
  proof (rule that [of rf p])
    show "names ` {..<cfg_n cfg} \<inter> ends (cfg_net cfg) = {}" using makeEnds(3) [OF l] e(2,10) by simp
    show "Make env (cfg_n cfg) (int i) p = Inr rf" using m by (simp add: sel e)
    show "ReadRaftState p = onDisk i cfg" by (simp add: disk1 e)
    show "\<forall>j. onDisk j cfg' = onDisk j cfg" by (simp add: disk2 e)
  qed (simp_all add: cfg' sel e AddServer_def)
qed

end
