(* ===== verification/Raft_Harness.thy ===== *)
theory Raft_Harness
  imports Raft_Wiring
begin

text \<open>
  Sequences of calls of the harness of \<open>raft/config.go\<close>, interleaved with the servers it runs and the messages they apply:
  the invariant of every such sequence, and what follows from it about partitions, restarts and the counts of committed entries.
\<close>

section \<open>Steps\<close>

datatype 'c cfgevent =
    StartEv env "nat \<Rightarrow> string" nat
  | CrashEv nat
  | ConnectEv nat
  | DisconnectEv nat
  | ServerEv nat "'c Raft"
  | ApplyEv nat "'c ApplyMsg"
  | UnreliableEv bool
  | ReorderingEv bool
  | DelaysEv bool

text \<open>
  \<open>ServerEv\<close> is any step of the running instance of server \<open>i\<close>: its handlers and goroutines never change \<open>me\<close> and \<open>peers\<close>.
\<close>

inductive cfgstep :: "'c config \<Rightarrow> 'c cfgevent \<Rightarrow> 'c config \<Rightarrow> bool" where
  step_start: "start1 env names i cfg = Inr cfg' \<Longrightarrow> cfgstep cfg (StartEv env names i) cfg'"
| step_crash: "crash1 i cfg = Inr cfg' \<Longrightarrow> cfgstep cfg (CrashEv i) cfg'"
| step_connect: "connect i cfg = Inr cfg' \<Longrightarrow> cfgstep cfg (ConnectEv i) cfg'"
| step_disconnect: "disconnect i cfg = Inr cfg' \<Longrightarrow> cfgstep cfg (DisconnectEv i) cfg'"
| step_server: "i < cfg_n cfg \<Longrightarrow> rafts cfg ! i = Some rf \<Longrightarrow> me rf' = me rf \<Longrightarrow> peers rf' = peers rf \<Longrightarrow>
    cfgstep cfg (ServerEv i rf') (cfg\<lparr>rafts := (rafts cfg)[i := Some rf']\<rparr>)"
| step_apply: "i < cfg_n cfg \<Longrightarrow> applyReader i m cfg = Inr cfg' \<Longrightarrow> cfgstep cfg (ApplyEv i m) cfg'"
| step_unreliable: "cfgstep cfg (UnreliableEv b) (setunreliable b cfg)"
| step_reordering: "cfgstep cfg (ReorderingEv b) (setlongreordering b cfg)"
| step_delays: "cfgstep cfg (DelaysEv b) (cfg\<lparr>cfg_net := LongDelays b (cfg_net cfg)\<rparr>)"

inductive_cases cfgstep_server: "cfgstep cfg (ServerEv i rf) cfg'"

definition cfg_init :: "'c config \<Rightarrow> bool" where
  "cfg_init cfg \<longleftrightarrow> (\<exists>n. cfg = emptyConfig n)"

abbreviation cfg_reach :: "'c config \<Rightarrow> bool" where
  "cfg_reach \<equiv> reach cfg_init cfgstep"

lemma cfg_reach_step: "cfg_reach cfg \<Longrightarrow> cfgstep cfg ev cfg' \<Longrightarrow> cfg_reach cfg'"
  by (rule reach.reach_step)

section \<open>The invariant\<close>

text \<open>A server is on the network exactly while it has an instance, each instance under a pointer of its own.\<close>

definition hosted :: "'c config \<Rightarrow> bool" where
  "hosted cfg \<longleftrightarrow>
     (\<forall>i < cfg_n cfg. servers (cfg_net cfg) i = None \<longleftrightarrow> rafts cfg ! i = None) \<and>
     (\<forall>i < cfg_n cfg. \<forall>rf. rafts cfg ! i = Some rf \<longrightarrow> me rf = int i \<and> peers rf = cfg_n cfg) \<and>
     (\<forall>i p. servers (cfg_net cfg) i = Some p \<longrightarrow> i < cfg_n cfg \<and> p < nextServer cfg) \<and>
     (\<forall>i j p. servers (cfg_net cfg) i = Some p \<longrightarrow> servers (cfg_net cfg) j = Some p \<longrightarrow> i = j)"

text \<open>The servers agree on what they applied, each without gaps, and \<open>maxIndex\<close> is a bound.\<close>

definition logs_agree :: "'c config \<Rightarrow> bool" where
  "logs_agree cfg \<longleftrightarrow>
     length (logs cfg) = cfg_n cfg \<and> applyErr cfg = replicate (cfg_n cfg) '''' \<and>
     (\<forall>l \<in> set (logs cfg). \<forall>l' \<in> set (logs cfg). \<forall>k a b. l k = Some a \<longrightarrow> l' k = Some b \<longrightarrow> a = b) \<and>
     (\<forall>l \<in> set (logs cfg). \<forall>k. l k \<noteq> None \<longrightarrow> k \<le> maxIndex cfg \<and> (1 < k \<longrightarrow> l (k - 1) \<noteq> None))"

lemma hostedD:
  assumes "hosted cfg"
  shows "i < cfg_n cfg \<Longrightarrow> servers (cfg_net cfg) i = None \<longleftrightarrow> rafts cfg ! i = None"
    "i < cfg_n cfg \<Longrightarrow> rafts cfg ! i = Some rf \<Longrightarrow> me rf = int i \<and> peers rf = cfg_n cfg"
    "servers (cfg_net cfg) i = Some p \<Longrightarrow> i < cfg_n cfg \<and> p < nextServer cfg"
    "servers (cfg_net cfg) i = Some p \<Longrightarrow> servers (cfg_net cfg) j = Some p \<Longrightarrow> i = j"
  using assms unfolding hosted_def by (elim conjE; blast)+

lemma hosted_update:
  assumes "hosted cfg" "i < cfg_n cfg" "length (rafts cfg) = cfg_n cfg"
    and e: "cfg_n cfg' = cfg_n cfg" "rafts cfg' = (rafts cfg)[i := r]" "nextServer cfg \<le> nextServer cfg'"
      "servers (cfg_net cfg') = (servers (cfg_net cfg))(i := q)"
    and r: "q = None \<longleftrightarrow> r = None" "\<And>rf. r = Some rf \<Longrightarrow> me rf = int i \<and> peers rf = cfg_n cfg"
      "\<And>p. q = Some p \<Longrightarrow> nextServer cfg \<le> p \<and> p < nextServer cfg'"
  shows "hosted cfg'"
proof -
  note h = hostedD [OF assms(1)]
  have "\<forall>j < cfg_n cfg. ((servers (cfg_net cfg))(i := q)) j = None \<longleftrightarrow> (rafts cfg)[i := r] ! j = None"
    using h(1) r(1) assms(2,3) by (simp add: nth_list_update)
  moreover have "\<forall>j < cfg_n cfg. \<forall>rf. (rafts cfg)[i := r] ! j = Some rf \<longrightarrow> me rf = int j \<and> peers rf = cfg_n cfg"
    using h(2) r(2) assms(2,3) by (simp add: nth_list_update)
  moreover have "\<forall>j p. ((servers (cfg_net cfg))(i := q)) j = Some p \<longrightarrow> j < cfg_n cfg \<and> p < nextServer cfg'"
    using h(3) r(3) assms(2) e(3) by (auto dest: less_le_trans)
  moreover have "\<forall>j k p. ((servers (cfg_net cfg))(i := q)) j = Some p \<longrightarrow>
      ((servers (cfg_net cfg))(i := q)) k = Some p \<longrightarrow> j = k"
    using h(3,4) r(3) by (auto simp: not_less [symmetric])
  ultimately show ?thesis unfolding hosted_def e(1,2,4) by blast
qed

lemma hosted_frame:
  assumes "hosted cfg" "cfg_n cfg' = cfg_n cfg" "rafts cfg' = rafts cfg" "nextServer cfg' = nextServer cfg"
    "servers (cfg_net cfg') = servers (cfg_net cfg)"
  shows "hosted cfg'"
  using assms(1) unfolding hosted_def assms(2-5) .

lemma logs_agree_frame:
  assumes "logs_agree cfg" "cfg_n cfg' = cfg_n cfg" "logs cfg' = logs cfg" "applyErr cfg' = applyErr cfg"
    "maxIndex cfg' = maxIndex cfg"
  shows "logs_agree cfg'"
  using assms(1) unfolding logs_agree_def assms(2-5) .

lemma hosted_crash1:
  assumes "hosted cfg" "wired cfg" "crash1 i cfg = Inr cfg'"
  shows "hosted cfg'"
proof -
  note e = crash1_effect [OF assms(2,3)] and len = wiredD(3) [OF assms(2)]
  show ?thesis by (rule hosted_update [OF assms(1) e(1) len e(2,5) _ e(11)]) (simp_all add: e(9))
qed

lemma hosted_start1:
  assumes "hosted cfg" "wired cfg" "start1 env names i cfg = Inr cfg'"
  shows "hosted cfg'"
proof -
  note len = wiredD(3) [OF assms(2)]
  obtain p rf where e: "i < cfg_n cfg" "cfg_n cfg' = cfg_n cfg" "rafts cfg' = (rafts cfg)[i := Some rf]"
    "nextServer cfg' = nextServer cfg + 1" "servers (cfg_net cfg') = (servers (cfg_net cfg))(i \<mapsto> nextServer cfg)"
    and m: "Make env (cfg_n cfg) (int i) p = Inr rf"
    using assms(2,3) by (rule start1_effect)
  from Make_persistent(4,5) [OF m] show ?thesis
    by (intro hosted_update [OF assms(1) e(1) len e(2,3) _ e(5)]) (auto simp: e(4))
qed

lemma applyReader_Inr:
  assumes "applyReader i m cfg = Inr cfg'"
  obtains "cfg' = cfg"
  | "cfg' = cfg\<lparr>logs := (logs cfg)[i := (logs cfg ! i)(CommandIndex m \<mapsto> msg_Command m)],
                maxIndex := max (maxIndex cfg) (CommandIndex m)\<rparr>"
    "\<And>l old. l \<in> set (logs cfg) \<Longrightarrow> l (CommandIndex m) = Some old \<Longrightarrow> old = msg_Command m"
    "CommandIndex m > 1 \<Longrightarrow> (logs cfg ! i) (CommandIndex m - 1) \<noteq> None"
  using assms
  by (cases "CommandIndex m > maxIndex cfg")
     (force simp: applyReader_def Let_def max_def split: if_splits option.splits)+

lemma applyReader_frame:
  assumes "applyReader i m cfg = Inr cfg'"
  shows "cfg' = cfg\<lparr>logs := logs cfg', maxIndex := maxIndex cfg'\<rparr>"
  using assms by (cases rule: applyReader_Inr) simp_all

lemma logs_agreeD:
  assumes "logs_agree cfg"
  shows "length (logs cfg) = cfg_n cfg" "applyErr cfg = replicate (cfg_n cfg) ''''"
    "l \<in> set (logs cfg) \<Longrightarrow> l' \<in> set (logs cfg) \<Longrightarrow> l k = Some a \<Longrightarrow> l' k = Some b \<Longrightarrow> a = b"
    "l \<in> set (logs cfg) \<Longrightarrow> l k = Some a \<Longrightarrow> k \<le> maxIndex cfg"
    "l \<in> set (logs cfg) \<Longrightarrow> l k = Some a \<Longrightarrow> 1 < k \<Longrightarrow> l (k - 1) \<noteq> None"
  using assms unfolding logs_agree_def by (elim conjE; blast)+

lemma logs_agree_apply:
  assumes "logs_agree cfg" "i < cfg_n cfg" "applyReader i m cfg = Inr cfg'"
  shows "logs_agree cfg'"
  using assms(3)
proof (cases rule: applyReader_Inr)
  case 1
  then show ?thesis using assms(1) by simp
next
  case 2
  note a = logs_agreeD [OF assms(1)]
  let ?k = "CommandIndex m" and ?v = "msg_Command m"
  let ?l = "(logs cfg ! i)(?k \<mapsto> ?v)"
  have i: "logs cfg ! i \<in> set (logs cfg)" using assms(2) a(1) by simp
  have mem: "l = ?l \<or> l \<in> set (logs cfg)" if "l \<in> set ((logs cfg)[i := ?l])" for l
    using that set_update_subset_insert [of "logs cfg" i ?l] by blast
  have val: "l k = Some c \<Longrightarrow> k = ?k \<and> c = ?v \<or> (\<exists>l0 \<in> set (logs cfg). l0 k = Some c)"
    if "l \<in> set ((logs cfg)[i := ?l])" for l k c
    using mem [OF that] i by (auto split: if_splits)
  have agree: "c = d" if "l \<in> set ((logs cfg)[i := ?l])" "l' \<in> set ((logs cfg)[i := ?l])" "l k = Some c" "l' k = Some d"
    for l l' k c d
    using val [OF that(1,3)] val [OF that(2,4)] a(3) 2(2) by metis
  have order: "k \<le> max (maxIndex cfg) ?k \<and> (1 < k \<longrightarrow> l (k - 1) \<noteq> None)"
    if "l \<in> set ((logs cfg)[i := ?l])" "l k = Some c" for l k c
    using mem [OF that(1)]
  proof
    assume "l \<in> set (logs cfg)"
    then show ?thesis using a(4) [of l k c] a(5) [of l k c] that(2) by (simp add: le_max_iff_disj)
  next
    assume l: "l = ?l"
    show ?thesis
    proof (cases "k = ?k")
      case True
      then show ?thesis using 2(3) by (simp add: l)
    next
      case False
      then have "(logs cfg ! i) k = Some c" using that(2) l by simp
      then show ?thesis using a(4) [OF i, of k c] a(5) [OF i, of k c] l by (simp add: le_max_iff_disj)
    qed
  qed
  show ?thesis
    unfolding logs_agree_def 2(1)
    using a(1,2) agree order by simp blast
qed

definition cfg_inv :: "'c config \<Rightarrow> bool" where
  "cfg_inv cfg \<longleftrightarrow> wired cfg \<and> hosted cfg \<and> logs_agree cfg"

lemma cfg_invD:
  assumes "cfg_inv cfg"
  shows "wired cfg" "hosted cfg" "logs_agree cfg"
  using assms by (simp_all add: cfg_inv_def)

lemma cfg_inv_empty: "cfg_inv (emptyConfig n)"
proof -
  have "wired (emptyConfig n)" by (rule wiredI) (simp_all add: emptyConfig_def MakeNetwork_def isEnabled_def)
  moreover have "hosted (emptyConfig n)" by (simp add: hosted_def emptyConfig_def MakeNetwork_def)
  moreover have "logs_agree (emptyConfig n)" by (auto simp: logs_agree_def emptyConfig_def)
  ultimately show ?thesis by (simp add: cfg_inv_def)
qed

lemma cfg_inv_frame:
  assumes "cfg_inv cfg" "wired cfg'" "cfg_n cfg' = cfg_n cfg" "rafts cfg' = rafts cfg" "nextServer cfg' = nextServer cfg"
    "servers (cfg_net cfg') = servers (cfg_net cfg)" "logs cfg' = logs cfg" "applyErr cfg' = applyErr cfg"
    "maxIndex cfg' = maxIndex cfg"
  shows "cfg_inv cfg'"
  using hosted_frame [OF cfg_invD(2) [OF assms(1)] assms(3-6)]
    logs_agree_frame [OF cfg_invD(3) [OF assms(1)] assms(3,7-9)] assms(2)
  by (simp add: cfg_inv_def)

lemma cfg_inv_step:
  assumes "cfg_inv cfg" "cfgstep cfg ev cfg'"
  shows "cfg_inv cfg'"
  using assms(2,1)
proof (induction rule: cfgstep.induct)
  case (step_start env names i cfg cfg')
  note I = cfg_invD [OF step_start.prems]
  obtain rf p where "cfg_n cfg' = cfg_n cfg" "logs cfg' = logs cfg" "applyErr cfg' = applyErr cfg" "maxIndex cfg' = maxIndex cfg"
    using I(1) step_start.hyps by (rule start1_effect)
  then have "logs_agree cfg'" by (rule logs_agree_frame [OF I(3)])
  then show ?case
    using wired_start1 [OF I(1) step_start.hyps] hosted_start1 [OF I(2,1) step_start.hyps] by (simp add: cfg_inv_def)
next
  case (step_crash i cfg cfg')
  note I = cfg_invD [OF step_crash.prems]
  have "logs_agree cfg'" using crash1_effect [OF I(1) step_crash.hyps] by (intro logs_agree_frame [OF I(3)])
  then show ?case
    using wired_crash1 [OF I(1) step_crash.hyps] hosted_crash1 [OF I(2,1) step_crash.hyps] by (simp add: cfg_inv_def)
next
  case (step_connect i cfg cfg')
  note w = cfg_invD(1) [OF step_connect.prems]
  note c = connect_Inr [OF w step_connect.hyps]
  have "wired cfg'" by (rule wired_connect [OF w c(1,2) step_connect.hyps])
  with step_connect.prems show ?case by (rule cfg_inv_frame) (use c(3) in auto)
next
  case (step_disconnect i cfg cfg')
  note w = cfg_invD(1) [OF step_disconnect.prems]
  have i: "i < cfg_n cfg" by (rule disconnect_Inr [OF w step_disconnect.hyps])
  have "wired cfg'" by (rule wired_disconnect [OF w i step_disconnect.hyps])
  with step_disconnect.prems show ?case
    by (rule cfg_inv_frame) (use disconnect_eq [OF w i] step_disconnect.hyps in auto)
next
  case (step_server i cfg rf rf')
  note I = cfg_invD [OF step_server.prems]
  let ?cfg = "cfg\<lparr>rafts := (rafts cfg)[i := Some rf']\<rparr>"
  have "wired ?cfg" by (rule wired_frame [OF I(1)]) simp_all
  moreover have "logs_agree ?cfg" by (rule logs_agree_frame [OF I(3)]) simp_all
  moreover have "hosted ?cfg"
    using hostedD [OF I(2)] step_server.hyps wiredD(3) [OF I(1)]
    unfolding hosted_def by (intro conjI) (simp_all add: nth_list_update)
  ultimately show ?case by (simp add: cfg_inv_def)
next
  case (step_apply i cfg m cfg')
  note I = cfg_invD [OF step_apply.prems]
  have "logs_agree cfg'" by (rule logs_agree_apply [OF I(3) step_apply.hyps])
  moreover have "wired cfg'"
    by (subst applyReader_frame [OF step_apply.hyps(2)]) (rule wired_frame [OF I(1)]; simp)
  moreover have "hosted cfg'"
    by (subst applyReader_frame [OF step_apply.hyps(2)]) (rule hosted_frame [OF I(2)]; simp)
  ultimately show ?case by (simp add: cfg_inv_def)
next
  case (step_unreliable cfg b)
  show ?case
    by (rule cfg_inv_frame [OF step_unreliable wired_frame [OF cfg_invD(1) [OF step_unreliable]]])
       (simp_all add: setunreliable_def Reliable_def)
next
  case (step_reordering cfg b)
  show ?case
    by (rule cfg_inv_frame [OF step_reordering wired_frame [OF cfg_invD(1) [OF step_reordering]]])
       (simp_all add: setlongreordering_def LongReordering_def)
next
  case (step_delays cfg b)
  show ?case
    by (rule cfg_inv_frame [OF step_delays wired_frame [OF cfg_invD(1) [OF step_delays]]])
       (simp_all add: LongDelays_def)
qed

interpretation harness: invariant_system cfg_init cfgstep cfg_inv
  by unfold_locales (auto simp: cfg_init_def intro: cfg_inv_empty cfg_inv_step)

section \<open>Starting a configuration\<close>

lemma makeEnds_return:
  assumes "inj_on names {..<m}" "names ` {..<m} \<inter> ends (cfg_net cfg) = {}"
  shows "\<exists>cfg'. forEach [0..<m] (makeEnd names) cfg = Inr cfg'"
  using assms
proof (induction m)
  case (Suc m)
  then obtain cfg1 where 1: "forEach [0..<m] (makeEnd names) cfg = Inr cfg1"
    by (auto simp: lessThan_Suc inj_on_insert)
  have "ends (cfg_net cfg1) = ends (cfg_net cfg) \<union> names ` {..<m}" by (subst makeEnds(1) [OF 1]) simp
  then have "names m \<notin> ends (cfg_net cfg1)" using Suc.prems by (auto simp: lessThan_Suc)
  with 1 show ?case by (simp add: forEach_append MakeEnd_def)
qed simp

lemma start1_returns:
  assumes "wired cfg" "i < cfg_n cfg" "inj_on names {..<cfg_n cfg}" "names ` {..<cfg_n cfg} \<inter> ends (cfg_net cfg) = {}"
  shows "\<exists>cfg'. start1 env names i cfg = Inr cfg'"
proof -
  obtain cfg1 where c: "crash1 i cfg = Inr cfg1"
    using disconnect_eq [OF assms(1,2)] by (simp add: crash1_def Let_def)
  note e = crash1_effect [OF assms(1) c]
  obtain cfg2 where l: "forEach [0..<cfg_n cfg1] (makeEnd names)
      (cfg1\<lparr>endnames := (endnames cfg1)[i := map names [0..<cfg_n cfg1]]\<rparr>) = Inr cfg2"
    using makeEnds_return [of names "cfg_n cfg1" "cfg1\<lparr>endnames := (endnames cfg1)[i := map names [0..<cfg_n cfg1]]\<rparr>"]
      assms(3,4) e(2,10) by auto
  obtain rf where "Make env (cfg_n cfg2) (int i) (case saved cfg2 ! i of Some p \<Rightarrow> p | None \<Rightarrow> MakePersister) = Inr rf"
    using Make_returns by blast
  with c l show ?thesis by (simp add: start1_def Let_def cong: option.case_cong)
qed

text \<open>A server that has just been made: what \<open>Make\<close> gives from an empty disk.\<close>

definition booted :: "nat \<Rightarrow> nat \<Rightarrow> 'c config \<Rightarrow> bool" where
  "booted n k cfg \<longleftrightarrow> cfg_reach cfg \<and> cfg_n cfg = n \<and> logs cfg = replicate n Map.empty \<and>
     (\<forall>i < n. onDisk i cfg = []) \<and>
     (\<forall>i < k. endnames cfg ! i \<noteq> [] \<and> (\<exists>rf. rafts cfg ! i = Some rf \<and> GetState rf = (0, False)))"

lemma bootedD:
  assumes "booted n k cfg"
  shows "cfg_reach cfg" "cfg_n cfg = n" "i < k \<Longrightarrow> \<exists>rf. rafts cfg ! i = Some rf"
  using assms unfolding booted_def by blast+

lemma booted_step:
  assumes "booted n k cfg" "k < n" "inj_on names {..<n}" "names ` {..<n} \<inter> ends (cfg_net cfg) = {}"
  obtains cfg' where "start1 env names k cfg = Inr cfg'" "booted n (Suc k) cfg'"
    "ends (cfg_net cfg') = ends (cfg_net cfg) \<union> names ` {..<n}"
proof -
  have r: "cfg_reach cfg" and n: "cfg_n cfg = n" and logs: "logs cfg = replicate n Map.empty"
    and disk: "\<And>i. i < n \<Longrightarrow> onDisk i cfg = []"
    and up: "\<And>i. i < k \<Longrightarrow> endnames cfg ! i \<noteq> [] \<and> (\<exists>rf. rafts cfg ! i = Some rf \<and> GetState rf = (0, False))"
    using assms(1) by (simp_all add: booted_def)
  note w = cfg_invD(1) [OF harness.reach_inv [OF r]]
  obtain cfg' where s: "start1 env names k cfg = Inr cfg'"
    using start1_returns [OF w] assms(2-4) n by blast
  obtain p rf where e: "cfg_n cfg' = cfg_n cfg" "endnames cfg' = (endnames cfg)[k := map names [0..<cfg_n cfg]]"
    "rafts cfg' = (rafts cfg)[k := Some rf]" "logs cfg' = logs cfg"
    "ends (cfg_net cfg') = ends (cfg_net cfg) \<union> names ` {..<cfg_n cfg}"
    and m: "Make env (cfg_n cfg) (int k) p = Inr rf" "ReadRaftState p = onDisk k cfg" "\<forall>j. onDisk j cfg' = onDisk j cfg"
    using w s by (rule start1_effect)
  have "durable p = (0, -1, [])"
    using m(2) disk assms(2) by (simp add: durable_def readPersist_def newRaft_def)
  then have "GetState rf = (0, False)"
    using Make_persistent(1,6) [OF m(1)] by (simp add: GetState_def)
  then have "endnames cfg' ! i \<noteq> [] \<and> (\<exists>rf. rafts cfg' ! i = Some rf \<and> GetState rf = (0, False))" if "i < Suc k" for i
    using that up [of i] wiredD(2,3) [OF w] assms(2) n by (cases "i = k") (simp_all add: e)
  moreover have "cfg_reach cfg'" by (rule cfg_reach_step [OF r step_start [OF s]])
  ultimately have "booted n (Suc k) cfg'" using n logs disk by (simp add: booted_def e m(3))
  with s show thesis by (rule that) (simp add: e n)
qed

lemma booted_all:
  assumes "booted n 0 cfg" "ends (cfg_net cfg) = {}" "\<And>i. i < n \<Longrightarrow> inj_on (names i) {..<n}"
    "\<And>i j. i < n \<Longrightarrow> j < n \<Longrightarrow> i \<noteq> j \<Longrightarrow> names i ` {..<n} \<inter> names j ` {..<n} = {}" "k \<le> n"
  shows "\<exists>cfg'. forEach [0..<k] (\<lambda>i cfg. start1 env (names i) i (cfg\<lparr>logs := (logs cfg)[i := Map.empty]\<rparr>)) cfg = Inr cfg' \<and>
    booted n k cfg' \<and> ends (cfg_net cfg') = (\<Union>i<k. names i ` {..<n})"
  using assms(5)
proof (induction k)
  case 0
  then show ?case using assms(1,2) by simp
next
  case (Suc k)
  obtain cfg1 where 1: "forEach [0..<k] (\<lambda>i cfg. start1 env (names i) i (cfg\<lparr>logs := (logs cfg)[i := Map.empty]\<rparr>)) cfg = Inr cfg1"
    "booted n k cfg1" "ends (cfg_net cfg1) = (\<Union>i<k. names i ` {..<n})"
    using Suc.IH [OF Suc_leD [OF Suc.prems]] by (elim exE conjE)
  have "names k ` {..<n} \<inter> names i ` {..<n} = {}" if "i < k" for i using assms(4) [of k i] that Suc.prems by simp
  then have "names k ` {..<n} \<inter> ends (cfg_net cfg1) = {}" unfolding 1(3) by blast
  then obtain cfg' where 2: "start1 env (names k) k cfg1 = Inr cfg'" "booted n (Suc k) cfg'"
    "ends (cfg_net cfg') = ends (cfg_net cfg1) \<union> names k ` {..<n}"
    using booted_step [OF 1(2), of "names k" env thesis] assms(3) Suc.prems by simp
  have "cfg1\<lparr>logs := (logs cfg1)[k := Map.empty]\<rparr> = cfg1"
    using 1(2) Suc.prems by (simp add: booted_def list_update_same_conv)
  then have "forEach [0..<Suc k] (\<lambda>i cfg. start1 env (names i) i (cfg\<lparr>logs := (logs cfg)[i := Map.empty]\<rparr>)) cfg = Inr cfg'"
    using 1(1) 2(1) by (simp add: forEach_append)
  moreover have "ends (cfg_net cfg') = (\<Union>i<Suc k. names i ` {..<n})"
    using 1(3) 2(3) by (simp add: lessThan_Suc Un_commute)
  ultimately show ?case using 2(2) by blast
qed

lemma connect_all:
  assumes "booted n n cfg" "k \<le> n"
  shows "\<exists>cfg'. forEach [0..<k] connect cfg = Inr cfg' \<and> booted n n cfg' \<and> (\<forall>i < k. connected cfg' ! i)"
  using assms(2)
proof (induction k)
  case 0
  then show ?case using assms(1) by simp
next
  case (Suc k)
  obtain cfg1 where 1: "forEach [0..<k] connect cfg = Inr cfg1" "booted n n cfg1" "\<forall>i < k. connected cfg1 ! i"
    using Suc.IH [OF Suc_leD [OF Suc.prems]] by (elim exE conjE)
  then have r: "cfg_reach cfg1" and n: "cfg_n cfg1 = n" and e: "endnames cfg1 ! k \<noteq> []"
    using Suc.prems by (simp_all add: booted_def)
  note w = cfg_invD(1) [OF harness.reach_inv [OF r]]
  obtain Q where c: "connect k cfg1 = Inr (setEnabled Q True (cfg1\<lparr>connected := (connected cfg1)[k := True]\<rparr>))"
    using connect_eq [OF w _ e] n Suc.prems by auto
  let ?cfg = "setEnabled Q True (cfg1\<lparr>connected := (connected cfg1)[k := True]\<rparr>)"
  have "cfg_reach ?cfg" by (rule cfg_reach_step [OF r step_connect [OF c]])
  moreover have "onDisk i ?cfg = onDisk i cfg1" for i by (simp add: onDisk_def savedNow_cong [of ?cfg i cfg1])
  ultimately have "booted n n ?cfg" using 1(2) by (simp add: booted_def)
  moreover have "\<forall>i < Suc k. connected ?cfg ! i"
    using 1(3) wiredD(1) [OF w] n Suc.prems by (auto simp: less_Suc_eq nth_list_update)
  moreover have "forEach [0..<Suc k] connect cfg = Inr ?cfg" using 1(1) c by (simp add: forEach_append)
  ultimately show ?case by blast
qed

lemma make_config_booted:
  assumes "\<And>i. i < n \<Longrightarrow> inj_on (names i) {..<n}"
    "\<And>i j. i < n \<Longrightarrow> j < n \<Longrightarrow> i \<noteq> j \<Longrightarrow> names i ` {..<n} \<inter> names j ` {..<n} = {}"
  obtains cfg :: "'c config" where "make_config env names n unreliable = Inr cfg" "booted n n cfg" "\<And>i. i < n \<Longrightarrow> connected cfg ! i"
proof -
  let ?base = "setunreliable unreliable (emptyConfig n) :: 'c config"
  let ?cfg = "?base\<lparr>cfg_net := LongDelays True (cfg_net ?base)\<rparr>"
  have "cfg_reach (emptyConfig n :: 'c config)" by (rule reach.reach_init) (auto simp: cfg_init_def)
  then have "cfg_reach ?base" by (rule cfg_reach_step [OF _ step_unreliable])
  then have "cfg_reach ?cfg" by (rule cfg_reach_step [OF _ step_delays])
  then have "booted n 0 ?cfg"
    by (simp add: booted_def setunreliable_def emptyConfig_def onDisk_def savedNow_def)
  then obtain cfg1 where 1: "booted n n cfg1" "forEach [0..<n]
      (\<lambda>i cfg. start1 env (names i) i (cfg\<lparr>logs := (logs cfg)[i := Map.empty]\<rparr>)) ?cfg = Inr cfg1"
    using booted_all [of n ?cfg names n env] assms
    by (auto simp: setunreliable_def emptyConfig_def LongDelays_def Reliable_def MakeNetwork_def)
  obtain cfg2 where "forEach [0..<n] connect cfg1 = Inr cfg2" "booted n n cfg2" "\<forall>i < n. connected cfg2 ! i"
    using connect_all [OF 1(1), of n] by auto
  with 1 show thesis by (intro that [of cfg2]) (simp_all add: make_config_def Let_def)
qed

section \<open>What is kept from step to step\<close>

text \<open>An end of an instance that was replaced: it exists, and it is no longer one of the current ends.\<close>

definition retired :: "string \<Rightarrow> 'c config \<Rightarrow> bool" where
  "retired e cfg \<longleftrightarrow> e \<in> ends (cfg_net cfg) \<and> (\<forall>a < cfg_n cfg. e \<notin> set (endnames cfg ! a))"

lemma retired_frame:
  "retired e cfg \<Longrightarrow> cfg_n cfg' = cfg_n cfg \<Longrightarrow> endnames cfg' = endnames cfg \<Longrightarrow> ends (cfg_net cfg') = ends (cfg_net cfg) \<Longrightarrow>
   retired e cfg'"
  by (simp add: retired_def)

lemma onDisk_frame: "rafts cfg' = rafts cfg \<Longrightarrow> saved cfg' = saved cfg \<Longrightarrow> onDisk i cfg' = onDisk i cfg"
  unfolding onDisk_def savedNow_def by (simp only:)

text \<open>The steps that keep the instances, the disks and the end names.\<close>

fun is_lifecycle :: "'c cfgevent \<Rightarrow> bool" where
  "is_lifecycle (StartEv env names i) = True"
| "is_lifecycle (CrashEv i) = True"
| "is_lifecycle (ServerEv i rf) = True"
| "is_lifecycle ev = False"

lemma cfgstep_frame:
  assumes "cfgstep cfg ev cfg'" "wired cfg" "\<not> is_lifecycle ev"
  shows "cfg_n cfg' = cfg_n cfg" "endnames cfg' = endnames cfg" "ends (cfg_net cfg') = ends (cfg_net cfg)"
    "rafts cfg' = rafts cfg" "saved cfg' = saved cfg"
proof -
  have "cfg_n cfg' = cfg_n cfg \<and> endnames cfg' = endnames cfg \<and> ends (cfg_net cfg') = ends (cfg_net cfg) \<and>
    rafts cfg' = rafts cfg \<and> saved cfg' = saved cfg"
    using assms
  proof (induction rule: cfgstep.induct)
    case (step_connect i cfg cfg')
    from connect_Inr(3) [OF step_connect.prems(1) step_connect.hyps] show ?case by auto
  next
    case (step_disconnect i cfg cfg')
    from disconnect_eq [OF step_disconnect.prems(1) disconnect_Inr [OF step_disconnect.prems(1) step_disconnect.hyps]]
      step_disconnect.hyps show ?case by auto
  next
    case (step_apply i cfg m cfg')
    obtain L M where "cfg' = cfg\<lparr>logs := L, maxIndex := M\<rparr>" using applyReader_frame [OF step_apply.hyps(2)] by blast
    then show ?case by simp
  qed (simp_all add: setunreliable_def Reliable_def setlongreordering_def LongReordering_def LongDelays_def)
  then show "cfg_n cfg' = cfg_n cfg" "endnames cfg' = endnames cfg" "ends (cfg_net cfg') = ends (cfg_net cfg)"
    "rafts cfg' = rafts cfg" "saved cfg' = saved cfg"
    by simp_all
qed

lemma retired_start1:
  assumes "retired e cfg" "wired cfg" "start1 env names i cfg = Inr cfg'"
  shows "retired e cfg'"
proof -
  obtain p rf where "cfg_n cfg' = cfg_n cfg" "endnames cfg' = (endnames cfg)[i := map names [0..<cfg_n cfg]]"
    "ends (cfg_net cfg') = ends (cfg_net cfg) \<union> names ` {..<cfg_n cfg}" "names ` {..<cfg_n cfg} \<inter> ends (cfg_net cfg) = {}"
    using assms(2,3) by (rule start1_effect)
  moreover have "e \<notin> set ((endnames cfg)[i := map names [0..<cfg_n cfg]] ! a)" if "a < cfg_n cfg" for a
    using assms(1) wiredD(2) [OF assms(2)] that calculation(4)
    by (cases "a = i") (auto simp: retired_def disjoint_iff)
  ultimately show ?thesis using assms(1) by (simp add: retired_def)
qed

lemma retired_step:
  assumes "retired e cfg" "wired cfg" "cfgstep cfg ev cfg'"
  shows "retired e cfg'"
proof (cases "is_lifecycle ev")
  case False
  show ?thesis by (rule retired_frame [OF assms(1) cfgstep_frame(1-3) [OF assms(3,2) False]])
next
  case True
  from assms(3,1,2) True show ?thesis
  proof (cases rule: cfgstep.cases)
    case (step_crash i)
    show ?thesis by (rule retired_frame [OF assms(1) crash1_effect(2,4,10) [OF assms(2) step_crash(2)]])
  qed (auto intro: retired_start1 retired_frame)
qed

lemma onDisk_step:
  assumes "wired cfg" "cfgstep cfg ev cfg'" "\<forall>rf. ev \<noteq> ServerEv i rf"
  shows "onDisk i cfg' = onDisk i cfg"
proof (cases "is_lifecycle ev")
  case False
  show ?thesis by (rule onDisk_frame [OF cfgstep_frame(4,5) [OF assms(2,1) False]])
next
  case True
  from assms(2,1) True show ?thesis
  proof (cases rule: cfgstep.cases)
    case (step_start env names j)
    show ?thesis using assms(1) step_start(2) by (rule start1_effect) simp
  next
    case (step_crash j)
    show ?thesis by (rule crash1_effect(12) [OF assms(1) step_crash(2)])
  next
    case (step_server j rf rf')
    then have "savedNow i cfg' = savedNow i cfg" using assms(3) by (intro savedNow_cong) auto
    then show ?thesis by (simp add: onDisk_def)
  qed simp_all
qed

lemma durable_cong: "ReadRaftState p = ReadRaftState q \<Longrightarrow> durable p = durable q"
  using readPersist_cases [of "ReadRaftState q"] by (auto simp: durable_def newRaft_def)

lemma nCommitted_upto:
  assumes "logs_agree cfg" "m \<le> cfg_n cfg"
  shows "\<exists>cmd. forEach [0..<m]
      (\<lambda>i (count, cmd).
          if applyErr cfg ! i \<noteq> '''' then Inl TestFatal
          else case (logs cfg ! i) k of
                 None \<Rightarrow> Inr (count, cmd)
               | Some cmd1 \<Rightarrow> if count > 0 \<and> cmd \<noteq> cmd1 then Inl TestFatal else Inr (count + 1, cmd1)) (0, None) =
      Inr (card {i. i < m \<and> (logs cfg ! i) k \<noteq> None}, cmd) \<and>
    (\<forall>i < m. \<forall>c. (logs cfg ! i) k = Some c \<longrightarrow> c = cmd)"
  using assms(2)
proof (induction m)
  case (Suc m)
  note a = logs_agreeD [OF assms(1)]
  let ?S = "\<lambda>m. {i. i < m \<and> (logs cfg ! i) k \<noteq> None}"
  obtain cmd where IH: "forEach [0..<m]
      (\<lambda>i (count, cmd).
          if applyErr cfg ! i \<noteq> '''' then Inl TestFatal
          else case (logs cfg ! i) k of
                 None \<Rightarrow> Inr (count, cmd)
               | Some cmd1 \<Rightarrow> if count > 0 \<and> cmd \<noteq> cmd1 then Inl TestFatal else Inr (count + 1, cmd1)) (0, None) =
      Inr (card (?S m), cmd)" and cmd: "\<And>i c. i < m \<Longrightarrow> (logs cfg ! i) k = Some c \<Longrightarrow> c = cmd"
    using Suc.IH [OF Suc_leD [OF Suc.prems]] by blast
  have err: "applyErr cfg ! m = ''''" using a(2) Suc.prems by simp
  have mem: "logs cfg ! i \<in> set (logs cfg)" if "i \<le> m" for i using that a(1) Suc.prems by simp
  show ?case
  proof (cases "(logs cfg ! m) k")
    case None
    then have "?S (Suc m) = ?S m" by (auto simp: less_Suc_eq)
    then show ?thesis using IH cmd err None by (auto simp: forEach_append less_Suc_eq)
  next
    case (Some c)
    have "?S (Suc m) = insert m (?S m)" using Some by (auto simp: less_Suc_eq)
    then have card: "card (?S (Suc m)) = card (?S m) + 1" by simp
    have same: "d = c" if "i < m" "(logs cfg ! i) k = Some d" for i d
      using a(3) [OF mem mem that(2) Some] that(1) by simp
    have "\<not> (card (?S m) > 0 \<and> cmd \<noteq> c)"
    proof
      assume "card (?S m) > 0 \<and> cmd \<noteq> c"
      then obtain i where "i < m" "(logs cfg ! i) k \<noteq> None" and "cmd \<noteq> c" by (auto simp: card_gt_0_iff)
      then show False using cmd same by blast
    qed
    with IH err Some card same show ?thesis
      by (intro exI [of _ c]) (simp only: upt_Suc_append [OF le0] forEach_append rbind.simps, simp add: less_Suc_eq)
  qed
qed simp

section \<open>Examples\<close>

text \<open>A configuration of two servers, and one of a single server that was started and has persisted its state.\<close>

lemma example_pair:
  obtains cfg :: "nat config" where "booted 2 2 cfg" "\<forall>i < 2. connected cfg ! i"
proof (rule make_config_booted [of 2 "\<lambda>i j. replicate (2 * i + j) CHR ''x''" "(0, 0)" False])
  show "inj_on (\<lambda>j. replicate (2 * i + j) CHR ''x'') {..<2}" for i by (auto simp: inj_on_def)
  show "(\<lambda>j. replicate (2 * i + j) CHR ''x'') ` {..<2} \<inter> (\<lambda>j. replicate (2 * k + j) CHR ''x'') ` {..<2} = {}"
    if "i \<noteq> k" for i k
    using that by auto
qed (blast intro: that)

lemma example_single:
  obtains cfg :: "nat config" and rf where "cfg_reach cfg" "cfg_n cfg = 1" "endnames cfg ! 0 = [''a'']"
    "ends (cfg_net cfg) = {''a''}" "rafts cfg ! 0 = Some rf" "snd (snd (durable (persister rf))) \<noteq> []"
proof -
  have r: "cfg_reach (emptyConfig 1 :: nat config)" by (rule reach.reach_init) (auto simp: cfg_init_def)
  note w = cfg_invD(1) [OF cfg_inv_empty, of 1]
  have "\<exists>cfg1 :: nat config. start1 (0, 0) (\<lambda>_. ''a'') 0 (emptyConfig 1) = Inr cfg1"
    by (rule start1_returns [OF w]) (simp_all add: emptyConfig_def MakeNetwork_def inj_on_def)
  then obtain cfg1 :: "nat config" where s: "start1 (0, 0) (\<lambda>_. ''a'') 0 (emptyConfig 1) = Inr cfg1" by blast
  obtain p rf where e: "cfg_n cfg1 = 1" "endnames cfg1 ! 0 = [''a'']" "rafts cfg1 = [Some rf]"
    "ends (cfg_net cfg1) = {''a''}" and m: "Make (0, 0) 1 0 p = Inr rf" "ReadRaftState p = []"
    using w s by (rule start1_effect) (simp add: emptyConfig_def MakeNetwork_def onDisk_def savedNow_def lessThan_Suc)
  have "logEntries rf \<noteq> []" using m by (auto simp: Make_def Let_def readPersist_def newRaft_def)
  moreover have "cfg_reach (cfg1\<lparr>rafts := (rafts cfg1)[0 := Some (persist rf)]\<rparr>)"
    by (rule cfg_reach_step [OF cfg_reach_step [OF r step_start [OF s]] step_server [of _ _ rf]]) (simp_all add: e)
  ultimately show thesis
    by (intro that [of "cfg1\<lparr>rafts := (rafts cfg1)[0 := Some (persist rf)]\<rparr>" "persist rf"])
       (simp_all add: e persistent_def)
qed

section \<open>Properties\<close>

text \<open>
  C7: partitions are exact. In every state the harness can reach, a request is admitted to a server exactly if it was sent through
  an end that the current instance of a connected server \<open>i\<close> has to a connected, running server \<open>j\<close>; it is then handled by the current instance
  of \<open>j\<close>, under the network's current settings.
\<close>

theorem partition_exact:
  assumes "cfg_reach cfg"
  shows "processStart req (cfg_net cfg) = Admitted j p rel lr \<longleftrightarrow>
    (\<exists>i < cfg_n cfg. j < cfg_n cfg \<and> connected cfg ! i \<and> connected cfg ! j \<and> rq_endname req = endnames cfg ! i ! j \<and>
       rafts cfg ! j \<noteq> None \<and> servers (cfg_net cfg) j = Some p \<and>
       rel = reliable (cfg_net cfg) \<and> lr = longReordering (cfg_net cfg))"
    (is "?l = ?r")
proof -
  note I = cfg_invD [OF harness.reach_inv [OF assms]]
  note w = wiredD [OF I(1)] and h = hostedD [OF I(2)]
  have conn: "connections (cfg_net cfg) (endnames cfg ! a ! b) = Some b"
    if "a < cfg_n cfg" "b < cfg_n cfg" "connected cfg ! a" for a b
    using w(7) [OF that(1,2) w(6) [OF that(1,3)]] by simp
  show ?thesis
  proof
    assume ?l
    then have en: "isEnabled (rq_endname req) (cfg_net cfg)" and c: "connections (cfg_net cfg) (rq_endname req) = Some j"
      and s: "servers (cfg_net cfg) j = Some p" "rel = reliable (cfg_net cfg)" "lr = longReordering (cfg_net cfg)"
      by (auto simp: processStart_def readEndnameInfo_def Let_def split: option.splits if_splits)
    obtain a b where ab: "a < cfg_n cfg" "b < cfg_n cfg" "connected cfg ! a" "connected cfg ! b"
      "rq_endname req = endnames cfg ! a ! b"
      using en unfolding w(9) by blast
    have "b = j" using conn [OF ab(1-3)] c ab(5) by simp
    with ab s h(1) [of j] show ?r by auto
  next
    assume ?r
    then obtain i where i: "i < cfg_n cfg" "j < cfg_n cfg" "connected cfg ! i" "connected cfg ! j"
      "rq_endname req = endnames cfg ! i ! j" and s: "servers (cfg_net cfg) j = Some p"
      "rel = reliable (cfg_net cfg)" "lr = longReordering (cfg_net cfg)" by blast
    have "isEnabled (rq_endname req) (cfg_net cfg)" unfolding w(9) using i by blast
    with s conn [OF i(1-3)] i(5) show ?l by (simp add: processStart_def readEndnameInfo_def)
  qed
qed

theorem partition_exact_witness:
  "\<exists>(cfg :: nat config) p. cfg_reach cfg \<and>
     processStart \<lparr>rq_endname = endnames cfg ! 0 ! 1, rq_svcMeth = ''Raft.RequestVote'', rq_args = ''''\<rparr> (cfg_net cfg) =
       Admitted 1 p (reliable (cfg_net cfg)) (longReordering (cfg_net cfg))"
proof -
  obtain cfg :: "nat config" where b: "booted 2 2 cfg" and c: "\<forall>i < 2. connected cfg ! i" by (rule example_pair)
  have r: "cfg_reach cfg" and n: "cfg_n cfg = 2" and up: "\<exists>rf. rafts cfg ! 1 = Some rf"
    using bootedD(1,2) [OF b] bootedD(3) [OF b, of 1] by simp_all
  obtain p where p: "servers (cfg_net cfg) 1 = Some p"
    using hostedD(1) [OF cfg_invD(2) [OF harness.reach_inv [OF r]], of 1] n up by fastforce
  have "processStart \<lparr>rq_endname = endnames cfg ! 0 ! 1, rq_svcMeth = ''Raft.RequestVote'', rq_args = ''''\<rparr> (cfg_net cfg) =
      Admitted 1 p (reliable (cfg_net cfg)) (longReordering (cfg_net cfg))"
    unfolding partition_exact [OF r] using n up p c by (intro exI [of _ 0]) auto
  with r show ?thesis by blast
qed

text \<open>
  C13: a replaced instance is cut off. After server \<open>i\<close> has been restarted, whatever the harness does next: a new request through an end of the old instance is not admitted, and for
  one still under way the network considers the server dead, so that it fails when its answer is decided, whatever its handler returned. (An answer that was decided before the restart and waits for the reordering timer is
  still delivered.)
\<close>

theorem restarted_instance_isolated:
  assumes "cfg_reach cfg" "i < cfg_n cfg" "rq_endname req \<in> set (endnames cfg ! i)"
    "start1 env names i cfg = Inr cfg1" "reach (\<lambda>c. c = cfg1) cfgstep cfg2"
  shows "processStart req (cfg_net cfg2) = Delayed failure \<and>
    isServerDead (rq_endname req) servername server (cfg_net cfg2) \<and>
    processJudge r1 r2 req servername server rel lr reply (cfg_net cfg2) = (cfg_net cfg2, Replied failure)"
proof -
  let ?e = "rq_endname req"
  note I = cfg_invD [OF harness.reach_inv [OF assms(1)]]
  note w = wiredD [OF I(1)]
  obtain b where b: "b < cfg_n cfg" "?e = endnames cfg ! i ! b" and ne: "endnames cfg ! i \<noteq> []"
    using assms(2,3) w(5) [OF assms(2)] by (cases "endnames cfg ! i = []") (auto simp: in_set_conv_nth)
  have e: "?e \<in> ends (cfg_net cfg)" using w(7) [OF assms(2) b(1) ne] b(2) by simp
  have other: "?e \<notin> set (endnames cfg ! a)" if a: "a < cfg_n cfg" "a \<noteq> i" for a
  proof
    assume "?e \<in> set (endnames cfg ! a)"
    then obtain c where "c < length (endnames cfg ! a)" "endnames cfg ! a ! c = endnames cfg ! i ! b"
      unfolding b(2) by (auto simp: in_set_conv_nth)
    then show False using w(8) [OF a(1) _ assms(2) b(1) _ ne, of c] w(5) [OF a(1)] a(2) by (cases "endnames cfg ! a = []") auto
  qed
  obtain p rf where "cfg_n cfg1 = cfg_n cfg" "endnames cfg1 = (endnames cfg)[i := map names [0..<cfg_n cfg]]"
    "ends (cfg_net cfg1) = ends (cfg_net cfg) \<union> names ` {..<cfg_n cfg}" "names ` {..<cfg_n cfg} \<inter> ends (cfg_net cfg) = {}"
    using I(1) assms(4) by (rule start1_effect)
  moreover have "?e \<notin> set ((endnames cfg)[i := map names [0..<cfg_n cfg]] ! a)" if "a < cfg_n cfg" for a
    using that other e calculation(4) w(2) by (cases "a = i") (auto simp: disjoint_iff)
  ultimately have 1: "retired ?e cfg1" using e by (simp add: retired_def)
  have inv1: "cfg_inv cfg1" by (rule cfg_inv_step [OF harness.reach_inv [OF assms(1)] step_start [OF assms(4)]])
  from assms(5) have 2: "cfg_inv cfg2 \<and> retired ?e cfg2"
  proof (induction rule: reach.induct)
    case (reach_step s ev t)
    then show ?case using cfg_inv_step retired_step [OF _ cfg_invD(1)] by blast
  qed (simp add: 1 inv1)
  then have "\<not> isEnabled ?e (cfg_net cfg2)"
    unfolding wiredD(9) [OF cfg_invD(1) [OF conjunct1 [OF 2]]]
    using wiredD(5,6) [OF cfg_invD(1) [OF conjunct1 [OF 2]]] by (metis nth_mem retired_def)
  then show ?thesis
    by (auto simp: processStart_def processJudge_def readEndnameInfo_def isServerDead_def Let_def split: option.splits)
qed

theorem restarted_instance_isolated_witness:
  "\<exists>(cfg :: nat config) cfg1. start1 (0, 0) (\<lambda>_. ''b'') 0 cfg = Inr cfg1 \<and> endnames cfg ! 0 = [''a''] \<and>
     processStart \<lparr>rq_endname = ''a'', rq_svcMeth = ''Raft.RequestVote'', rq_args = ''''\<rparr> (cfg_net cfg1) = Delayed failure \<and>
     snd (processJudge 0 0 \<lparr>rq_endname = ''a'', rq_svcMeth = ''Raft.RequestVote'', rq_args = ''''\<rparr> 0 0 True False
       (Some \<lparr>rp_ok = True, rp_reply = ''x''\<rparr>) (cfg_net cfg1)) = Replied failure"
proof -
  obtain cfg :: "nat config" and rf :: "nat Raft" where c: "cfg_reach cfg" "cfg_n cfg = 1" "endnames cfg ! 0 = [''a'']" "ends (cfg_net cfg) = {''a''}"
    by (rule example_single)
  have "\<exists>cfg1. start1 (0, 0) (\<lambda>_. ''b'') 0 cfg = Inr cfg1"
    by (rule start1_returns [OF cfg_invD(1) [OF harness.reach_inv [OF c(1)]]]) (simp_all add: c inj_on_def lessThan_Suc)
  then obtain cfg1 where s: "start1 (0, 0) (\<lambda>_. ''b'') 0 cfg = Inr cfg1" by blast
  have "reach (\<lambda>c. c = cfg1) cfgstep cfg1" by (rule reach.reach_init) simp
  note isolated = restarted_instance_isolated [OF c(1) _ _ s this,
      of "\<lparr>rq_endname = ''a'', rq_svcMeth = ''Raft.RequestVote'', rq_args = ''''\<rparr>" 0 0 0 0 True False "Some \<lparr>rp_ok = True, rp_reply = ''x''\<rparr>"]
  show ?thesis by (intro exI [of _ cfg] exI [of _ cfg1]) (use isolated c(2,3) s in simp)
qed

text \<open>
  C9: restart from disk. Take the state of the running instance of server \<open>i\<close> at some point, and let anything happen that is not a step of this
  instance: crashes, restarts and partitions of any server, steps of the other servers. The next restart of \<open>i\<close> comes back with
  the term, the vote and the log that the instance had last persisted, as a follower with nothing applied, under a server of its own.
\<close>

theorem restart_from_disk:
  assumes "cfg_reach cfg" "i < cfg_n cfg" "rafts cfg ! i = Some rf" "snd (snd (durable (persister rf))) \<noteq> []"
    "reach (\<lambda>c. c = cfg) (\<lambda>c ev c'. cfgstep c ev c' \<and> (\<forall>rf. ev \<noteq> ServerEv i rf)) cfg1"
    "start1 env names i cfg1 = Inr cfg2"
  shows "\<exists>rf'. rafts cfg2 ! i = Some rf' \<and> persistent rf' = durable (persister rf) \<and>
    role rf' = Follower \<and> commitIndex rf' = 0 \<and> lastApplied rf' = 0 \<and> me rf' = int i \<and>
    servers (cfg_net cfg2) i = Some (nextServer cfg1)"
proof -
  from assms(5) have 1: "cfg_inv cfg1 \<and> onDisk i cfg1 = onDisk i cfg"
  proof (induction rule: reach.induct)
    case (reach_step s ev t)
    then show ?case using cfg_inv_step onDisk_step [OF cfg_invD(1)] by metis
  qed (simp add: harness.reach_inv [OF assms(1)])
  note w = cfg_invD(1) [OF conjunct1 [OF 1]]
  obtain p rf' where i: "i < cfg_n cfg1" and e: "rafts cfg2 = (rafts cfg1)[i := Some rf']"
    "servers (cfg_net cfg2) = (servers (cfg_net cfg1))(i \<mapsto> nextServer cfg1)"
    and m: "Make env (cfg_n cfg1) (int i) p = Inr rf'" "ReadRaftState p = onDisk i cfg1"
    using w assms(6) by (rule start1_effect)
  have "onDisk i cfg = ReadRaftState (persister rf)" by (simp add: onDisk_def savedNow_def assms(3))
  then have "durable p = durable (persister rf)" by (intro durable_cong) (simp add: m(2) 1)
  then have "persistent rf' = durable (persister rf)"
    using Make_persistent(1-3) [OF m(1)] assms(4) by (simp add: persistent_def prod_eq_iff)
  then show ?thesis
    using Make_persistent(5,6,10,11) [OF m(1)] wiredD(3) [OF w] i by (simp add: e)
qed

theorem restart_from_disk_witness:
  "\<exists>(cfg :: nat config) cfg1 cfg2 rf rf'. crash1 0 cfg = Inr cfg1 \<and> start1 (0, 0) (\<lambda>_. ''b'') 0 cfg1 = Inr cfg2 \<and>
     rafts cfg ! 0 = Some rf \<and> rafts cfg2 ! 0 = Some rf' \<and> persistent rf' = durable (persister rf)"
proof -
  obtain cfg :: "nat config" and rf where c: "cfg_reach cfg" "cfg_n cfg = 1" "ends (cfg_net cfg) = {''a''}"
    "rafts cfg ! 0 = Some rf" "snd (snd (durable (persister rf))) \<noteq> []"
    by (rule example_single)
  note w = cfg_invD(1) [OF harness.reach_inv [OF c(1)]]
  obtain cfg1 where k: "crash1 0 cfg = Inr cfg1"
    using disconnect_eq [OF w, of 0] c(2) by (simp add: crash1_def Let_def)
  have n1: "cfg_n cfg1 = 1" "ends (cfg_net cfg1) = {''a''}" using crash1_effect(2,10) [OF w k] c by simp_all
  have "\<exists>cfg2. start1 (0, 0) (\<lambda>_. ''b'') 0 cfg1 = Inr cfg2"
    by (rule start1_returns [OF wired_crash1 [OF w k]]) (simp_all add: n1 inj_on_def lessThan_Suc)
  then obtain cfg2 where s: "start1 (0, 0) (\<lambda>_. ''b'') 0 cfg1 = Inr cfg2" by blast
  let ?step = "\<lambda>c ev c'. cfgstep c ev c' \<and> (\<forall>rf. ev \<noteq> ServerEv 0 rf)"
  have "reach (\<lambda>c. c = cfg) ?step cfg" by (rule reach.reach_init) simp
  then have "reach (\<lambda>c. c = cfg) ?step cfg1" by (rule reach.reach_step [where e = "CrashEv 0"]) (simp add: step_crash k)
  from restart_from_disk [OF c(1) _ c(4,5) this s] show ?thesis using c k s by auto
qed



text \<open>
  C25: a new configuration. If the random end names are all different, \<open>make_config\<close> returns; every server then runs, is connected to every server,
  is at term 0 and is no leader, nothing has been applied, and the checks for terms and leaders agree with that.
\<close>

theorem make_config_ready:
  assumes "\<And>i. i < n \<Longrightarrow> inj_on (names i) {..<n}"
    "\<And>i j. i < n \<Longrightarrow> j < n \<Longrightarrow> i \<noteq> j \<Longrightarrow> names i ` {..<n} \<inter> names j ` {..<n} = {}"
  shows "\<exists>cfg :: 'c config. make_config env names n unreliable = Inr cfg \<and> cfg_reach cfg \<and> cfg_n cfg = n \<and>
    (\<forall>i < n. connected cfg ! i \<and> (\<exists>rf. rafts cfg ! i = Some rf \<and> GetState rf = (0, False)) \<and> logs cfg ! i = Map.empty) \<and>
    checkNoLeader cfg = Inr () \<and> oneLeaderRound cfg = Inr None"
proof -
  obtain cfg :: "'c config" where m: "make_config env names n unreliable = Inr cfg" and b: "booted n n cfg"
    and c: "\<And>i. i < n \<Longrightarrow> connected cfg ! i"
    using make_config_booted [of n names env unreliable thesis] assms by blast
  note b' = b [unfolded booted_def]
  have st: "raftState i cfg = Inr (0, False)" if i: "i < n" for i
  proof -
    have "length (rafts cfg) = n" using wiredD(3) [OF cfg_invD(1) [OF harness.reach_inv]] b' by blast
    moreover obtain rf where "rafts cfg ! i = Some rf" "GetState rf = (0, False)" using b' i by blast
    ultimately show ?thesis using i by (simp add: raftState_def go_index_def)
  qed
  have no: "forEach [0..<m] (\<lambda>i u. if connected cfg ! i
      then rbind (raftState i cfg) (\<lambda>(_, is_leader). if is_leader then Inl TestFatal else Inr u) else Inr u) () = Inr ()"
    if "m \<le> n" for m
    using that by (induction m) (simp_all add: forEach_append st c)
  have none: "forEach [0..<m] (\<lambda>i ls. if connected cfg ! i
      then rbind (raftState i cfg) (\<lambda>(trm, leader). Inr (if leader then ls @ [(trm, i)] else ls)) else Inr ls) [] = Inr []"
    if "m \<le> n" for m
    using that by (induction m) (simp_all add: forEach_append st c)
  have "cfg_n cfg = n" using b' by blast
  then have "checkNoLeader cfg = Inr ()" "oneLeaderRound cfg = Inr None"
    using no [of n] none [of n] by (simp_all add: checkNoLeader_def oneLeaderRound_def collectLeaders_def)
  with m b' c show ?thesis by (intro exI [of _ cfg]) (simp add: \<open>cfg_n cfg = n\<close>)
qed

theorem make_config_ready_witness:
  "\<exists>cfg :: nat config. make_config (0, 0) (\<lambda>i j. replicate (2 * i + j) CHR ''x'') 2 True = Inr cfg \<and>
     oneLeaderRound cfg = Inr None"
proof -
  have 1: "inj_on (\<lambda>j. replicate (2 * i + j) CHR ''x'') {..<2}" for i by (auto simp: inj_on_def)
  have 2: "(\<lambda>j. replicate (2 * i + j) CHR ''x'') ` {..<2} \<inter> (\<lambda>j. replicate (2 * k + j) CHR ''x'') ` {..<2} = {}"
    if "i \<noteq> k" for i k
    using that by auto
  show ?thesis
    using make_config_ready [of 2 "\<lambda>i j. replicate (2 * i + j) CHR ''x''", OF 1 2, where 'c = nat] by blast
qed

end
