(* ===== verification/Raft_Verdicts.thy ===== *)
theory Raft_Verdicts
  imports Raft_Harness Raft_Divergence
begin

text \<open>
  The verdicts of the harness of \<open>raft/config.go\<close> on the servers of \<open>vote.go\<close> and \<open>entry.go\<close>: what \<open>checkOneLeader\<close> returns, that it cannot
  find two leaders in a benign run, and that the apply check finds the divergence of \<open>Raft_Divergence\<close>.
\<close>

section \<open>Leaders as the harness sees them\<close>

definition leads :: "'c config \<Rightarrow> nat \<Rightarrow> int \<Rightarrow> bool" where
  "leads cfg i t \<longleftrightarrow> i < cfg_n cfg \<and> connected cfg ! i \<and>
     (\<exists>rf. rafts cfg ! i = Some rf \<and> role rf = Leader \<and> currentTerm rf = t)"

definition running :: "'c config \<Rightarrow> bool" where
  "running cfg \<longleftrightarrow> length (rafts cfg) = cfg_n cfg \<and>
     (\<forall>i < cfg_n cfg. connected cfg ! i \<longrightarrow> (\<exists>rf. rafts cfg ! i = Some rf \<and> 0 \<le> currentTerm rf))"

abbreviation leader_list :: "'c config \<Rightarrow> nat \<Rightarrow> (int \<times> nat) list" where
  "leader_list cfg m \<equiv> map (\<lambda>i. (currentTerm (the (rafts cfg ! i)), i)) (filter (\<lambda>i. \<exists>t. leads cfg i t) [0..<m])"

lemma collectLeaders_eq:
  assumes "running cfg"
  shows "collectLeaders cfg = Inr (leader_list cfg (cfg_n cfg))"
proof -
  let ?f = "\<lambda>i ls. if connected cfg ! i
    then rbind (raftState i cfg) (\<lambda>(trm, leader). Inr (if leader then ls @ [(trm, i)] else ls)) else Inr ls"
  have step: "?f i ls = Inr (ls @ (if \<exists>t. leads cfg i t then [(currentTerm (the (rafts cfg ! i)), i)] else []))"
    if i: "i < cfg_n cfg" for i ls
  proof (cases "connected cfg ! i")
    case True
    then obtain rf where rf: "rafts cfg ! i = Some rf" using assms i by (auto simp: running_def)
    then have "raftState i cfg = Inr (currentTerm rf, role rf = Leader)"
      using assms i by (simp add: running_def raftState_def go_index_def GetState_def)
    then show ?thesis using True rf i by (simp add: leads_def)
  qed (simp add: leads_def)
  have "forEach [0..<m] ?f [] = Inr (leader_list cfg m)" if "m \<le> cfg_n cfg" for m
    using that
  proof (induction m)
    case (Suc m)
    then have "forEach [0..<Suc m] ?f [] = ?f m (leader_list cfg m)" by (simp only: upt_Suc_append le0 forEach_snoc) simp
    also have "\<dots> = Inr (leader_list cfg (Suc m))" using step [of m] Suc.prems by simp
    finally show ?case .
  qed simp
  then show ?thesis by (simp add: collectLeaders_def)
qed

lemma all_less_3: "(\<forall>i < (3 :: nat). P i) \<longleftrightarrow> P 0 \<and> P 1 \<and> P 2"
  by (auto simp: numeral_3_eq_3 numeral_2_eq_2 less_Suc_eq)

lemma leadersOf_set: "i \<in> set (leadersOf t (leader_list cfg (cfg_n cfg))) \<longleftrightarrow> leads cfg i t"
  by (auto simp: leadersOf_def leads_def image_iff)

lemma leadersOf_distinct: "distinct (leadersOf t (leader_list cfg m))"
  by (auto simp: leadersOf_def distinct_map filter_map inj_on_def comp_def)

lemma long_distinct: "distinct xs \<Longrightarrow> length xs > 1 \<longleftrightarrow> (\<exists>x \<in> set xs. \<exists>y \<in> set xs. x \<noteq> y)"
  by (cases xs; cases "tl xs") auto

lemma terms_of_leaders: "t \<in> set (map fst (leader_list cfg (cfg_n cfg))) \<longleftrightarrow> (\<exists>i. leads cfg i t)"
  by (auto simp: leads_def image_iff)

lemma fold_max_set:
  fixes xs :: "int list"
  shows "fold max xs a \<in> insert a (set xs)" "\<forall>x \<in> insert a (set xs). x \<le> fold max xs a"
proof -
  have "fold max xs a \<in> insert a (set xs) \<and> (\<forall>x \<in> insert a (set xs). x \<le> fold max xs a)"
  proof (induction xs arbitrary: a)
    case (Cons x xs)
    from Cons [of "max x a"] show ?case by (auto simp: max_def split: if_splits)
  qed simp
  then show "fold max xs a \<in> insert a (set xs)" "\<forall>x \<in> insert a (set xs). x \<le> fold max xs a" by blast+
qed

lemma oneLeaderRound_cases:
  assumes "running cfg"
  shows "\<exists>i j t. i \<noteq> j \<and> leads cfg i t \<and> leads cfg j t \<Longrightarrow> oneLeaderRound cfg = Inl TestFatal"
    "\<forall>i t. \<not> leads cfg i t \<Longrightarrow> oneLeaderRound cfg = Inr None"
    "\<not> (\<exists>i j t. i \<noteq> j \<and> leads cfg i t \<and> leads cfg j t) \<Longrightarrow> \<exists>i t. leads cfg i t \<Longrightarrow>
       \<exists>i t. oneLeaderRound cfg = Inr (Some i) \<and> leads cfg i t \<and> (\<forall>j t'. leads cfg j t' \<longrightarrow> t' \<le> t)"
proof -
  let ?ls = "leader_list cfg (cfg_n cfg)"
  have two: "(\<exists>t \<in> set (map fst ?ls). length (leadersOf t ?ls) > 1) \<longleftrightarrow>
      (\<exists>i j t. i \<noteq> j \<and> leads cfg i t \<and> leads cfg j t)"
    unfolding long_distinct [OF leadersOf_distinct] Bex_def leadersOf_set terms_of_leaders by blast
  have empty: "?ls = [] \<longleftrightarrow> (\<forall>i t. \<not> leads cfg i t)"
    by (auto simp: filter_empty_conv leads_def)
  have eq: "oneLeaderRound cfg = (if \<exists>i j t. i \<noteq> j \<and> leads cfg i t \<and> leads cfg j t then Inl TestFatal
      else if \<forall>i t. \<not> leads cfg i t then Inr None
      else rbind (go_index (leadersOf (fold max (map fst ?ls) (-1)) ?ls) 0) (\<lambda>i. Inr (Some i)))"
    unfolding oneLeaderRound_def collectLeaders_eq [OF assms] rbind.simps two empty Let_def ..
  show "\<exists>i j t. i \<noteq> j \<and> leads cfg i t \<and> leads cfg j t \<Longrightarrow> oneLeaderRound cfg = Inl TestFatal"
    unfolding eq by (simp only: if_True)
  show "\<forall>i t. \<not> leads cfg i t \<Longrightarrow> oneLeaderRound cfg = Inr None"
    unfolding eq by simp
  assume one: "\<not> (\<exists>i j t. i \<noteq> j \<and> leads cfg i t \<and> leads cfg j t)" and "\<exists>i t. leads cfg i t"
  then obtain i t where it: "leads cfg i t" by blast
  let ?T = "fold max (map fst ?ls) (-1)"
  have "0 \<le> t" using it assms by (auto simp: leads_def running_def)
  moreover have max: "t' \<le> ?T" if "leads cfg j t'" for j t'
    using fold_max_set(2) [of "-1" "map fst ?ls"] that terms_of_leaders by blast
  ultimately have "?T \<noteq> -1" using it by fastforce
  then obtain k where k: "leads cfg k ?T"
    using fold_max_set(1) [of "map fst ?ls" "-1"] terms_of_leaders by blast
  then have ne: "leadersOf ?T ?ls \<noteq> []" using leadersOf_set [of k ?T cfg] by auto
  then have hd: "leads cfg (leadersOf ?T ?ls ! 0) ?T" using leadersOf_set [of _ ?T cfg] nth_mem [of 0 "leadersOf ?T ?ls"] by auto
  have "oneLeaderRound cfg = Inr (Some (leadersOf ?T ?ls ! 0))"
    using one it ne unfolding eq by (auto simp: go_index_def)
  with hd max show "\<exists>i t. oneLeaderRound cfg = Inr (Some i) \<and> leads cfg i t \<and> (\<forall>j t'. leads cfg j t' \<longrightarrow> t' \<le> t)"
    by blast
qed

section \<open>Runs\<close>

lemma plain_win_terms:
  "\<exists>s :: string Cluster. crun 3 (0, 0) plain_win (cluster0 3) = Some s \<and>
     role (nodes s 0) = Leader \<and> currentTerm (nodes s 0) = 1 \<and> (\<forall>i < 3. 0 \<le> currentTerm (nodes s i))"
  by (simp add: plain_win_def scenario_defs)

lemma divergent_run_roles:
  "\<exists>s. crun 3 (0, 0) divergent_run (cluster0 3) = Some s \<and>
     applyCh (nodes s 0) = [\<lparr>CommandValid = True, msg_Command = Some ''y'', CommandIndex = 1\<rparr>] \<and>
     applyCh (nodes s 2) = [\<lparr>CommandValid = True, msg_Command = Some ''x'', CommandIndex = 1\<rparr>] \<and>
     role (nodes s 0) = Leader \<and> currentTerm (nodes s 0) = 2 \<and> role (nodes s 2) = Leader \<and> currentTerm (nodes s 2) = 2 \<and>
     0 \<le> currentTerm (nodes s 1)"
  by (simp add: divergent_defs)

text \<open>The harness runs the servers of a cluster.\<close>

definition watches :: "nat \<Rightarrow> 'c config \<Rightarrow> 'c Cluster \<Rightarrow> bool" where
  "watches n cfg s \<longleftrightarrow> cfg_n cfg = n \<and> rafts cfg = map (\<lambda>i. Some (nodes s i)) [0..<n] \<and>
     (\<forall>i < n. 0 \<le> currentTerm (nodes s i))"

lemma watches_running: "watches n cfg s \<Longrightarrow> running cfg"
  by (simp add: watches_def running_def)

lemma benign_one_leader:
  assumes "benign_reach n s" "watches n cfg s" "leads cfg i t" "leads cfg j t"
  shows "i = j"
proof (rule won_unique [OF assms(1), of i t])
  have "role (nodes s k) = Leader" "currentTerm (nodes s k) = t" if "leads cfg k t" for k
    using that assms(2) by (auto simp: watches_def leads_def)
  then show "(i, t) \<in> won s" "(j, t) \<in> won s" using leader_won [OF assms(1)] assms(3,4) by metis+
qed

section \<open>Properties\<close>

text \<open>
  One look at the leaders. An iteration of \<open>checkOneLeader\<close> fails the test exactly if two connected servers lead the same term; it tries again
  exactly if no connected server leads; otherwise it returns a connected leader of the greatest term.
\<close>

theorem oneLeaderRound_outcome:
  assumes "running cfg"
  shows "(oneLeaderRound cfg = Inl TestFatal \<longleftrightarrow> (\<exists>i j t. i \<noteq> j \<and> leads cfg i t \<and> leads cfg j t)) \<and>
    (oneLeaderRound cfg = Inr None \<longleftrightarrow> (\<forall>i t. \<not> leads cfg i t)) \<and>
    (\<forall>i. oneLeaderRound cfg = Inr (Some i) \<longrightarrow> (\<exists>t. leads cfg i t \<and> (\<forall>j t'. leads cfg j t' \<longrightarrow> t' \<le> t)))"
proof (cases "\<exists>i j t. i \<noteq> j \<and> leads cfg i t \<and> leads cfg j t")
  case True
  then have "\<not> (\<forall>i t. \<not> leads cfg i t)" by blast
  with True oneLeaderRound_cases(1) [OF assms True] show ?thesis by simp
next
  case one: False
  show ?thesis
  proof (cases "\<forall>i t. \<not> leads cfg i t")
    case True
    with one oneLeaderRound_cases(2) [OF assms True] show ?thesis by simp
  next
    case False
    then have "\<exists>i t. leads cfg i t" by blast
    from oneLeaderRound_cases(3) [OF assms one this] False one show ?thesis by auto
  qed
qed

theorem oneLeaderRound_outcome_witness:
  "\<exists>cfg :: string config. running cfg \<and> leads cfg 0 1 \<and> oneLeaderRound cfg \<noteq> Inl TestFatal \<and> oneLeaderRound cfg \<noteq> Inr None"
proof -
  obtain s :: "string Cluster" where s: "crun 3 (0, 0) plain_win (cluster0 3) = Some s"
    "role (nodes s 0) = Leader" "currentTerm (nodes s 0) = 1"
    using plain_win_run by blast
  let ?cfg = "(emptyConfig 1)\<lparr>rafts := [Some (nodes s 0)], connected := [True]\<rparr>"
  have r: "running ?cfg" and l: "leads ?cfg i t \<longleftrightarrow> i = 0 \<and> t = 1" for i t
    using s by (auto simp: running_def leads_def emptyConfig_def)
  from oneLeaderRound_outcome [OF r] have "oneLeaderRound ?cfg \<noteq> Inl TestFatal" "oneLeaderRound ?cfg \<noteq> Inr None"
    unfolding l by blast+
  with r l show ?thesis by blast
qed

text \<open>
  C21: benign runs pass the check. While the servers go through benign steps, none of the iterations of \<open>checkOneLeader\<close> finds two leaders of one
  term: it returns a connected leader of the greatest term as soon as there is one, and fails only if there is none in any iteration.
\<close>

theorem checkOneLeader_benign:
  assumes "\<forall>cfg \<in> set cfgs. \<exists>s. benign_reach n s \<and> watches n cfg s"
  shows "if \<exists>cfg \<in> set cfgs. \<exists>i t. leads cfg i t
    then \<exists>cfg \<in> set cfgs. \<exists>i t. checkOneLeader cfgs = Inr i \<and> leads cfg i t \<and> (\<forall>j t'. leads cfg j t' \<longrightarrow> t' \<le> t)
    else checkOneLeader cfgs = Inl TestFatal"
  using assms
proof (induction cfgs)
  case (Cons cfg cfgs)
  then obtain s where s: "benign_reach n s" "watches n cfg s" by auto
  note r = watches_running [OF s(2)]
  have one: "\<not> (\<exists>i j t. i \<noteq> j \<and> leads cfg i t \<and> leads cfg j t)" using benign_one_leader [OF s] by blast
  show ?case
  proof (cases "\<exists>i t. leads cfg i t")
    case True
    from oneLeaderRound_cases(3) [OF r one True] show ?thesis using True by auto
  next
    case False
    then have "oneLeaderRound cfg = Inr None" using oneLeaderRound_cases(2) [OF r] by blast
    with Cons False show ?thesis by (auto split: if_splits)
  qed
qed simp

theorem checkOneLeader_benign_witness:
  "\<exists>(cfg :: string config) s. benign_reach 3 s \<and> watches 3 cfg s \<and> (\<exists>i. checkOneLeader [cfg] = Inr i)"
proof -
  obtain s :: "string Cluster" where s: "crun 3 (0, 0) plain_win (cluster0 3) = Some s"
    "role (nodes s 0) = Leader" "currentTerm (nodes s 0) = 1" "\<forall>i < 3. 0 \<le> currentTerm (nodes s i)"
    using plain_win_terms by blast
  let ?cfg = "(emptyConfig 3)\<lparr>rafts := map (\<lambda>i. Some (nodes s i)) [0..<3], connected := [True, True, True]\<rparr>"
  have b: "benign_reach 3 s" by (rule run_benign [OF s(1) plain_win_benign])
  have w: "watches 3 ?cfg s" using s(4) by (simp add: watches_def emptyConfig_def)
  have "leads ?cfg 0 1" using s(2,3) by (simp add: leads_def emptyConfig_def)
  then have ex: "\<exists>c \<in> set [?cfg]. \<exists>i t. leads c i t" by auto
  have all: "\<forall>c \<in> set [?cfg]. \<exists>s. benign_reach 3 s \<and> watches 3 c s" using b w by auto
  from checkOneLeader_benign [OF all] b w ex show ?thesis unfolding if_P [OF ex] by blast
qed

text \<open>
  C35: the harness finds the divergence. After the run of three servers that ends with two leaders of term 2, without a crash, the servers' own messages make the
  apply check end the process, whichever server's messages it reads first, and \<open>checkOneLeader\<close> fails the test.
\<close>

theorem divergence_detected:
  "\<exists>s :: string Cluster. reach (cluster_init 3) (allowed_step (but_for (\<lambda>e. e = ElectEnd 0)) 3) s \<and>
     rbind (forEach (applyCh (nodes s 2)) (applyReader 2) (emptyConfig 3)) (forEach (applyCh (nodes s 0)) (applyReader 0)) = Inl LogFatal \<and>
     rbind (forEach (applyCh (nodes s 0)) (applyReader 0) (emptyConfig 3)) (forEach (applyCh (nodes s 2)) (applyReader 2)) = Inl LogFatal \<and>
     oneLeaderRound ((emptyConfig 3)\<lparr>rafts := map (\<lambda>i. Some (nodes s i)) [0..<3], connected := [True, True, True]\<rparr>) = Inl TestFatal"
proof -
  obtain s where s: "crun 3 (0, 0) divergent_run (cluster0 3) = Some s"
    "applyCh (nodes s 0) = [\<lparr>CommandValid = True, msg_Command = Some ''y'', CommandIndex = 1\<rparr>]"
    "applyCh (nodes s 2) = [\<lparr>CommandValid = True, msg_Command = Some ''x'', CommandIndex = 1\<rparr>]"
    "role (nodes s 0) = Leader" "currentTerm (nodes s 0) = 2" "role (nodes s 2) = Leader" "currentTerm (nodes s 2) = 2"
    "0 \<le> currentTerm (nodes s 1)"
    using divergent_run_roles by blast
  let ?cfg = "(emptyConfig 3)\<lparr>rafts := map (\<lambda>i. Some (nodes s i)) [0..<3], connected := [True, True, True]\<rparr>"
  have r: "running ?cfg"
    using s(5,7,8) by (simp add: running_def emptyConfig_def upt_3 all_less_3)
  have "leads ?cfg 0 2" "leads ?cfg 2 2" using s by (simp_all add: leads_def emptyConfig_def upt_3)
  then have "\<exists>i j t. i \<noteq> j \<and> leads ?cfg i t \<and> leads ?cfg j t" by (metis zero_neq_numeral)
  from oneLeaderRound_cases(1) [OF r this] run_allowed [OF s(1) divergent_run_allowed] s(2,3) show ?thesis
    by (intro exI [of _ s]) (simp add: applyReader_def emptyConfig_def numeral_3_eq_3 Let_def)
qed

end
