(* ===== verification/Raft_Agreement.thy ===== *)
theory Raft_Agreement
  imports Raft_Harness
begin

text \<open>What \<open>wait\<close> and \<open>one\<close> of \<open>raft/config.go\<close> guarantee when they return.\<close>

section \<open>The servers that applied a command\<close>

definition appliers :: "int \<Rightarrow> 'c option \<Rightarrow> 'c config \<Rightarrow> nat set" where
  "appliers k cmd cfg = {i. i < cfg_n cfg \<and> (logs cfg ! i) k = Some cmd}"

lemma nCommitted_appliers:
  assumes "cfg_reach cfg" "nCommitted k cfg = Inr (nd, cmd)"
  shows "nd > 0 \<Longrightarrow> nd = card (appliers k cmd cfg)"
proof -
  assume nd: "nd > 0"
  obtain c where c: "nCommitted k cfg = Inr (card {i. i < cfg_n cfg \<and> (logs cfg ! i) k \<noteq> None}, c)"
    "\<forall>i < cfg_n cfg. \<forall>d. (logs cfg ! i) k = Some d \<longrightarrow> d = c"
    using nCommitted_upto [OF cfg_invD(3) [OF harness.reach_inv [OF assms(1)]] order_refl, of k]
      wiredD(3) [OF cfg_invD(1) [OF harness.reach_inv [OF assms(1)]]]
    by (auto simp: nCommitted_def)
  have "{i. i < cfg_n cfg \<and> (logs cfg ! i) k \<noteq> None} = appliers k cmd cfg"
    using c assms(2) by (auto simp: appliers_def)
  then show ?thesis using c(1) assms(2) by simp
qed

lemma submit_starts:
  assumes "submit cmd cfgs starts = Inr (starts', index)" "index \<noteq> -1"
  shows "\<exists>cfg \<in> set cfgs. \<exists>i rf rf' t. connected cfg ! i \<and> rafts cfg ! i = Some rf \<and> Start cmd rf = Inr (rf', index, t, True)"
  using assms(1)
proof (induction cfgs arbitrary: starts)
  case (Cons cfg cfgs)
  let ?i = "Suc starts mod cfg_n cfg"
  from Cons.prems obtain cfg' ix where t: "tryStart cmd ?i cfg = Inr (cfg', ix)"
    and r: "(case ix of Some i \<Rightarrow> Inr (?i, i) | None \<Rightarrow> submit cmd cfgs ?i) = Inr (starts', index)"
    by (auto simp: Let_def)
  show ?case
  proof (cases ix)
    case None
    with Cons.IH r show ?thesis by auto
  next
    case (Some x)
    with t obtain rf rf' u where "connected cfg ! ?i" "rafts cfg ! ?i = Some rf" "Start cmd rf = Inr (rf', x, u, True)"
      by (auto simp: tryStart_def split: option.splits if_splits)
    moreover have "x = index" using r Some by simp
    ultimately show ?thesis by auto
  qed
qed (use assms(2) in simp)

lemma pollAgreement_True:
  assumes "pollAgreement cmd expectedServers index cfgs = Inr True" "\<forall>cfg \<in> set cfgs. cfg_reach cfg"
  shows "\<exists>cfg \<in> set cfgs. max 1 expectedServers \<le> int (card (appliers index cmd cfg))"
  using assms
proof (induction cfgs)
  case (Cons cfg cfgs)
  from Cons.prems(1) obtain nd cmd1 where n: "nCommitted index cfg = Inr (nd, cmd1)"
    and r: "(if nd > 0 \<and> int nd \<ge> expectedServers \<and> cmd1 = cmd then Inr True
       else pollAgreement cmd expectedServers index cfgs) = Inr True"
    by auto
  show ?case
  proof (cases "nd > 0 \<and> int nd \<ge> expectedServers \<and> cmd1 = cmd")
    case True
    with nCommitted_appliers [OF _ n] Cons.prems(2) show ?thesis by auto
  next
    case False
    with Cons.IH r Cons.prems(2) show ?thesis by auto
  qed
qed simp

section \<open>An example\<close>

text \<open>A leader of one server, and the state after it has applied its first command.\<close>

definition lone_leader :: "nat config" where
  "lone_leader = (emptyConfig 1)\<lparr>connected := [True],
     rafts := [Some ((newRaft 1 0 MakePersister)\<lparr>role := Leader, matchIndex := [0],
       logEntries := [\<lparr>ent_Term = 0, ent_Index = 0, ent_Command = None\<rparr>]\<rparr>)]\<rparr>"

definition lone_applied :: "nat config" where
  "lone_applied = (emptyConfig 1)\<lparr>logs := [[1 \<mapsto> Some 7]], maxIndex := 1\<rparr>"

lemma lone_applied_reach: "cfg_reach lone_applied"
proof (rule cfg_reach_step)
  show "cfg_reach (emptyConfig 1 :: nat config)" by (rule reach.reach_init) (auto simp: cfg_init_def)
  show "cfgstep (emptyConfig 1) (ApplyEv 0 \<lparr>CommandValid = True, msg_Command = Some 7, CommandIndex = 1\<rparr>) lone_applied"
    by (rule step_apply) (simp_all add: applyReader_def emptyConfig_def lone_applied_def)
qed

lemma lone_one: "one (Some 7) 1 False 0 [([lone_leader], [lone_applied])] = Inr 1"
proof -
  have "submit (Some 7) [lone_leader] 0 = Inr (0, 1)"
    by (simp add: lone_leader_def emptyConfig_def tryStart_def Start_def GetState_def StartLocked_def lastLogTermIndex_def
        newRaft_def go_update_def)
  moreover have "pollAgreement (Some 7) 1 1 [lone_applied] = Inr True"
    by (simp add: lone_applied_def nCommitted_def emptyConfig_def)
  ultimately show ?thesis by (simp del: submit.simps pollAgreement.simps)
qed

section \<open>Properties\<close>

text \<open>
  C24: \<open>one\<close> returns agreements. If \<open>one\<close> returns an index, then in one of its rounds a connected server took the command as leader and gave it this index, and
  in a state polled in this round at least the expected number of servers (and at least one) had applied the submitted command at the index.
\<close>

theorem one_agreement:
  assumes "one cmd expectedServers retry starts rounds = Inr index"
    and "\<forall>(tries, polls) \<in> set rounds. \<forall>cfg \<in> set polls. cfg_reach cfg"
  shows "\<exists>(tries, polls) \<in> set rounds.
    (\<exists>cfg \<in> set tries. \<exists>i rf rf' t. connected cfg ! i \<and> rafts cfg ! i = Some rf \<and> Start cmd rf = Inr (rf', index, t, True)) \<and>
    (\<exists>cfg \<in> set polls. max 1 expectedServers \<le> int (card (appliers index cmd cfg)))"
  using assms
proof (induction rounds arbitrary: starts)
  case (Cons round rounds)
  obtain tries polls where round: "round = (tries, polls)" by (cases round)
  from Cons.prems(1) obtain starts' ix where s: "submit cmd tries starts = Inr (starts', ix)" by (auto simp: round)
  have later: ?case if "one cmd expectedServers retry starts' rounds = Inr index"
    using Cons.IH [OF that] Cons.prems(2) by auto
  show ?case
  proof (cases "ix \<noteq> -1 \<and> pollAgreement cmd expectedServers ix polls = Inr True")
    case True
    then have "ix = index" using Cons.prems(1) s by (simp add: round)
    with True submit_starts [OF s] pollAgreement_True [of cmd expectedServers index polls] Cons.prems(2) show ?thesis
      by (auto simp: round)
  next
    case False
    then have "one cmd expectedServers retry starts' rounds = Inr index"
      using Cons.prems(1) s by (auto simp: round split: if_splits)
    then show ?thesis by (rule later)
  qed
qed simp

theorem one_agreement_witness:
  "one (Some 7) 1 False 0 [([lone_leader], [lone_applied])] = Inr 1 \<and> 1 \<le> card (appliers 1 (Some 7) lone_applied)"
  using one_agreement [OF lone_one] lone_applied_reach lone_one by simp

end
