(* ===== verification/Utf8.thy ===== *)
theory Utf8
  imports Prelude
begin

text \<open>
  Go strings as sequences of UTF-8 encoded runes, as \<open>range\<close> over a string and \<open>utf8.DecodeRuneInString\<close> read them: used by
  the word splitting of the MapReduce applications and by the checks of \<open>labgob\<close>.
\<close>

section \<open>Runes\<close>

text \<open>
  The decoding of UTF-8 that \<open>range\<close> over a string does: the rune at the front and the number of
  bytes it takes. An invalid encoding counts as the rune \<open>U+FFFD\<close>, of one byte.
\<close>

definition byte_of :: "char \<Rightarrow> nat" where
  "byte_of c = of_char c"

definition cont :: "nat \<Rightarrow> nat \<Rightarrow> nat \<Rightarrow> bool" where
  "cont lo hi b \<longleftrightarrow> lo \<le> b \<and> b \<le> hi"

definition RuneError :: nat where
  "RuneError = 0xFFFD"

fun decodeRune :: "nat list \<Rightarrow> nat \<times> nat" where
  "decodeRune [] = (RuneError, 0)"
| "decodeRune (b0 # bs) =
     (let invalid = (RuneError, 1) in
      if b0 < 0x80 then (b0, 1)
      else if cont 0xC2 0xDF b0 then
        (case bs of
           b1 # _ \<Rightarrow> if cont 0x80 0xBF b1 then ((b0 - 0xC0) * 64 + (b1 - 0x80), 2) else invalid
         | _ \<Rightarrow> invalid)
      else if cont 0xE0 0xEF b0 then
        (case bs of
           b1 # b2 # _ \<Rightarrow>
             if cont (if b0 = 0xE0 then 0xA0 else 0x80) (if b0 = 0xED then 0x9F else 0xBF) b1
                \<and> cont 0x80 0xBF b2
             then ((b0 - 0xE0) * 4096 + (b1 - 0x80) * 64 + (b2 - 0x80), 3) else invalid
         | _ \<Rightarrow> invalid)
      else if cont 0xF0 0xF4 b0 then
        (case bs of
           b1 # b2 # b3 # _ \<Rightarrow>
             if cont (if b0 = 0xF0 then 0x90 else 0x80) (if b0 = 0xF4 then 0x8F else 0xBF) b1
                \<and> cont 0x80 0xBF b2 \<and> cont 0x80 0xBF b3
             then ((b0 - 0xF0) * 262144 + (b1 - 0x80) * 4096 + (b2 - 0x80) * 64 + (b3 - 0x80), 4)
             else invalid
         | _ \<Rightarrow> invalid)
      else invalid)"

lemma decodeRune_width:
  "bs \<noteq> [] \<Longrightarrow> 1 \<le> snd (decodeRune bs) \<and> snd (decodeRune bs) \<le> length bs"
  by (cases bs) (auto simp: Let_def split: list.split)

text \<open>The string cut into its runes, each with its bytes.\<close>

function runes :: "string \<Rightarrow> (nat \<times> string) list" where
  "runes s =
     (if s = [] then []
      else let (r, n) = decodeRune (map byte_of s) in (r, take n s) # runes (drop n s))"
  by pat_completeness auto
termination
proof (relation "measure length")
  fix s :: string and x r n
  assume "s \<noteq> []" "x = decodeRune (map byte_of s)" "(r, n) = x"
  then show "(drop n s, s) \<in> measure length"
    using decodeRune_width [of "map byte_of s"] by (cases s) (auto simp: prod_eq_iff)
qed simp

declare runes.simps [simp del]

lemma concat_runes: "concat (map snd (runes s)) = s"
proof (induction s rule: runes.induct)
  case (1 s)
  show ?case
  proof (cases "s = []")
    case True
    then show ?thesis by (simp add: runes.simps)
  next
    case False
    obtain r n where rn: "decodeRune (map byte_of s) = (r, n)" by fastforce
    with 1 False have "concat (map snd (runes (drop n s))) = drop n s" by auto
    then show ?thesis using False rn by (subst runes.simps) simp
  qed
qed

end
