(* ===== verification/Lab_Gob.thy ===== *)
theory Lab_Gob
  imports Utf8
begin

text \<open>
  \<open>labgob/labgob.go\<close>: the wrapper around \<open>encoding/gob\<close> that warns about lower-case fields and about
  decoding into variables that do not have their zero value. The encoding itself (\<open>encoding/gob\<close>) is a parameter, as is
  \<open>unicode.IsUpper\<close>.

  A Go type is a number that stands for its \<open>reflect.Type\<close>; a table gives its name and structure, so that
  a type can refer to itself. A number outside the table is a type without components.
\<close>

section \<open>Types and state\<close>

type_synonym tid = nat

datatype kind =
    StructK "(string \<times> tid) list"
  | SliceK tid
  | ArrayK tid
  | PtrK tid
  | MapK tid tid
  | OtherK

type_synonym types = "(string \<times> kind) list"

definition typeName :: "types \<Rightarrow> tid \<Rightarrow> string" where
  "typeName tab t = (if t < length tab then fst (tab ! t) else '''')"

definition Kind :: "types \<Rightarrow> tid \<Rightarrow> kind" where
  "Kind tab t = (if t < length tab then snd (tab ! t) else OtherK)"

text \<open>The package variables, and the messages printed so far.\<close>

datatype warning = LowerCase string string | NonDefault string

record GobState =
  checked :: "tid list"
  errorCount :: int
  printed :: "warning list"

section \<open>Checking types\<close>

text \<open>
  \<open>checkType\<close> with its loop over the fields of a struct. The recursion follows the types, which may be cyclic:
  the third argument is the number of nested calls the stack has room for.
\<close>

definition lowerCase :: "(nat \<Rightarrow> bool) \<Rightarrow> string \<Rightarrow> bool" where
  "lowerCase isUpper name \<longleftrightarrow> \<not> isUpper (fst (decodeRune (map byte_of name)))"

definition warnField :: "(nat \<Rightarrow> bool) \<Rightarrow> string \<Rightarrow> string \<Rightarrow> GobState \<Rightarrow> GobState" where
  "warnField up tname name st =
     (if lowerCase up name
      then st\<lparr>errorCount := errorCount st + 1, printed := printed st @ [LowerCase name tname]\<rparr>
      else st)"

function checkType :: "(nat \<Rightarrow> bool) \<Rightarrow> types \<Rightarrow> nat \<Rightarrow> tid \<Rightarrow> GobState \<Rightarrow> GobState res"
  and checkFields :: "(nat \<Rightarrow> bool) \<Rightarrow> types \<Rightarrow> nat \<Rightarrow> string \<Rightarrow> (string \<times> tid) list \<Rightarrow> GobState
    \<Rightarrow> GobState res" where
  "checkType up tab 0 t st = Inl StackOverflow"
| "checkType up tab (Suc d) t st =
     (if t \<in> set (checked st) then Inr st
      else let st = st\<lparr>checked := t # checked st\<rparr> in
        (case Kind tab t of
           StructK fs \<Rightarrow> checkFields up tab d (typeName tab t) fs st
         | SliceK e \<Rightarrow> checkType up tab d e st
         | ArrayK e \<Rightarrow> checkType up tab d e st
         | PtrK e \<Rightarrow> checkType up tab d e st
         | MapK k e \<Rightarrow> rbind (checkType up tab d e st) (checkType up tab d k)
         | OtherK \<Rightarrow> Inr st))"
| "checkFields up tab d tname [] st = Inr st"
| "checkFields up tab d tname ((name, t) # fs) st =
     rbind (checkType up tab d t (warnField up tname name st)) (checkFields up tab d tname fs)"
  by pat_completeness auto
termination
  by (relation "measures [\<lambda>x. case x of Inl (up, tab, d, t, st) \<Rightarrow> 2 * d | Inr (up, tab, d, n, fs, st) \<Rightarrow> 2 * d + 1,
        \<lambda>x. case x of Inl _ \<Rightarrow> 0 | Inr (up, tab, d, n, fs, st) \<Rightarrow> length fs]") auto

definition checkValue :: "(nat \<Rightarrow> bool) \<Rightarrow> types \<Rightarrow> tid \<Rightarrow> GobState \<Rightarrow> GobState res" where
  "checkValue up tab t st = checkType up tab (length tab + 1) t st"

section \<open>Checking for default values\<close>

text \<open>
  Values by their kind; \<open>'f\<close> is the type of floating-point numbers, \<open>zeroF\<close> says which of them are equal to zero. A
  pointer is followed at most three steps deep, so that a cyclic value is the same as a tree that is cut off there.
\<close>

datatype 'f gval =
    StructV "(string \<times> 'f gval) list"
  | PtrV "'f gval option"
  | BoolV bool
  | IntV string int
  | FloatV string 'f
  | StringV string
  | OtherV

fun zeroBasic :: "('f \<Rightarrow> bool) \<Rightarrow> 'f gval \<Rightarrow> bool" where
  "zeroBasic zeroF (BoolV b) = (\<not> b)"
| "zeroBasic zeroF (IntV tn i) = (i = 0)"
| "zeroBasic zeroF (FloatV tn x) = zeroF x"
| "zeroBasic zeroF (StringV s) = (s = '''')"
| "zeroBasic zeroF _ = True"

fun valueTypeName :: "'f gval \<Rightarrow> string" where
  "valueTypeName (BoolV b) = ''bool''"
| "valueTypeName (IntV tn i) = tn"
| "valueTypeName (FloatV tn x) = tn"
| "valueTypeName (StringV s) = ''string''"
| "valueTypeName _ = ''''"

definition reportNonDefault :: "('f \<Rightarrow> bool) \<Rightarrow> 'f gval \<Rightarrow> string \<Rightarrow> GobState \<Rightarrow> GobState" where
  "reportNonDefault zeroF v name st =
     (if zeroBasic zeroF v then st
      else let st = (if errorCount st < 1
                     then st\<lparr>printed := printed st @
                            [NonDefault (if name = '''' then valueTypeName v else name)]\<rparr>
                     else st)
           in st\<lparr>errorCount := errorCount st + 1\<rparr>)"

text \<open>
  \<open>value.Interface()\<close> panics on a value that was reached through an unexported field, one whose name begins in lower
  case; \<open>ro\<close> says that there was one on the way.
\<close>

function checkDefault1 :: "(nat \<Rightarrow> bool) \<Rightarrow> ('f \<Rightarrow> bool) \<Rightarrow> bool \<Rightarrow> 'f gval \<Rightarrow> nat \<Rightarrow> string \<Rightarrow> GobState
    \<Rightarrow> GobState res"
  and defaultFields :: "(nat \<Rightarrow> bool) \<Rightarrow> ('f \<Rightarrow> bool) \<Rightarrow> bool \<Rightarrow> (string \<times> 'f gval) list \<Rightarrow> nat \<Rightarrow> string
    \<Rightarrow> GobState \<Rightarrow> GobState res" where
  "checkDefault1 up zeroF ro v depth name st =
     (if depth > 3 then Inr st
      else case v of
        StructV fs \<Rightarrow> defaultFields up zeroF ro fs depth name st
      | PtrV p \<Rightarrow> (case p of None \<Rightarrow> Inr st | Some e \<Rightarrow> checkDefault1 up zeroF ro e (depth + 1) name st)
      | OtherV \<Rightarrow> Inr st
      | _ \<Rightarrow> if ro then Inl ReflectPanic else Inr (reportNonDefault zeroF v name st))"
| "defaultFields up zeroF ro [] depth name st = Inr st"
| "defaultFields up zeroF ro ((fname, vv) # fs) depth name st =
     (let name1 = (if name \<noteq> '''' then name @ ''.'' @ fname else fname)
      in rbind (checkDefault1 up zeroF (ro \<or> lowerCase up fname) vv (depth + 1) name1 st)
           (defaultFields up zeroF ro fs depth name))"
  by pat_completeness auto
termination
  by (relation "measure (\<lambda>x. case x of Inl (up, z, ro, v, d, n, st) \<Rightarrow> size v
        | Inr (up, z, ro, fs, d, n, st) \<Rightarrow> size_list (size_prod (\<lambda>_. 0) size) fs)") auto

definition checkDefault :: "(nat \<Rightarrow> bool) \<Rightarrow> ('f \<Rightarrow> bool) \<Rightarrow> 'f gval option \<Rightarrow> GobState \<Rightarrow> GobState res" where
  "checkDefault up zeroF value st =
     (case value of None \<Rightarrow> Inr st | Some v \<Rightarrow> checkDefault1 up zeroF False v 1 '''' st)"

section \<open>Encoding and decoding\<close>

text \<open>
  The two wrappers, for an encoder \<open>enc\<close> and a decoder \<open>dec\<close> of \<open>encoding/gob\<close>, which may fail. \<open>t\<close> is the
  dynamic type of the argument; \<open>Register\<close> checks the type only.
\<close>

definition Encode :: "(nat \<Rightarrow> bool) \<Rightarrow> types \<Rightarrow> ('v \<Rightarrow> 'b option) \<Rightarrow> tid \<Rightarrow> 'v \<Rightarrow> GobState
    \<Rightarrow> (GobState \<times> 'b option) res" where
  "Encode up tab enc t e st = rbind (checkValue up tab t st) (\<lambda>st. Inr (st, enc e))"

definition EncodeValue :: "(nat \<Rightarrow> bool) \<Rightarrow> types \<Rightarrow> ('v \<Rightarrow> 'b option) \<Rightarrow> tid \<Rightarrow> 'v \<Rightarrow> GobState
    \<Rightarrow> (GobState \<times> 'b option) res" where
  "EncodeValue up tab enc t value st = rbind (checkValue up tab t st) (\<lambda>st. Inr (st, enc value))"

definition Decode :: "(nat \<Rightarrow> bool) \<Rightarrow> types \<Rightarrow> ('f \<Rightarrow> bool) \<Rightarrow> ('b \<Rightarrow> 'f gval \<Rightarrow> 'f gval option) \<Rightarrow> tid
    \<Rightarrow> 'b \<Rightarrow> 'f gval \<Rightarrow> GobState \<Rightarrow> (GobState \<times> 'f gval option) res" where
  "Decode up tab zeroF dec t data e st =
     rbind (checkValue up tab t st) (\<lambda>st.
     rbind (checkDefault up zeroF (Some e) st) (\<lambda>st. Inr (st, dec data e)))"

definition Register :: "(nat \<Rightarrow> bool) \<Rightarrow> types \<Rightarrow> tid \<Rightarrow> GobState \<Rightarrow> GobState res" where
  "Register up tab t st = checkValue up tab t st"

section \<open>What the check of types does\<close>

fun components :: "kind \<Rightarrow> tid list" where
  "components (StructK fs) = map snd fs"
| "components (SliceK e) = [e]"
| "components (ArrayK e) = [e]"
| "components (PtrK e) = [e]"
| "components (MapK k e) = [e, k]"
| "components OtherK = []"

definition children :: "types \<Rightarrow> tid \<Rightarrow> tid list" where
  "children tab t = components (Kind tab t)"

definition child :: "types \<Rightarrow> (tid \<times> tid) set" where
  "child tab = {(t, u). u \<in> set (children tab t)}"

definition lowerNames :: "(nat \<Rightarrow> bool) \<Rightarrow> string list \<Rightarrow> int" where
  "lowerNames up names = int (length (filter (lowerCase up) names))"

definition lowerFields :: "(nat \<Rightarrow> bool) \<Rightarrow> types \<Rightarrow> tid \<Rightarrow> int" where
  "lowerFields up tab t = (case Kind tab t of StructK fs \<Rightarrow> lowerNames up (map fst fs) | _ \<Rightarrow> 0)"

text \<open>
  The effect of checking the types \<open>ts\<close> after \<open>k\<close> warnings: new types, each visited once, are reachable from
  \<open>ts\<close>, and what they are made of has been visited too.
\<close>

definition visited :: "(nat \<Rightarrow> bool) \<Rightarrow> types \<Rightarrow> tid list \<Rightarrow> int \<Rightarrow> GobState \<Rightarrow> GobState \<Rightarrow> bool" where
  "visited up tab ts k st st' \<longleftrightarrow>
     (\<exists>new. checked st' = new @ checked st \<and> distinct new \<and> set new \<inter> set (checked st) = {} \<and>
        errorCount st' = errorCount st + k + (\<Sum>u\<leftarrow>new. lowerFields up tab u) \<and>
        set ts \<subseteq> set (checked st') \<and>
        (\<forall>u \<in> set new. set (children tab u) \<subseteq> set (checked st') \<and> (\<exists>t \<in> set ts. (t, u) \<in> (child tab)\<^sup>*)))"

lemma visited_refl: "set ts \<subseteq> set (checked st) \<Longrightarrow> visited up tab ts 0 st st"
  by (simp add: visited_def)

lemma visited_append:
  assumes "visited up tab ts1 k1 st st1" "visited up tab ts2 k2 st1 st2"
  shows "visited up tab (ts1 @ ts2) (k1 + k2) st st2"
proof -
  obtain n1 where n1: "checked st1 = n1 @ checked st" "distinct n1" "set n1 \<inter> set (checked st) = {}"
    "errorCount st1 = errorCount st + k1 + (\<Sum>u\<leftarrow>n1. lowerFields up tab u)" "set ts1 \<subseteq> set (checked st1)"
    "\<forall>u \<in> set n1. set (children tab u) \<subseteq> set (checked st1) \<and> (\<exists>t \<in> set ts1. (t, u) \<in> (child tab)\<^sup>*)"
    using assms(1) unfolding visited_def by blast
  obtain n2 where n2: "checked st2 = n2 @ checked st1" "distinct n2" "set n2 \<inter> set (checked st1) = {}"
    "errorCount st2 = errorCount st1 + k2 + (\<Sum>u\<leftarrow>n2. lowerFields up tab u)" "set ts2 \<subseteq> set (checked st2)"
    "\<forall>u \<in> set n2. set (children tab u) \<subseteq> set (checked st2) \<and> (\<exists>t \<in> set ts2. (t, u) \<in> (child tab)\<^sup>*)"
    using assms(2) unfolding visited_def by blast
  have "\<forall>u \<in> set (n2 @ n1). set (children tab u) \<subseteq> set (checked st2) \<and>
      (\<exists>t \<in> set (ts1 @ ts2). (t, u) \<in> (child tab)\<^sup>*)"
    using n1(6) n2(1,6) by fastforce
  with n1 n2 show ?thesis
    unfolding visited_def by (intro exI [of _ "n2 @ n1"]) auto
qed

lemma visited_warn:
  "visited up tab ts k (warnField up tname name st) st' \<Longrightarrow>
   visited up tab ts (k + lowerNames up [name]) st st'"
  by (auto simp: visited_def warnField_def lowerNames_def split: if_splits)

lemma visited_mark:
  assumes "t \<notin> set (checked st)"
    and "visited up tab (children tab t) (lowerFields up tab t) (st\<lparr>checked := t # checked st\<rparr>) st'"
  shows "visited up tab [t] 0 st st'"
proof -
  obtain n where n: "checked st' = n @ t # checked st" "distinct n" "set n \<inter> insert t (set (checked st)) = {}"
    "errorCount st' = errorCount st + lowerFields up tab t + (\<Sum>u\<leftarrow>n. lowerFields up tab u)"
    "set (children tab t) \<subseteq> set (checked st')"
    "\<forall>u \<in> set n. set (children tab u) \<subseteq> set (checked st') \<and> (\<exists>c \<in> set (children tab t). (c, u) \<in> (child tab)\<^sup>*)"
    using assms(2) unfolding visited_def by auto
  have "(t, u) \<in> (child tab)\<^sup>*" if "u \<in> set n" for u
    using n(6) that by (auto simp: child_def intro: converse_rtrancl_into_rtrancl)
  with n assms(1) show ?thesis
    unfolding visited_def by (intro exI [of _ "n @ [t]"]) auto
qed

lemma check_visited:
  "checkType up tab d t st = Inr st' \<Longrightarrow> visited up tab [t] 0 st st'"
  "checkFields up tab d tname fs st = Inr st' \<Longrightarrow>
     visited up tab (map snd fs) (lowerNames up (map fst fs)) st st'"
proof (induction up tab d t st and up tab d tname fs st arbitrary: st' and st'
    rule: checkType_checkFields.induct)
  case (1 up tab t st)
  then show ?case by simp
next
  case (2 up tab d t st)
  show ?case
  proof (cases "t \<in> set (checked st)")
    case True
    with "2.prems" show ?thesis by (simp add: visited_refl)
  next
    case False
    let ?st = "st\<lparr>checked := t # checked st\<rparr>"
    have "visited up tab (children tab t) (lowerFields up tab t) ?st st'"
    proof (cases "Kind tab t")
      case (MapK k e)
      with "2.prems" False obtain st1 where
        st1: "checkType up tab d e ?st = Inr st1" "checkType up tab d k st1 = Inr st'"
        by (auto simp: Let_def)
      have "visited up tab [e] 0 ?st st1" using "2.IH"(5) [OF False refl MapK st1(1)] .
      moreover have "visited up tab [k] 0 st1 st'" using "2.IH"(6) [OF False refl MapK st1(2)] .
      ultimately have "visited up tab ([e] @ [k]) (0 + 0) ?st st'" by (rule visited_append)
      with MapK show ?thesis by (simp add: children_def lowerFields_def)
    qed (use "2.prems" "2.IH"(1-4) [OF False refl] False in
        \<open>simp_all add: Let_def children_def lowerFields_def visited_refl\<close>)
    with False show ?thesis by (rule visited_mark)
  qed
next
  case (3 up tab d tname st)
  then show ?case by (simp add: visited_refl lowerNames_def)
next
  case (4 up tab d tname name t fs st)
  then obtain st1 where st1: "checkType up tab d t (warnField up tname name st) = Inr st1"
    "checkFields up tab d tname fs st1 = Inr st'"
    by auto
  have "visited up tab [t] (0 + lowerNames up [name]) st st1"
    by (rule visited_warn) (rule "4.IH"(1) [OF st1(1)])
  moreover have "visited up tab (map snd fs) (lowerNames up (map fst fs)) st1 st'"
    by (rule "4.IH"(2) [OF st1(2)])
  ultimately have "visited up tab ([t] @ map snd fs) (0 + lowerNames up [name] + lowerNames up (map fst fs)) st st'"
    by (rule visited_append)
  then show ?case by (simp add: lowerNames_def split: if_splits)
qed

text \<open>The recursion is no deeper than the number of types that are still unchecked.\<close>

definition notChecked :: "types \<Rightarrow> GobState \<Rightarrow> nat" where
  "notChecked tab st = card ({..<length tab} - set (checked st))"

lemma notChecked_mark:
  assumes "t < length tab" "t \<notin> set (checked st)" "notChecked tab st < Suc d"
  shows "notChecked tab (st\<lparr>checked := t # checked st\<rparr>) < d"
proof -
  have "{..<length tab} - set (t # checked st) \<subset> {..<length tab} - set (checked st)"
    using assms(1,2) by auto
  then have "notChecked tab (st\<lparr>checked := t # checked st\<rparr>) < notChecked tab st"
    unfolding notChecked_def by (intro psubset_card_mono) auto
  with assms(3) show ?thesis by simp
qed

lemma notChecked_visited: "visited up tab ts k st st' \<Longrightarrow> notChecked tab st' \<le> notChecked tab st"
  unfolding notChecked_def by (intro card_mono) (auto simp: visited_def)

lemma notChecked_warn [simp]: "notChecked tab (warnField up tname name st) = notChecked tab st"
  by (simp add: notChecked_def warnField_def)

lemma check_returns:
  "notChecked tab st < d \<Longrightarrow> returns (checkType up tab d t st)"
  "notChecked tab st < d \<Longrightarrow> returns (checkFields up tab d tname fs st)"
proof (induction up tab d t st and up tab d tname fs st rule: checkType_checkFields.induct)
  case (1 up tab t st)
  then show ?case by simp
next
  case (2 up tab d t st)
  let ?st = "st\<lparr>checked := t # checked st\<rparr>"
  consider "t \<in> set (checked st)" | "t \<notin> set (checked st)" "\<not> t < length tab"
    | (new) "t \<notin> set (checked st)" "t < length tab"
    by blast
  then show ?case
  proof cases
    case new
    then have less: "notChecked tab ?st < d" using "2.prems" by (intro notChecked_mark)
    show ?thesis
    proof (cases "Kind tab t")
      case (MapK k e)
      from "2.IH"(5) [OF new(1) refl MapK less] obtain st1 where st1: "checkType up tab d e ?st = Inr st1"
        by (auto simp: returns_iff)
      have "notChecked tab st1 < d"
        using notChecked_visited [OF check_visited(1) [OF st1]] less by simp
      with "2.IH"(6) [OF new(1) refl MapK] st1 new(1) MapK show ?thesis by (simp add: Let_def)
    qed (use "2.IH"(1-4) [OF new(1) refl] new(1) less in \<open>simp_all add: Let_def\<close>)
  qed (simp_all add: Kind_def Let_def)
next
  case (3 up tab d tname st)
  then show ?case by simp
next
  case (4 up tab d tname name t fs st)
  then obtain st1 where st1: "checkType up tab d t (warnField up tname name st) = Inr st1"
    by (auto simp: returns_iff)
  have "notChecked tab st1 < d"
    using notChecked_visited [OF check_visited(1) [OF st1]] "4.prems" by simp
  with "4.IH"(2) st1 show ?case by simp
qed

definition closed_checked :: "types \<Rightarrow> GobState \<Rightarrow> bool" where
  "closed_checked tab st \<longleftrightarrow> (\<forall>u \<in> set (checked st). set (children tab u) \<subseteq> set (checked st))"

lemma closed_reach:
  assumes "closed_checked tab st" "(t, u) \<in> (child tab)\<^sup>*" "t \<in> set (checked st)"
  shows "u \<in> set (checked st)"
  using assms(2,3)
proof (induction rule: rtrancl_induct)
  case (step y z)
  with assms(1) show ?case by (auto simp: closed_checked_def child_def)
qed

section \<open>What the check for default values does\<close>

text \<open>The values of basic kinds that the check meets, with their names and whether an unexported field leads to them.\<close>

function basics :: "(nat \<Rightarrow> bool) \<Rightarrow> bool \<Rightarrow> 'f gval \<Rightarrow> nat \<Rightarrow> string \<Rightarrow> (bool \<times> string \<times> 'f gval) list"
  and basicFields :: "(nat \<Rightarrow> bool) \<Rightarrow> bool \<Rightarrow> (string \<times> 'f gval) list \<Rightarrow> nat \<Rightarrow> string
    \<Rightarrow> (bool \<times> string \<times> 'f gval) list" where
  "basics up ro v depth name =
     (if depth > 3 then []
      else case v of
        StructV fs \<Rightarrow> basicFields up ro fs depth name
      | PtrV p \<Rightarrow> (case p of None \<Rightarrow> [] | Some e \<Rightarrow> basics up ro e (depth + 1) name)
      | OtherV \<Rightarrow> []
      | _ \<Rightarrow> [(ro, name, v)])"
| "basicFields up ro [] depth name = []"
| "basicFields up ro ((fname, vv) # fs) depth name =
     basics up (ro \<or> lowerCase up fname) vv (depth + 1)
       (if name \<noteq> '''' then name @ ''.'' @ fname else fname) @ basicFields up ro fs depth name"
  by pat_completeness auto
termination
  by (relation "measure (\<lambda>x. case x of Inl (up, ro, v, d, n) \<Rightarrow> size v
        | Inr (up, ro, fs, d, n) \<Rightarrow> size_list (size_prod (\<lambda>_. 0) size) fs)") auto

declare checkDefault1.simps [simp del] basics.simps [simp del]

definition report_all :: "('f \<Rightarrow> bool) \<Rightarrow> (bool \<times> string \<times> 'f gval) list \<Rightarrow> GobState \<Rightarrow> GobState res" where
  "report_all zeroF ls st =
     (if \<exists>(ro, n, v) \<in> set ls. ro then Inl ReflectPanic
      else Inr (fold (\<lambda>(ro, n, v). reportNonDefault zeroF v n) ls st))"

lemma report_all_append:
  "report_all zeroF (ls @ ms) st = rbind (report_all zeroF ls st) (report_all zeroF ms)"
  by (auto simp: report_all_def)

lemma checkDefault1_eq:
  "checkDefault1 up zeroF ro v depth name st = report_all zeroF (basics up ro v depth name) st"
  "defaultFields up zeroF ro fs depth name st = report_all zeroF (basicFields up ro fs depth name) st"
proof (induction up zeroF ro v depth name st and up zeroF ro fs depth name st
    rule: checkDefault1_defaultFields.induct)
  case (1 up zeroF ro v depth name st)
  have leaf: "report_all zeroF [(ro, name, w)] st =
      (if ro then Inl ReflectPanic else Inr (reportNonDefault zeroF w name st))" for w
    by (simp add: report_all_def)
  have nil: "report_all zeroF [] st = Inr st" by (simp add: report_all_def)
  show ?case
    using 1 by (subst checkDefault1.simps, subst basics.simps)
      (cases v; simp add: leaf nil split: option.split)
next
  case (3 up zeroF ro fname vv fs depth name st)
  then show ?case by (cases "report_all zeroF (basics up (ro \<or> lowerCase up fname) vv (depth + 1)
      (if name \<noteq> '''' then name @ ''.'' @ fname else fname)) st") (simp_all add: report_all_append Let_def)
qed (simp add: report_all_def)

lemma report_errorCount:
  "errorCount (fold (\<lambda>(ro, n, v). reportNonDefault zeroF v n) ls st) =
     errorCount st + int (length (filter (\<lambda>(ro, n, v). \<not> zeroBasic zeroF v) ls))"
  by (induction ls arbitrary: st) (auto simp: reportNonDefault_def Let_def)

lemma report_zero:
  "\<forall>(ro, n, v) \<in> set ls. zeroBasic zeroF v \<Longrightarrow> fold (\<lambda>(ro, n, v). reportNonDefault zeroF v n) ls st = st"
  by (induction ls arbitrary: st) (auto simp: reportNonDefault_def)

lemma checkValue_returns: "\<exists>st'. checkValue up tab t st = Inr st'"
proof -
  have "notChecked tab st \<le> card {..<length tab}"
    unfolding notChecked_def by (intro card_mono) auto
  then show ?thesis
    using check_returns(1) [of tab st "length tab + 1" up t] by (simp add: checkValue_def returns_iff)
qed

definition basicKind :: "'f gval \<Rightarrow> bool" where
  "basicKind v \<longleftrightarrow> (case v of StructV _ \<Rightarrow> False | PtrV _ \<Rightarrow> False | OtherV \<Rightarrow> False | _ \<Rightarrow> True)"

lemma basicFields_mem:
  assumes "(f, v) \<in> set fs" "basicKind v" "depth < 3"
  shows "\<exists>n. (ro \<or> lowerCase up f, n, v) \<in> set (basicFields up ro fs depth name)"
  using assms
proof (induction fs)
  case (Cons p fs)
  show ?case
  proof (cases "p = (f, v)")
    case True
    with Cons.prems(2,3) show ?thesis by (cases v) (auto simp: basics.simps basicKind_def)
  next
    case False
    with Cons show ?thesis by (cases p) auto
  qed
qed simp

section \<open>Properties\<close>

text \<open>
  C19: the check of types. \<open>checkType\<close> returns for every type, recursive ones included: a stack as deep as there are types is enough. Afterwards
  exactly the types reachable from its argument through fields, elements and keys are marked besides those that were, the marked types are
  closed under this again, and the error count has grown by the number of lower-case fields of the types that
  were not marked before, so that each field is reported once.
\<close>

theorem checkValue_visits:
  assumes "closed_checked tab st"
  shows "\<exists>st'. checkValue up tab t st = Inr st' \<and>
     set (checked st') = set (checked st) \<union> {u. (t, u) \<in> (child tab)\<^sup>*} \<and> closed_checked tab st' \<and>
     errorCount st' = errorCount st + (\<Sum>u \<in> set (checked st') - set (checked st). lowerFields up tab u)"
proof -
  obtain st' where st': "checkValue up tab t st = Inr st'" using checkValue_returns by blast
  then have "visited up tab [t] 0 st st'" unfolding checkValue_def by (rule check_visited)
  then obtain new where new: "checked st' = new @ checked st" "distinct new" "set new \<inter> set (checked st) = {}"
    "errorCount st' = errorCount st + (\<Sum>u\<leftarrow>new. lowerFields up tab u)" "t \<in> set (checked st')"
    "\<forall>u \<in> set new. set (children tab u) \<subseteq> set (checked st') \<and> (t, u) \<in> (child tab)\<^sup>*"
    unfolding visited_def by auto
  have closed: "closed_checked tab st'"
    using new(1,6) assms by (fastforce simp: closed_checked_def)
  have "set (checked st') - set (checked st) = set new" using new(1,3) by auto
  moreover have "(\<Sum>u\<leftarrow>new. lowerFields up tab u) = (\<Sum>u \<in> set new. lowerFields up tab u)"
    using new(2) by (simp add: sum_list_distinct_conv_sum_set)
  moreover have "set (checked st') = set (checked st) \<union> {u. (t, u) \<in> (child tab)\<^sup>*}"
    using new(1,6) closed_reach [OF closed _ new(5)] by auto
  ultimately show ?thesis using st' new(4) closed by auto
qed

definition sampleTypes :: types where
  "sampleTypes = [(''Node'', StructK [(''next'', 1), (''Term'', 2)]), ('''', PtrK 0)]"

theorem checkValue_visits_witness:
  "\<exists>st'. checkValue (\<lambda>r. 65 \<le> r \<and> r \<le> 90) sampleTypes 0 \<lparr>checked = [], errorCount = 0, printed = []\<rparr> = Inr st' \<and>
     closed_checked sampleTypes st'"
  using checkValue_visits [of sampleTypes "\<lparr>checked = [], errorCount = 0, printed = []\<rparr>" "\<lambda>r. 65 \<le> r \<and> r \<le> 90" 0]
  by (auto simp: closed_checked_def)

text \<open>
  The check for default values. It panics exactly when a value of a basic kind within its depth is reached through an unexported
  field. Otherwise it raises the error count by the number of values of basic kinds, at most three levels deep, that are not zero, prints at
  most one message, and only if no error was counted before; on a zero value it changes nothing.
\<close>

theorem checkDefault_outcome:
  "if \<exists>l \<in> set (basics up False v 1 ''''). fst l then checkDefault up zeroF (Some v) st = Inl ReflectPanic
   else \<exists>st'. checkDefault up zeroF (Some v) st = Inr st' \<and> checked st' = checked st \<and>
     errorCount st' = errorCount st +
       int (length (filter (\<lambda>l. \<not> zeroBasic zeroF (snd (snd l))) (basics up False v 1 ''''))) \<and>
     (errorCount st \<ge> 1 \<longrightarrow> printed st' = printed st) \<and>
     (errorCount st \<ge> 0 \<longrightarrow> length (printed st') \<le> length (printed st) + 1) \<and>
     (errorCount st' = errorCount st \<longrightarrow> st' = st)"
proof -
  let ?ls = "basics up False v 1 ''''" and ?f = "\<lambda>(ro :: bool, n, v). reportNonDefault zeroF v n"
  have eq: "checkDefault up zeroF (Some v) st = report_all zeroF ?ls st"
    by (simp add: checkDefault_def checkDefault1_eq)
  have checked: "checked (fold ?f ls st) = checked st" for ls st
    by (induction ls arbitrary: st) (auto simp: reportNonDefault_def Let_def)
  have quiet: "errorCount st \<ge> 1 \<Longrightarrow> printed (fold ?f ls st) = printed st" for ls st
    by (induction ls arbitrary: st) (auto simp: reportNonDefault_def Let_def)
  have once: "errorCount st \<ge> 0 \<Longrightarrow> length (printed (fold ?f ls st)) \<le> length (printed st) + 1" for ls st
    by (induction ls arbitrary: st) (auto simp: reportNonDefault_def Let_def quiet)
  have same: "fold ?f ?ls st = st" if "errorCount (fold ?f ?ls st) = errorCount st"
    by (rule report_zero) (use that in \<open>auto simp: report_errorCount filter_empty_conv split: prod.splits\<close>)
  have count: "errorCount (fold ?f ?ls st) =
      errorCount st + int (length (filter (\<lambda>l. \<not> zeroBasic zeroF (snd (snd l))) ?ls))"
    unfolding report_errorCount by (simp add: case_prod_unfold)
  show ?thesis
  proof (cases "\<exists>l \<in> set ?ls. fst l")
    case True
    then show ?thesis by (auto simp: eq report_all_def)
  next
    case False
    then have "report_all zeroF ?ls st = Inr (fold ?f ?ls st)" by (auto simp: report_all_def)
    with False show ?thesis using checked quiet once count same unfolding eq by auto
  qed
qed

theorem checkDefault_outcome_witness:
  "\<exists>st'. checkDefault (\<lambda>r. 65 \<le> r \<and> r \<le> 90) (\<lambda>x :: nat. x = 0) (Some (StructV [(''Term'', IntV ''int'' 3)]))
       \<lparr>checked = [], errorCount = 1, printed = []\<rparr> = Inr st' \<and> errorCount st' = 2 \<and> printed st' = []"
  using checkDefault_outcome [of "\<lambda>r. 65 \<le> r \<and> r \<le> 90" "StructV [(''Term'', IntV ''int'' 3)]" "\<lambda>x :: nat. x = 0"
      "\<lparr>checked = [], errorCount = 1, printed = []\<rparr>"]
  by (simp add: basics.simps lowerCase_def byte_of_def) blast

text \<open>
  Decoding into a struct with an unexported field. The package says that it warns about lower-case fields; but if such a field, within
  a pointer to a struct, is of a basic kind, \<open>Decode\<close> panics, whatever the value of the field.
\<close>

theorem Decode_unexported_panics:
  assumes "(f, v) \<in> set fs" "lowerCase up f" "basicKind v"
  shows "Decode up tab zeroF dec t data (PtrV (Some (StructV fs))) st = Inl ReflectPanic"
proof -
  obtain st' where st': "checkValue up tab t st = Inr st'" using checkValue_returns by blast
  have "basics up False (PtrV (Some (StructV fs))) 1 '''' = basicFields up False fs 2 ''''"
    by (simp add: basics.simps numeral_2_eq_2)
  moreover obtain n where "(True, n, v) \<in> set (basicFields up False fs 2 '''')"
    using basicFields_mem [OF assms(1,3), of 2 False up "''''"] assms(2) by auto
  ultimately have "report_all zeroF (basics up False (PtrV (Some (StructV fs))) 1 '''') st' = Inl ReflectPanic"
    by (auto simp: report_all_def)
  then have "checkDefault up zeroF (Some (PtrV (Some (StructV fs)))) st' = Inl ReflectPanic"
    by (simp add: checkDefault_def checkDefault1_eq)
  with st' show ?thesis by (simp add: Decode_def)
qed

theorem Decode_unexported_panics_witness:
  "Decode (\<lambda>r. 65 \<le> r \<and> r \<le> 90) [] (\<lambda>x :: nat. x = 0) (\<lambda>b v. Some v) 0 ()
     (PtrV (Some (StructV [(''Term'', IntV ''int'' 0), (''index'', IntV ''int'' 0)])))
     \<lparr>checked = [], errorCount = 0, printed = []\<rparr> = Inl ReflectPanic"
  by (rule Decode_unexported_panics [of "''index''" "IntV ''int'' 0"])
     (simp_all add: lowerCase_def byte_of_def basicKind_def)

end
