(* ===== verification/MR_Util.thy ===== *)
theory MR_Util
  imports Prelude "HOL-Library.Word" "HOL-Library.List_Lexorder" "HOL-Library.Char_ord"
begin

unbundle bit_operations_syntax

text \<open>
  \<open>mr/util.go\<close>, and the library functions that the MapReduce code builds its file names with: decimal
  output (\<open>%d\<close> of \<open>fmt\<close>), \<open>strings.Split\<close> on a character, and the wildcard matching behind
  \<open>filepath.Glob\<close>. A Go string is a HOL \<open>string\<close>, one \<open>char\<close> per byte; Go's order of strings is
  the lexicographic order of the bytes.
\<close>

section \<open>Ranges of worker numbers\<close>

definition makeRangeUint32 :: "int \<Rightarrow> int \<Rightarrow> 32 word list res" where
  "makeRangeUint32 mn mx =
     rbind (go_make (mx - mn + 1) (0 :: 32 word)) (\<lambda>a.
       Inr (map (\<lambda>i. word_of_int (mn + int i)) [0..<length a]))"

fun inRangeUint32 :: "32 word \<Rightarrow> 32 word list \<Rightarrow> bool" where
  "inRangeUint32 elem [] = False"
| "inRangeUint32 elem (v # l) = (if v = elem then True else inRangeUint32 elem l)"

lemma inRangeUint32_iff [simp]: "inRangeUint32 x l \<longleftrightarrow> x \<in> set l"
  by (induction l) auto

definition inTimeSpan :: "int \<Rightarrow> int \<Rightarrow> int \<Rightarrow> bool" where
  "inTimeSpan start end check \<longleftrightarrow> start < check \<and> check < end"

section \<open>The hash that chooses a reduce task\<close>

text \<open>\<open>fnv.New32a\<close>: for every byte, exclusive or, then multiply by the FNV prime, modulo \<open>2^32\<close>.\<close>

definition fnv32a :: "string \<Rightarrow> 32 word" where
  "fnv32a s = foldl (\<lambda>h c. (h XOR of_char c) * 16777619) 2166136261 s"

definition ihash :: "string \<Rightarrow> int" where
  "ihash key = uint (fnv32a key AND 0x7fffffff)"

lemma ihash_bounds: "0 \<le> ihash key" "ihash key < 2 ^ 31"
proof -
  have m: "(0x7fffffff :: 32 word) = mask 31" by (simp add: mask_eq_exp_minus_1)
  have "uint (fnv32a key AND mask 31) = uint (fnv32a key) mod 2 ^ 31"
    unfolding take_bit_eq_mask [symmetric] unsigned_take_bit_eq by (rule take_bit_eq_mod)
  then show "ihash key < 2 ^ 31" by (simp add: ihash_def m)
  show "0 \<le> ihash key" by (simp add: ihash_def)
qed

section \<open>Decimal numbers\<close>

definition digit :: "nat \<Rightarrow> char" where
  "digit n = char_of (48 + n)"

fun itoa :: "nat \<Rightarrow> string" where
  "itoa n = (if n < 10 then [digit n] else itoa (n div 10) @ [digit (n mod 10)])"

declare itoa.simps [simp del]

definition digits_value :: "string \<Rightarrow> nat" where
  "digits_value s = foldl (\<lambda>v c. 10 * v + (of_char c - 48)) 0 s"

lemma of_char_digit: "n < 10 \<Longrightarrow> of_char (digit n) = 48 + n"
  by (simp add: digit_def)

lemma itoa_value: "digits_value (itoa n) = n"
proof (induction n rule: itoa.induct)
  case (1 n)
  then show ?case
    by (cases "n < 10") (simp_all add: itoa.simps [of n] digits_value_def of_char_digit)
qed

lemma itoa_inj [simp]: "itoa m = itoa n \<longleftrightarrow> m = n"
  using itoa_value by metis

lemma itoa_nonempty [simp]: "itoa n \<noteq> []"
  by (simp add: itoa.simps)

lemma itoa_digits: "c \<in> set (itoa n) \<Longrightarrow> 48 \<le> (of_char c :: nat) \<and> of_char c \<le> (57 :: nat)"
proof (induction n rule: itoa.induct)
  case (1 n)
  then show ?case by (cases "n < 10") (auto simp: itoa.simps [of n] of_char_digit)
qed

lemma itoa_no_special [simp]:
  "CHR ''-'' \<notin> set (itoa n)" "CHR ''/'' \<notin> set (itoa n)" "CHR ''*'' \<notin> set (itoa n)"
  "CHR ''?'' \<notin> set (itoa n)" "CHR ''o'' \<notin> set (itoa n)" "CHR ''['' \<notin> set (itoa n)"
  "CHR 0x5C \<notin> set (itoa n)"
  by (auto dest: itoa_digits)

section \<open>Splitting at a character\<close>

fun splitOn :: "char \<Rightarrow> string \<Rightarrow> string list" where
  "splitOn c [] = [[]]"
| "splitOn c (x # xs) =
     (if x = c then [] # splitOn c xs
      else (case splitOn c xs of [] \<Rightarrow> [[x]] | y # ys \<Rightarrow> (x # y) # ys))"

lemma splitOn_nonempty [simp]: "splitOn c s \<noteq> []"
  by (induction s) (auto split: list.split)

lemma splitOn_none: "c \<notin> set s \<Longrightarrow> splitOn c s = [s]"
  by (induction s) auto

lemma last_splitOn:
  assumes "c \<notin> set v"
  shows "last (splitOn c (u @ c # v)) = v"
  using assms
proof (induction u)
  case Nil
  then show ?case by (simp add: splitOn_none)
next
  case (Cons x u)
  obtain y ys where s: "splitOn c (u @ c # v) = y # ys" by (meson splitOn_nonempty list.exhaust)
  have "ys \<noteq> []" using s by (induction u arbitrary: y ys) (auto split: if_splits list.splits)
  with Cons s show ?case by simp
qed

section \<open>Wildcards\<close>

text \<open>
  The matching of a file name, for patterns without character classes and escapes: \<open>*\<close> stands
  for any string and \<open>?\<close> for any character, the separator excepted.
\<close>

fun matchName :: "string \<Rightarrow> string \<Rightarrow> bool" where
  "matchName [] s = (s = [])"
| "matchName (p # ps) [] = (p = CHR ''*'' \<and> matchName ps [])"
| "matchName (p # ps) (c # cs) =
     (if p = CHR ''*''
      then matchName ps (c # cs) \<or> c \<noteq> CHR ''/'' \<and> matchName (p # ps) cs
      else (if p = CHR ''?'' then c \<noteq> CHR ''/'' else c = p) \<and> matchName ps cs)"

lemma matchName_literal:
  "CHR ''*'' \<notin> set p \<Longrightarrow> CHR ''?'' \<notin> set p \<Longrightarrow> matchName p s \<longleftrightarrow> s = p"
  by (induction p s rule: matchName.induct) auto

lemma matchName_prefix:
  "CHR ''*'' \<notin> set p \<Longrightarrow> CHR ''?'' \<notin> set p \<Longrightarrow>
   matchName (p @ q) s \<longleftrightarrow> (\<exists>r. s = p @ r \<and> matchName q r)"
proof (induction p arbitrary: s)
  case Nil
  then show ?case by simp
next
  case (Cons x p)
  then show ?case by (cases s) auto
qed

lemma matchName_star:
  "matchName (CHR ''*'' # p) s \<longleftrightarrow>
     (\<exists>u v. s = u @ v \<and> CHR ''/'' \<notin> set u \<and> matchName p v)"
proof (induction s)
  case Nil
  then show ?case by simp
next
  case (Cons c s)
  show ?case
  proof
    assume "matchName (CHR ''*'' # p) (c # s)"
    then consider "matchName p (c # s)" | "c \<noteq> CHR ''/''" "matchName (CHR ''*'' # p) s" by auto
    then show "\<exists>u v. c # s = u @ v \<and> CHR ''/'' \<notin> set u \<and> matchName p v"
    proof cases
      case 1
      then show ?thesis by (intro exI [of _ "[]"] exI [of _ "c # s"]) simp
    next
      case 2
      with Cons.IH obtain u v where "s = u @ v" "CHR ''/'' \<notin> set u" "matchName p v" by blast
      with 2 show ?thesis by (intro exI [of _ "c # u"] exI [of _ v]) simp
    qed
  next
    assume "\<exists>u v. c # s = u @ v \<and> CHR ''/'' \<notin> set u \<and> matchName p v"
    then obtain u v where uv: "c # s = u @ v" "CHR ''/'' \<notin> set u" "matchName p v" by blast
    show "matchName (CHR ''*'' # p) (c # s)"
    proof (cases u)
      case Nil
      with uv have "matchName p (c # s)" by simp
      then show ?thesis by simp
    next
      case (Cons d w)
      with uv have "s = w @ v" "CHR ''/'' \<notin> set w" "c \<noteq> CHR ''/''" by auto
      with uv(3) Cons.IH show ?thesis by auto
    qed
  qed
qed

section \<open>File names\<close>

text \<open>\<open>fmt.Sprintf("mr-%d-%d", ...)\<close> of a map task's output and \<open>fmt.Sprintf("mr-*-%d", ...)\<close> of a reduce task.\<close>

definition bucketName :: "32 word \<Rightarrow> nat \<Rightarrow> string" where
  "bucketName taskID idx = ''mr-'' @ itoa (unat taskID) @ ''-'' @ itoa idx"

definition reducePattern :: "nat \<Rightarrow> string" where
  "reducePattern i = ''mr-*-'' @ itoa i"

lemma append_sep_eq:
  fixes c :: char
  assumes "c \<notin> set x" "c \<notin> set y"
  shows "u @ c # x = v @ c # y \<longleftrightarrow> u = v \<and> x = y"
proof
  assume eq: "u @ c # x = v @ c # y"
  then have "last (splitOn c (u @ c # x)) = last (splitOn c (v @ c # y))" by simp
  with assms have "x = y" by (simp add: last_splitOn)
  with eq show "u = v \<and> x = y" by simp
qed simp

lemma bucketName_inj [simp]: "bucketName t i = bucketName u j \<longleftrightarrow> t = u \<and> i = j"
  by (auto simp: bucketName_def append_sep_eq unsigned_word_eqI)

lemma matchName_reducePattern:
  "matchName (reducePattern i) s \<longleftrightarrow>
     (\<exists>u. s = ''mr-'' @ u @ CHR ''-'' # itoa i \<and> CHR ''/'' \<notin> set u)"
proof -
  have "reducePattern i = ''mr-'' @ CHR ''*'' # CHR ''-'' # itoa i" by (simp add: reducePattern_def)
  moreover have "matchName (CHR ''-'' # itoa i) r \<longleftrightarrow> r = CHR ''-'' # itoa i" for r
    by (rule matchName_literal) auto
  ultimately show ?thesis
    using matchName_prefix [of "''mr-''" "CHR ''*'' # CHR ''-'' # itoa i" s]
    by (auto simp: matchName_star simp del: matchName.simps)
qed

lemma matchName_bucket [simp]: "matchName (reducePattern i) (bucketName t j) \<longleftrightarrow> j = i"
proof -
  have "bucketName t j = ''mr-'' @ itoa (unat t) @ CHR ''-'' # itoa j" by (simp add: bucketName_def)
  then show ?thesis
    by (auto simp: matchName_reducePattern append_sep_eq simp del: append_Cons append_assoc)
qed

end
