(* ===== verification/MR_Master.thy ===== *)
theory MR_Master
  imports MR_Util
begin

text \<open>
  \<open>mr/rpc.go\<close> and \<open>mr/master.go\<close>: the tasks, the RPC handlers of the master, the goroutine that
  schedules the two phases and the one that looks for lost workers.

  The task table is a \<open>sync.Map\<close>. Its \<open>Range\<close> visits the keys in an order that the language
  leaves open; the order is an argument \<open>ks\<close> of the functions that use it. Times are in
  nanoseconds; within one call of a handler the clock is read once.
\<close>

section \<open>Tasks\<close>

datatype MRPhase = MapPhase | ReducePhase

datatype TaskState =
    TaskStateQueue | TaskStateSending | TaskStateRunning | TaskStateFinish | TaskStateErr

record MRTask =
  WorkerID :: "32 word"
  TaskID :: "32 word"
  NReduce :: int
  Phase :: MRPhase
  Filename :: string
  task_State :: TaskState
  BeatTime :: int

record MRArgs =
  arg_ID :: "32 word"
  arg_State :: TaskState

section \<open>The master\<close>

record Master =
  mrPhase :: MRPhase
  m_done :: bool
  workerIDs :: "32 word list"
  taskSeq :: "32 word"
  tasks :: "32 word \<Rightarrow> MRTask option"
  files :: "string list"
  reduceFiles :: "string list"
  nReduce :: int
  waitTaskTimeout :: int

text \<open>\<open>sync.Map.Range\<close>: the callback gets the value stored at that moment and says whether to go on.\<close>

fun syncRange :: "('s \<Rightarrow> 'k \<Rightarrow> 'v option) \<Rightarrow> ('k \<Rightarrow> 'v \<Rightarrow> 's \<Rightarrow> 's \<times> bool) \<Rightarrow> 'k list \<Rightarrow> 's \<Rightarrow> 's" where
  "syncRange load f [] s = s"
| "syncRange load f (k # ks) s =
     (case load s k of
        None \<Rightarrow> syncRange load f ks s
      | Some v \<Rightarrow> (let (s, cont) = f k v s in if cont then syncRange load f ks s else s))"

definition Done :: "Master \<Rightarrow> bool" where
  "Done m = m_done m"

definition genTaskID :: "Master \<Rightarrow> Master \<times> 32 word" where
  "genTaskID m = (let m = m\<lparr>taskSeq := taskSeq m + 1\<rparr> in (m, taskSeq m))"

definition isTasksDone :: "32 word list \<Rightarrow> Master \<Rightarrow> bool" where
  "isTasksDone ks m =
     syncRange (\<lambda>_. tasks m)
       (\<lambda>key value d. if task_State value \<noteq> TaskStateFinish then (False, False) else (d, True))
       ks True"

definition getWorkerID :: "Master \<Rightarrow> Master \<times> (string + 32 word)" where
  "getWorkerID m =
     (case workerIDs m of
        [] \<Rightarrow> (m, Inl ''worker num execeed'')
      | wid # rest \<Rightarrow> (m\<lparr>workerIDs := rest\<rparr>, Inr wid))"

definition putWorkerID :: "32 word \<Rightarrow> Master \<Rightarrow> Master \<times> 32 word" where
  "putWorkerID wid m =
     (if inRangeUint32 wid (workerIDs m) then (m, wid)
      else (m\<lparr>workerIDs := workerIDs m @ [wid]\<rparr>, wid))"

text \<open>\<open>MakeMaster\<close> returns nil for a number of reduce tasks that is not positive.\<close>

definition MakeMaster :: "string list \<Rightarrow> int \<Rightarrow> Master option res" where
  "MakeMaster fs n =
     (let workerMaxNum = 10 in
      if n \<le> 0 then Inr None
      else rbind (makeRangeUint32 1 workerMaxNum) (\<lambda>ids.
             Inr (Some \<lparr>mrPhase = MapPhase, m_done = False, workerIDs = ids, taskSeq = 0,
                       tasks = (\<lambda>_. None), files = fs, reduceFiles = [], nReduce = n,
                       waitTaskTimeout = 300\<rparr>)))"

section \<open>The RPC handlers\<close>

definition RegWorker :: "Master \<Rightarrow> Master \<times> (string + 32 word)" where
  "RegWorker m = getWorkerID m"

definition DeRegWorker :: "32 word \<Rightarrow> Master \<Rightarrow> Master \<times> 32 word" where
  "DeRegWorker workerID m = putWorkerID workerID m"

definition AddReduceTask :: "string list \<Rightarrow> Master \<Rightarrow> Master" where
  "AddReduceTask rfs m = m\<lparr>reduceFiles := reduceFiles m @ rfs\<rparr>"

definition SetTaskState :: "int \<Rightarrow> MRArgs \<Rightarrow> Master \<Rightarrow> Master \<times> string option" where
  "SetTaskState now args m =
     (case tasks m (arg_ID args) of
        None \<Rightarrow> (m, Some ''find task error'')
      | Some value \<Rightarrow>
          (let task = \<lparr>WorkerID = WorkerID value, TaskID = TaskID value, NReduce = NReduce value,
                       Phase = Phase value, Filename = Filename value,
                       task_State = arg_State args, BeatTime = now\<rparr>
           in (m\<lparr>tasks := (tasks m)(arg_ID args \<mapsto> task)\<rparr>, None)))"

text \<open>
  \<open>WorkerHeartBeat\<close> holds no lock between \<open>Load\<close> and \<open>Store\<close>: the two halves, and the handler
  as it runs when nothing comes in between.
\<close>

definition heartBeatLoad :: "32 word \<Rightarrow> Master \<Rightarrow> MRTask option" where
  "heartBeatLoad taskID m = tasks m taskID"

definition heartBeatStore :: "int \<Rightarrow> 32 word \<Rightarrow> MRTask \<Rightarrow> Master \<Rightarrow> Master" where
  "heartBeatStore now taskID task m = m\<lparr>tasks := (tasks m)(taskID \<mapsto> task\<lparr>BeatTime := now\<rparr>)\<rparr>"

definition WorkerHeartBeat :: "int \<Rightarrow> MRTask \<Rightarrow> Master \<Rightarrow> Master \<times> string option" where
  "WorkerHeartBeat now args m =
     (if TaskID args = 0 then (m, None)
      else case heartBeatLoad (TaskID args) m of
             None \<Rightarrow> (m, Some ''find task error'')
           | Some task \<Rightarrow> (heartBeatStore now (TaskID args) task m, None))"

text \<open>The first half of \<open>GetTask\<close>: the first task of the table that is to be retried.\<close>

definition getRetry :: "int \<Rightarrow> 32 word list \<Rightarrow> MRArgs \<Rightarrow> Master \<Rightarrow> Master \<times> MRTask option" where
  "getRetry now ks args m =
     syncRange (\<lambda>(m, _). tasks m)
       (\<lambda>key value (m, reply).
          if task_State value = TaskStateErr
          then (let task = \<lparr>WorkerID = arg_ID args, TaskID = TaskID value,
                            NReduce = NReduce value, Phase = Phase value,
                            Filename = Filename value, task_State = TaskStateSending,
                            BeatTime = now\<rparr>
                in ((m\<lparr>tasks := (tasks m)(TaskID task \<mapsto> task)\<rparr>, Some task), False))
          else ((m, reply), True))
       ks (m, None)"

text \<open>The second half, from the file received on the channel.\<close>

definition assignTask :: "int \<Rightarrow> MRArgs \<Rightarrow> string \<Rightarrow> Master \<Rightarrow> Master \<times> MRTask option" where
  "assignTask now args file m =
     (let phase = mrPhase m;
          (m, tid) = genTaskID m;
          task = \<lparr>WorkerID = arg_ID args, TaskID = tid, NReduce = nReduce m, Phase = phase,
                  Filename = file, task_State = TaskStateSending, BeatTime = now\<rparr>
      in (m\<lparr>tasks := (tasks m)(TaskID task \<mapsto> task)\<rparr>, Some task))"

text \<open>\<open>recv\<close> is what the channel yields, \<open>None\<close> once it is closed.\<close>

definition GetTask :: "int \<Rightarrow> 32 word list \<Rightarrow> string option \<Rightarrow> MRArgs \<Rightarrow> Master
    \<Rightarrow> Master \<times> MRTask option" where
  "GetTask now ks recv args m =
     (case getRetry now ks args m of
        (m, Some task) \<Rightarrow> (m, Some task)
      | (m, None) \<Rightarrow>
          (case recv of None \<Rightarrow> (m, None) | Some file \<Rightarrow> assignTask now args file m))"

text \<open>One round of the goroutine that looks for tasks without a recent heartbeat.\<close>

definition handleHeartbeat :: "int \<Rightarrow> 32 word list \<Rightarrow> Master \<Rightarrow> Master" where
  "handleHeartbeat now ks m =
     syncRange tasks
       (\<lambda>key value m.
          if now - BeatTime value > 10 * 1000000000
          then (let t = \<lparr>arg_ID = TaskID value, arg_State = TaskStateErr\<rparr>;
                    m = (if task_State value \<noteq> TaskStateFinish then fst (SetTaskState now t m) else m);
                    (m, res) = DeRegWorker (WorkerID value) m
                in (m, True))
          else (m, True))
       ks m"

section \<open>The scheduler\<close>

text \<open>
  The goroutine \<open>schedule\<close>: where it stands. \<open>SendFile k\<close> and \<open>SendReduce i\<close> are the sends on
  the channel, which has no buffer: they wait for a receiver. \<open>WaitMap\<close> and
  \<open>WaitReduce\<close> are the two waiting loops with their counter.
\<close>

datatype Sched =
    SendFile nat | WaitMap int | StartReduce | SendReduce nat | WaitReduce int | AllDone | Exited

definition scheduleStart :: "Master \<Rightarrow> Master \<times> Sched" where
  "scheduleStart m = ((if files m = [] then m\<lparr>m_done := True\<rparr> else m), SendFile 0)"

text \<open>What the scheduler offers on the channel, and whether the channel is closed.\<close>

fun offered :: "Master \<Rightarrow> Sched \<Rightarrow> (string \<times> Sched) option" where
  "offered m (SendFile k) =
     (if k < length (files m) then Some (files m ! k, SendFile (k + 1)) else None)"
| "offered m (SendReduce i) =
     (if int i < nReduce m then Some (reducePattern i, SendReduce (i + 1)) else None)"
| "offered m _ = None"

fun chanClosed :: "Sched \<Rightarrow> bool" where
  "chanClosed (WaitReduce i) = True"
| "chanClosed AllDone = True"
| "chanClosed _ = False"

text \<open>The steps that need no receiver; the process ends when a waiting loop has run too long.\<close>

fun scheduleTick :: "32 word list \<Rightarrow> Master \<Rightarrow> Sched \<Rightarrow> Master \<times> Sched" where
  "scheduleTick ks m (SendFile k) =
     (if k < length (files m) then (m, SendFile k) else (m, WaitMap 0))"
| "scheduleTick ks m (WaitMap i) =
     (if isTasksDone ks m then (m, StartReduce)
      else if i + 1 > waitTaskTimeout m then (m, Exited) else (m, WaitMap (i + 1)))"
| "scheduleTick ks m StartReduce = (m\<lparr>mrPhase := ReducePhase\<rparr>, SendReduce 0)"
| "scheduleTick ks m (SendReduce i) =
     (if int i < nReduce m then (m, SendReduce i) else (m, WaitReduce 0))"
| "scheduleTick ks m (WaitReduce i) =
     (if isTasksDone ks m then (m\<lparr>m_done := True\<rparr>, AllDone)
      else if i + 1 > waitTaskTimeout m then (m, Exited) else (m, WaitReduce (i + 1)))"
| "scheduleTick ks m AllDone = (m, AllDone)"
| "scheduleTick ks m Exited = (m, Exited)"

section \<open>Iterating over the table\<close>

lemma syncRange_inv:
  assumes "P s" "\<And>k v s. P s \<Longrightarrow> load s k = Some v \<Longrightarrow> P (fst (f k v s))"
  shows "P (syncRange load f ks s)"
  using assms(1)
proof (induction ks arbitrary: s)
  case Nil
  then show ?case by simp
next
  case (Cons k ks)
  show ?case
  proof (cases "load s k")
    case None
    with Cons show ?thesis by simp
  next
    case (Some v)
    obtain s' cont where f: "f k v s = (s', cont)" by fastforce
    with assms(2) [OF Cons.prems Some] have "P s'" by simp
    with Some f Cons.IH show ?thesis by simp
  qed
qed

text \<open>The keys that a full iteration visits.\<close>

definition covers :: "32 word list \<Rightarrow> Master \<Rightarrow> bool" where
  "covers ks m \<longleftrightarrow> dom (tasks m) \<subseteq> set ks"

lemma isTasksDone_iff:
  "isTasksDone ks m \<longleftrightarrow>
     (\<forall>k \<in> set ks. \<forall>t. tasks m k = Some t \<longrightarrow> task_State t = TaskStateFinish)"
  unfolding isTasksDone_def by (induction ks) (auto split: option.split)

lemma isTasksDone_all:
  assumes "covers ks m"
  shows "isTasksDone ks m \<longleftrightarrow> (\<forall>k t. tasks m k = Some t \<longrightarrow> task_State t = TaskStateFinish)"
  using assms by (auto simp: isTasksDone_iff covers_def)

section \<open>What the handlers keep of the table\<close>

text \<open>
  Two versions of a task differ in their worker, state and time of heartbeat only; a handler other
  than \<open>GetTask\<close> with a new task leaves a table of the same tasks.
\<close>

definition same_task :: "MRTask \<Rightarrow> MRTask \<Rightarrow> bool" where
  "same_task t u \<longleftrightarrow>
     TaskID t = TaskID u \<and> NReduce t = NReduce u \<and> Phase t = Phase u \<and> Filename t = Filename u"

definition same_table :: "Master \<Rightarrow> Master \<Rightarrow> bool" where
  "same_table m m' \<longleftrightarrow>
     (\<forall>k. rel_option same_task (tasks m k) (tasks m' k)) \<and>
     mrPhase m' = mrPhase m \<and> taskSeq m' = taskSeq m \<and> files m' = files m \<and> nReduce m' = nReduce m"

lemma same_task_refl [simp]: "same_task t t"
  by (simp add: same_task_def)

lemma same_task_sym: "same_task t u \<Longrightarrow> same_task u t"
  by (simp add: same_task_def)

lemma same_task_trans: "same_task t u \<Longrightarrow> same_task u v \<Longrightarrow> same_task t v"
  by (simp add: same_task_def)

lemma same_table_refl [simp]: "same_table m m"
  by (simp add: same_table_def option.rel_refl)

lemma rel_option_trans:
  assumes "\<And>x y z. R x y \<Longrightarrow> R y z \<Longrightarrow> R x z" "rel_option R a b" "rel_option R b c"
  shows "rel_option R a c"
  using assms by (cases a; cases b; cases c) auto

lemma same_table_trans: "same_table m m' \<Longrightarrow> same_table m' m'' \<Longrightarrow> same_table m m''"
  unfolding same_table_def by (metis (no_types, lifting) rel_option_trans same_task_trans)

lemma same_tableD:
  assumes "same_table m m'"
  shows "tasks m k = Some t \<Longrightarrow> \<exists>u. tasks m' k = Some u \<and> same_task t u"
    and "tasks m' k = Some u \<Longrightarrow> \<exists>t. tasks m k = Some t \<and> same_task t u"
proof -
  have r: "rel_option same_task (tasks m k) (tasks m' k)" using assms by (simp add: same_table_def)
  show "tasks m k = Some t \<Longrightarrow> \<exists>u. tasks m' k = Some u \<and> same_task t u"
    using r by (cases "tasks m' k") auto
  show "tasks m' k = Some u \<Longrightarrow> \<exists>t. tasks m k = Some t \<and> same_task t u"
    using r by (cases "tasks m k") auto
qed

lemma same_table_store:
  assumes "tasks m k = Some t" "same_task t u"
  shows "same_table m (m\<lparr>tasks := (tasks m)(k \<mapsto> u)\<rparr>)"
  using assms by (auto simp: same_table_def intro: option.rel_refl)

lemma same_table_workerIDs [simp]: "same_table m (m\<lparr>workerIDs := w\<rparr>)"
  by (simp add: same_table_def option.rel_refl)

lemma same_table_worker_ops:
  "same_table m (fst (RegWorker m))" "same_table m (fst (DeRegWorker w m))"
  "same_table m (AddReduceTask rfs m)"
  by (auto simp: RegWorker_def getWorkerID_def DeRegWorker_def putWorkerID_def AddReduceTask_def
      same_table_def option.rel_refl split: list.split)

lemma same_table_SetTaskState: "same_table m (fst (SetTaskState now args m))"
  by (auto simp: SetTaskState_def Let_def same_task_def split: option.split intro: same_table_store)

lemma same_table_heartBeatStore:
  assumes "tasks m k = Some t" "same_task t v"
  shows "same_table m (heartBeatStore now k v m)"
  unfolding heartBeatStore_def
  using assms by (intro same_table_store) (auto simp: same_task_def)

lemma same_table_handleHeartbeat: "same_table m (handleHeartbeat now ks m)"
  unfolding handleHeartbeat_def
proof (rule syncRange_inv)
  fix k v s assume "same_table m s"
  then show "same_table m (fst (if now - BeatTime v > 10 * 1000000000
     then (let t = \<lparr>arg_ID = TaskID v, arg_State = TaskStateErr\<rparr>;
               s = (if task_State v \<noteq> TaskStateFinish then fst (SetTaskState now t s) else s);
               (s, res) = DeRegWorker (WorkerID v) s
           in (s, True))
     else (s, True)))"
    using same_table_trans [OF _ same_table_trans [OF same_table_SetTaskState same_table_worker_ops(2)]]
      same_table_trans [OF _ same_table_worker_ops(2)]
    by (simp add: Let_def case_prod_beta)
qed simp

text \<open>A key of the table is the number of its task.\<close>

definition keyed :: "Master \<Rightarrow> bool" where
  "keyed m \<longleftrightarrow> (\<forall>k t. tasks m k = Some t \<longrightarrow> TaskID t = k)"

lemma keyed_same: "keyed m \<Longrightarrow> same_table m m' \<Longrightarrow> keyed m'"
  unfolding keyed_def by (auto dest!: same_tableD(2) simp: same_task_def)

text \<open>A task that is handed out again.\<close>

definition retried :: "int \<Rightarrow> MRArgs \<Rightarrow> MRTask \<Rightarrow> MRTask" where
  "retried now args t =
     t\<lparr>WorkerID := arg_ID args, task_State := TaskStateSending, BeatTime := now\<rparr>"

lemma retried_eq:
  "\<lparr>WorkerID = arg_ID args, TaskID = TaskID t, NReduce = NReduce t, Phase = Phase t,
    Filename = Filename t, task_State = TaskStateSending, BeatTime = now\<rparr> = retried now args t"
  by (cases t) (simp add: retried_def)

lemma retried_sel [simp]:
  "TaskID (retried now args t) = TaskID t" "WorkerID (retried now args t) = arg_ID args"
  "Filename (retried now args t) = Filename t" "Phase (retried now args t) = Phase t"
  "NReduce (retried now args t) = NReduce t" "task_State (retried now args t) = TaskStateSending"
  by (simp_all add: retried_def)

lemma same_task_retried [simp]: "same_task t (retried now args t)"
  by (simp add: same_task_def)

lemma getRetry_cases:
  assumes "keyed m"
  obtains
    (none) "getRetry now ks args m = (m, None)"
      "\<And>k t. k \<in> set ks \<Longrightarrow> tasks m k = Some t \<Longrightarrow> task_State t \<noteq> TaskStateErr"
  | (retry) k t where "k \<in> set ks" "tasks m k = Some t" "task_State t = TaskStateErr"
      "getRetry now ks args m =
        (m\<lparr>tasks := (tasks m)(k \<mapsto> retried now args t)\<rparr>, Some (retried now args t))"
proof -
  have "(getRetry now ks args m = (m, None) \<and>
      (\<forall>k \<in> set ks. \<forall>t. tasks m k = Some t \<longrightarrow> task_State t \<noteq> TaskStateErr)) \<or>
    (\<exists>k \<in> set ks. \<exists>t. tasks m k = Some t \<and> task_State t = TaskStateErr \<and>
      getRetry now ks args m =
        (m\<lparr>tasks := (tasks m)(k \<mapsto> retried now args t)\<rparr>, Some (retried now args t)))"
    unfolding getRetry_def retried_eq
  proof (induction ks)
    case Nil
    then show ?case by simp
  next
    case (Cons k ks)
    show ?case
    proof (cases "\<exists>t. tasks m k = Some t \<and> task_State t = TaskStateErr")
      case True
      then obtain t where t: "tasks m k = Some t" "task_State t = TaskStateErr" by blast
      with assms have "TaskID t = k" by (simp add: keyed_def)
      with t show ?thesis
        by (intro disjI2 bexI [of _ k] exI [of _ t]) (simp_all add: Let_def fun_upd_def)
    next
      case False
      with Cons show ?thesis by (auto split: option.split)
    qed
  qed
  with that show thesis by blast
qed

lemma same_table_getRetry:
  assumes "keyed m"
  shows "same_table m (fst (getRetry now ks args m))"
  using assms
proof (cases rule: getRetry_cases [where now = now and ks = ks and args = args])
  case none
  then show ?thesis by simp
next
  case (retry k t)
  then show ?thesis by (auto intro!: same_table_store)
qed

section \<open>The watch over the heartbeats\<close>

definition stale :: "int \<Rightarrow> MRTask \<Rightarrow> bool" where
  "stale now t \<longleftrightarrow> now - BeatTime t > 10 * 1000000000"

definition mark :: "int \<Rightarrow> MRTask \<Rightarrow> MRTask" where
  "mark now t =
     (if stale now t \<and> task_State t \<noteq> TaskStateFinish
      then t\<lparr>task_State := TaskStateErr, BeatTime := now\<rparr> else t)"

lemma mark_sel [simp]:
  "TaskID (mark now t) = TaskID t" "WorkerID (mark now t) = WorkerID t"
  "Filename (mark now t) = Filename t" "Phase (mark now t) = Phase t"
  by (simp_all add: mark_def)

lemma stale_mark: "stale now (mark now t) \<Longrightarrow> stale now t"
  by (simp add: mark_def stale_def split: if_splits)

lemma mark_mark [simp]: "mark now (mark now t) = mark now t"
  by (simp add: mark_def stale_def)

text \<open>One call of the callback, on the task with number \<open>k\<close>.\<close>

definition watch :: "int \<Rightarrow> MRTask \<Rightarrow> Master \<Rightarrow> Master" where
  "watch now t m =
     (if stale now t
      then fst (DeRegWorker (WorkerID t)
             (m\<lparr>tasks := (tasks m)(TaskID t \<mapsto> mark now t)\<rparr>)) else m)"

lemma handleHeartbeat_Cons:
  assumes "keyed m"
  shows "handleHeartbeat now (k # ks) m =
     (case tasks m k of None \<Rightarrow> handleHeartbeat now ks m
      | Some t \<Rightarrow> handleHeartbeat now ks (watch now t m))"
proof (cases "tasks m k")
  case None
  then show ?thesis by (simp add: handleHeartbeat_def)
next
  case (Some t)
  with assms have k: "TaskID t = k" by (simp add: keyed_def)
  have upd: "fst (SetTaskState now \<lparr>arg_ID = k, arg_State = TaskStateErr\<rparr> m) =
      m\<lparr>tasks := (tasks m)(k \<mapsto> mark now t)\<rparr>" if "stale now t" "task_State t \<noteq> TaskStateFinish"
    using that Some k by (cases t) (simp add: SetTaskState_def Let_def mark_def)
  have same: "m\<lparr>tasks := (tasks m)(k \<mapsto> t)\<rparr> = m"
    using Some by (cases m) (simp add: fun_upd_idem)
  show ?thesis
    using Some upd same
    by (cases "task_State t = TaskStateFinish")
       (simp_all add: handleHeartbeat_def watch_def stale_def k Let_def case_prod_beta mark_def)
qed

lemma watch_tasks:
  assumes "keyed m" "tasks m k = Some t"
  shows "tasks (watch now t m) = (tasks m)(k \<mapsto> mark now t)"
  using assms
  by (auto simp: watch_def DeRegWorker_def putWorkerID_def keyed_def mark_def fun_upd_idem)

lemma watch_workerIDs:
  "set (workerIDs (watch now t m)) =
     set (workerIDs m) \<union> (if stale now t then {WorkerID t} else {})"
  by (auto simp: watch_def DeRegWorker_def putWorkerID_def)

lemma watch_keyed: "keyed m \<Longrightarrow> tasks m k = Some t \<Longrightarrow> keyed (watch now t m)"
  by (auto simp: keyed_def watch_tasks)

lemma handleHeartbeat_tasks:
  "keyed m \<Longrightarrow> tasks (handleHeartbeat now ks m) =
     (\<lambda>k. if k \<in> set ks then map_option (mark now) (tasks m k) else tasks m k)"
proof (induction ks arbitrary: m)
  case Nil
  then show ?case by (simp add: handleHeartbeat_def)
next
  case (Cons k ks)
  show ?case
  proof (cases "tasks m k")
    case None
    with Cons show ?thesis by (auto simp: handleHeartbeat_Cons)
  next
    case (Some t)
    with Cons watch_keyed [OF Cons.prems Some] show ?thesis
      by (auto simp: handleHeartbeat_Cons watch_tasks)
  qed
qed

lemma handleHeartbeat_workerIDs:
  "keyed m \<Longrightarrow> set (workerIDs (handleHeartbeat now ks m)) =
     set (workerIDs m) \<union>
     {WorkerID t |k t. k \<in> set ks \<and> tasks m k = Some t \<and> stale now t}"
proof (induction ks arbitrary: m)
  case Nil
  then show ?case by (simp add: handleHeartbeat_def)
next
  case (Cons k ks)
  show ?case
  proof (cases "tasks m k")
    case None
    with Cons show ?thesis by (auto simp: handleHeartbeat_Cons)
  next
    case (Some t)
    have "set (workerIDs (handleHeartbeat now ks (watch now t m))) =
        set (workerIDs (watch now t m)) \<union>
        {WorkerID u |j u. j \<in> set ks \<and> tasks (watch now t m) j = Some u \<and> stale now u}"
      using Cons watch_keyed [OF Cons.prems Some] by blast
    also have "\<dots> = set (workerIDs m) \<union>
        {WorkerID u |j u. j \<in> set (k # ks) \<and> tasks m j = Some u \<and> stale now u}" (is "?A \<union> ?B = _ \<union> ?C")
    proof -
      have "?C \<subseteq> ?A \<union> ?B"
      proof
        fix w assume "w \<in> ?C"
        then obtain j u where u: "j \<in> set (k # ks)" "tasks m j = Some u" "stale now u" "w = WorkerID u"
          by blast
        show "w \<in> ?A \<union> ?B"
        proof (cases "j = k")
          case True
          with u Some show ?thesis by (simp add: watch_workerIDs)
        next
          case False
          with u have "j \<in> set ks" "tasks (watch now t m) j = Some u"
            by (simp_all add: watch_tasks [OF Cons.prems Some])
          with u(3,4) show ?thesis by blast
        qed
      qed
      moreover have "?A \<subseteq> set (workerIDs m) \<union> ?C"
        using Some by (auto simp: watch_workerIDs)
      moreover have "set (workerIDs m) \<subseteq> ?A" by (simp add: watch_workerIDs)
      moreover have "?B \<subseteq> ?C"
        using Some
        by (auto simp: watch_tasks [OF Cons.prems Some] dest: stale_mark split: if_splits)
      ultimately show ?thesis by blast
    qed
    finally show ?thesis using Some Cons.prems by (simp add: handleHeartbeat_Cons)
  qed
qed

section \<open>Properties\<close>

definition sampleTask :: "32 word \<Rightarrow> 32 word \<Rightarrow> TaskState \<Rightarrow> int \<Rightarrow> MRTask" where
  "sampleTask w k st b =
     \<lparr>WorkerID = w, TaskID = k, NReduce = 1, Phase = MapPhase, Filename = ''a'',
      task_State = st, BeatTime = b\<rparr>"

definition sampleMaster :: "(32 word \<Rightarrow> MRTask option) \<Rightarrow> Master" where
  "sampleMaster T =
     \<lparr>mrPhase = MapPhase, m_done = False, workerIDs = [2, 3], taskSeq = 2, tasks = T,
      files = [''a''], reduceFiles = [], nReduce = 1, waitTaskTimeout = 300\<rparr>"

text \<open>
  C26: lost workers. A round of \<open>handleHeartbeat\<close> that visits the whole table marks exactly the unfinished tasks
  without a heartbeat in the last ten seconds for a retry, leaves the others alone, and
  puts back exactly the numbers of the workers of tasks (finished or not) without a recent heartbeat.
\<close>

theorem handleHeartbeat_correct:
  assumes "keyed m" "covers ks m"
  shows "tasks (handleHeartbeat now ks m) = (\<lambda>k. map_option (\<lambda>t.
       if now - BeatTime t > 10 * 1000000000 \<and> task_State t \<noteq> TaskStateFinish
       then t\<lparr>task_State := TaskStateErr, BeatTime := now\<rparr> else t) (tasks m k)) \<and>
     set (workerIDs (handleHeartbeat now ks m)) = set (workerIDs m) \<union>
       {WorkerID t |k t. tasks m k = Some t \<and> now - BeatTime t > 10 * 1000000000}"
proof
  have mk: "mark now = (\<lambda>t. if now - BeatTime t > 10 * 1000000000 \<and> task_State t \<noteq> TaskStateFinish
       then t\<lparr>task_State := TaskStateErr, BeatTime := now\<rparr> else t)"
    by (rule ext) (simp add: mark_def stale_def)
  have "k \<in> set ks \<or> tasks m k = None" for k using assms(2) by (auto simp: covers_def)
  then show "tasks (handleHeartbeat now ks m) = (\<lambda>k. map_option (\<lambda>t.
       if now - BeatTime t > 10 * 1000000000 \<and> task_State t \<noteq> TaskStateFinish
       then t\<lparr>task_State := TaskStateErr, BeatTime := now\<rparr> else t) (tasks m k))"
    unfolding handleHeartbeat_tasks [OF assms(1)] mk [symmetric]
    by (intro ext) (metis option.map_disc_iff)
  show "set (workerIDs (handleHeartbeat now ks m)) = set (workerIDs m) \<union>
       {WorkerID t |k t. tasks m k = Some t \<and> now - BeatTime t > 10 * 1000000000}"
    using assms by (auto simp: handleHeartbeat_workerIDs stale_def covers_def)
qed

theorem handleHeartbeat_correct_witness:
  "tasks (handleHeartbeat 20000000000 [1]
     (sampleMaster [1 \<mapsto> sampleTask 1 1 TaskStateRunning 0])) 1 =
   Some (sampleTask 1 1 TaskStateErr 20000000000)"
  using handleHeartbeat_correct [of "sampleMaster [1 \<mapsto> sampleTask 1 1 TaskStateRunning 0]" "[1]"
      20000000000]
  by (simp add: sampleMaster_def sampleTask_def keyed_def covers_def)

text \<open>
  A lost task is given out again. After such a round, the next \<open>GetTask\<close> gives the caller a task that is to be retried, under the caller's
  number, whenever some unfinished task has had no heartbeat for ten seconds; it does not touch the
  channel.
\<close>

theorem lost_task_retried:
  assumes "keyed m" "covers ks m" "tasks m k = Some t" "task_State t \<noteq> TaskStateFinish"
    and "now - BeatTime t > 10 * 1000000000"
  shows "\<exists>m' u. GetTask now ks recv args (handleHeartbeat now ks m) = (m', Some u) \<and>
     WorkerID u = arg_ID args \<and> task_State u = TaskStateSending \<and>
     tasks m' (TaskID u) = Some u \<and>
     (\<exists>v. tasks m (TaskID u) = Some v \<and> Filename v = Filename u \<and> Phase v = Phase u)"
proof -
  let ?m = "handleHeartbeat now ks m"
  have same: "same_table m ?m" by (rule same_table_handleHeartbeat)
  have keyed: "keyed ?m" using assms(1) same by (rule keyed_same)
  have k: "k \<in> set ks" using assms(2,3) by (auto simp: covers_def)
  have e: "tasks ?m k = Some (mark now t)" "task_State (mark now t) = TaskStateErr"
    using assms k by (simp_all add: handleHeartbeat_tasks mark_def stale_def)
  from keyed show ?thesis
  proof (cases rule: getRetry_cases [where now = now and ks = ks and args = args])
    case none
    with e k show ?thesis by blast
  next
    case (retry j u)
    with keyed have "TaskID u = j" by (simp add: keyed_def)
    moreover obtain v where "tasks m j = Some v" "same_task v u"
      using same_tableD(2) [OF same retry(2)] by blast
    ultimately show ?thesis
      using retry by (simp add: GetTask_def same_task_def)
  qed
qed

theorem lost_task_retried_witness:
  "\<exists>m' u. GetTask 20000000000 [1] None \<lparr>arg_ID = 2, arg_State = TaskStateQueue\<rparr>
      (handleHeartbeat 20000000000 [1] (sampleMaster [1 \<mapsto> sampleTask 1 1 TaskStateRunning 0]))
      = (m', Some u) \<and> WorkerID u = 2 \<and> TaskID u = 1 \<and> task_State u = TaskStateSending"
  using lost_task_retried [of "sampleMaster [1 \<mapsto> sampleTask 1 1 TaskStateRunning 0]" "[1]" 1
      "sampleTask 1 1 TaskStateRunning 0" 20000000000 None
      "\<lparr>arg_ID = 2, arg_State = TaskStateQueue\<rparr>"]
  by (fastforce simp: sampleMaster_def sampleTask_def keyed_def covers_def split: if_splits)

text \<open>
  A busy worker loses its number. Heartbeats are kept per task, and a finished task has no heartbeats any more. Ten seconds after it finished, the watch
  puts the number of its worker back, although that worker is alive and has just sent
  a heartbeat for another task: the number can be given to a second worker.
\<close>

theorem live_worker_deregistered:
  assumes "keyed m" "covers ks m"
    and "tasks m j = Some old" "task_State old = TaskStateFinish" "WorkerID old = w"
      "now - BeatTime old > 10 * 1000000000"
    and "tasks m k = Some cur" "task_State cur = TaskStateRunning" "WorkerID cur = w"
      "BeatTime cur = now"
  shows "w \<in> set (workerIDs (handleHeartbeat now ks m)) \<and>
     tasks (handleHeartbeat now ks m) k = Some cur"
proof -
  have "j \<in> set ks" "k \<in> set ks" using assms(2,3,7) by (auto simp: covers_def)
  with assms show ?thesis
    by (auto simp: handleHeartbeat_workerIDs handleHeartbeat_tasks stale_def mark_def)
qed

theorem live_worker_deregistered_witness:
  "1 \<in> set (workerIDs (handleHeartbeat 20000000000 [1, 2]
     (sampleMaster [1 \<mapsto> sampleTask 1 1 TaskStateFinish 0,
                    2 \<mapsto> sampleTask 1 2 TaskStateRunning 20000000000])))"
  using live_worker_deregistered [of "sampleMaster [1 \<mapsto> sampleTask 1 1 TaskStateFinish 0,
                    2 \<mapsto> sampleTask 1 2 TaskStateRunning 20000000000]" "[1, 2]" 1
      "sampleTask 1 1 TaskStateFinish 0" 1 20000000000 2
      "sampleTask 1 2 TaskStateRunning 20000000000"]
  by (simp add: sampleMaster_def sampleTask_def keyed_def covers_def)

text \<open>
  A heartbeat can undo a finished task. \<open>WorkerHeartBeat\<close> stores the task it has loaded. If the worker's report that the task is finished arrives
  between the two, it is overwritten: the table holds the old state, as if the report had not come.
\<close>

theorem heartbeat_loses_report:
  assumes "tasks m k = Some t" "heartBeatLoad k m = Some v"
  shows "tasks (heartBeatStore now k v
      (fst (SetTaskState now' \<lparr>arg_ID = k, arg_State = TaskStateFinish\<rparr> m))) k =
    Some (t\<lparr>BeatTime := now\<rparr>)"
  using assms by (simp add: heartBeatLoad_def heartBeatStore_def)

theorem heartbeat_loses_report_witness:
  "tasks (heartBeatStore 5 1 (sampleTask 1 1 TaskStateRunning 0)
      (fst (SetTaskState 4 \<lparr>arg_ID = 1, arg_State = TaskStateFinish\<rparr>
        (sampleMaster [1 \<mapsto> sampleTask 1 1 TaskStateRunning 0])))) 1 =
    Some (sampleTask 1 1 TaskStateRunning 5)"
  using heartbeat_loses_report [of "sampleMaster [1 \<mapsto> sampleTask 1 1 TaskStateRunning 0]" 1
      "sampleTask 1 1 TaskStateRunning 0" "sampleTask 1 1 TaskStateRunning 0" 5 4]
  by (simp add: sampleMaster_def sampleTask_def heartBeatLoad_def)

text \<open>
  Workers leave too early. Once the channel is closed, \<open>GetTask\<close> answers a worker without a task as soon as none is to be retried at that
  moment, and the worker ends; tasks that are still being worked on may fail later and then find no
  worker.
\<close>

theorem workers_dismissed_early:
  assumes "keyed m" "\<And>k t. tasks m k = Some t \<Longrightarrow> task_State t \<noteq> TaskStateErr"
  shows "GetTask now ks None args m = (m, None)"
  using assms(1)
proof (cases rule: getRetry_cases [where now = now and ks = ks and args = args])
  case none
  then show ?thesis by (simp add: GetTask_def)
next
  case (retry k t)
  with assms(2) show ?thesis by blast
qed

theorem workers_dismissed_early_witness:
  "GetTask 0 [1] None \<lparr>arg_ID = 2, arg_State = TaskStateQueue\<rparr>
     (sampleMaster [1 \<mapsto> sampleTask 1 1 TaskStateRunning 0]) =
   (sampleMaster [1 \<mapsto> sampleTask 1 1 TaskStateRunning 0], None)"
proof (rule workers_dismissed_early)
  show "keyed (sampleMaster [1 \<mapsto> sampleTask 1 1 TaskStateRunning 0])"
    by (simp add: keyed_def sampleMaster_def sampleTask_def)
qed (auto simp: sampleMaster_def sampleTask_def split: if_splits)

end
