(* ===== verification/MR_Worker.thy ===== *)
theory MR_Worker
  imports MR_Master "HOL-Library.AList" "HOL-Library.Multiset"
begin

text \<open>
  \<open>mr/worker.go\<close>: what a worker does with a task. The application's functions \<open>mapf\<close> and
  \<open>reducef\<close>, which a plugin supplies, are arguments; they may panic. So are \<open>srt\<close>, which stands for
  \<open>sort.Sort(ByKey(...))\<close> (it is not stable, so only its specification is
  relied on), and the JSON encoder and decoder \<open>enc\<close> and \<open>dec\<close>. The disk is the list of files
  of the working directory with their contents; \<open>OS\<close> says which files cannot be read, created or
  written.
\<close>

section \<open>Files\<close>

record KeyValue =
  Key :: string
  Value :: string

type_synonym disk = "(string \<times> string) list"

record OS =
  readOk :: "string \<Rightarrow> bool"
  createOk :: "string \<Rightarrow> bool"
  writeOk :: "string \<Rightarrow> bool"

text \<open>The worker's view: the disk, and the calls of \<open>SetTaskState\<close> it has made.\<close>

record WState =
  w_disk :: disk
  reports :: "(32 word \<times> TaskState) list"

definition setTaskState :: "32 word \<Rightarrow> TaskState \<Rightarrow> WState \<Rightarrow> WState" where
  "setTaskState taskID state w = w\<lparr>reports := reports w @ [(taskID, state)]\<rparr>"

definition readFile :: "OS \<Rightarrow> string \<Rightarrow> WState \<Rightarrow> string option" where
  "readFile os name w = (if readOk os name then map_of (w_disk w) name else None)"

definition putFile :: "string \<Rightarrow> string \<Rightarrow> WState \<Rightarrow> WState" where
  "putFile name content w = w\<lparr>w_disk := AList.update name content (w_disk w)\<rparr>"

text \<open>
  \<open>filepath.Glob\<close> in the working directory: the matching names in order. A pattern with a
  character class or an escape, which the master never sends, counts as malformed.
\<close>

definition Glob :: "string \<Rightarrow> WState \<Rightarrow> string list option" where
  "Glob pat w =
     (if CHR ''['' \<in> set pat \<or> CHR 0x5C \<in> set pat then None
      else Some (sort (filter (matchName pat) (map fst (w_disk w)))))"

section \<open>Map tasks\<close>

fun distribute :: "int \<Rightarrow> KeyValue list \<Rightarrow> KeyValue list list \<Rightarrow> KeyValue list list res" where
  "distribute n [] reduces = Inr reduces"
| "distribute n (kv # kvs) reduces =
     rbind (go_rem (ihash (Key kv)) n) (\<lambda>idx.
     rbind (go_index reduces idx) (\<lambda>b.
     rbind (go_update reduces idx (b @ [kv])) (distribute n kvs)))"

fun writeBuckets :: "OS \<Rightarrow> (KeyValue list \<Rightarrow> string) \<Rightarrow> MRTask \<Rightarrow> nat \<Rightarrow> KeyValue list list
    \<Rightarrow> string list \<Rightarrow> WState \<Rightarrow> WState \<times> string list \<times> string option" where
  "writeBuckets os enc t idx [] reduceNames w = (w, reduceNames, None)"
| "writeBuckets os enc t idx (kvss # rest) reduceNames w =
     (let reduceName = bucketName (TaskID t) idx;
          reduceNames = reduceNames @ [reduceName] in
      if \<not> createOk os reduceName
      then (setTaskState (TaskID t) TaskStateErr w, reduceNames, Some ''create'')
      else let w = putFile reduceName [] w in
           if \<not> writeOk os reduceName
           then (setTaskState (TaskID t) TaskStateErr w, reduceNames, Some ''encode'')
           else writeBuckets os enc t (idx + 1) rest reduceNames (putFile reduceName (enc kvss) w))"

text \<open>
  \<open>doMap\<close>. A panic (in \<open>make\<close>, in the application, in the remainder) happens before anything is
  written; the deferred function reports the error and the call returns its zero results, that is,
  no error.
\<close>

definition doMap :: "OS \<Rightarrow> (KeyValue list \<Rightarrow> KeyValue list) \<Rightarrow> (KeyValue list \<Rightarrow> string)
    \<Rightarrow> (string \<Rightarrow> string \<Rightarrow> KeyValue list res) \<Rightarrow> MRTask \<Rightarrow> WState
    \<Rightarrow> WState \<times> string list \<times> string option" where
  "doMap os srt enc mapf t w =
     (case rbind (go_make (NReduce t) []) (\<lambda>reduces.
             case readFile os (Filename t) w of
               None \<Rightarrow> Inr None
             | Some content \<Rightarrow>
                 rbind (mapf (Filename t) content) (\<lambda>kvs.
                 rbind (distribute (NReduce t) (srt kvs) reduces) (\<lambda>reduces.
                   Inr (Some reduces)))) of
        Inl panic \<Rightarrow> (setTaskState (TaskID t) TaskStateErr w, [], None)
      | Inr None \<Rightarrow> (setTaskState (TaskID t) TaskStateErr w, [], Some ''read'')
      | Inr (Some reduces) \<Rightarrow> writeBuckets os enc t 0 reduces [] w)"

section \<open>Reduce tasks\<close>

text \<open>
  Reading the intermediate files: a file that cannot be opened ends the task with an error
  (\<open>None\<close>), one that cannot be decoded ends the loop.
\<close>

fun readBuckets :: "OS \<Rightarrow> (string \<Rightarrow> KeyValue list option) \<Rightarrow> WState \<Rightarrow> string list
    \<Rightarrow> KeyValue list \<Rightarrow> KeyValue list option" where
  "readBuckets os dec w [] intermediate = Some intermediate"
| "readBuckets os dec w (filename # fs) intermediate =
     (case readFile os filename w of
        None \<Rightarrow> None
      | Some content \<Rightarrow>
          (case dec content of
             None \<Rightarrow> Some intermediate
           | Some kvs \<Rightarrow> readBuckets os dec w fs (intermediate @ kvs)))"

text \<open>The loop over the sorted pairs. The inner loop finds the end \<open>j\<close> of the group that starts at \<open>i\<close>.\<close>

function groupEnd :: "KeyValue list \<Rightarrow> nat \<Rightarrow> nat \<Rightarrow> nat" where
  "groupEnd kvs i j =
     (if j < length kvs \<and> Key (kvs ! j) = Key (kvs ! i) then groupEnd kvs i (j + 1) else j)"
  by pat_completeness auto
termination by (relation "measure (\<lambda>(kvs, i, j). length kvs - j)") auto

declare groupEnd.simps [simp del]

lemma groupEnd_ge: "j \<le> groupEnd kvs i j"
proof (induction kvs i j rule: groupEnd.induct)
  case (1 kvs i j)
  then show ?case by (subst groupEnd.simps) auto
qed

definition outputLine :: "string \<Rightarrow> string \<Rightarrow> string" where
  "outputLine key output = key @ '' '' @ output @ [CHR 0x0A]"

text \<open>The lines written so far are accumulated; the flag says that \<open>reducef\<close> has panicked.\<close>

function reduceLoop :: "(string \<Rightarrow> string list \<Rightarrow> string res) \<Rightarrow> KeyValue list \<Rightarrow> nat
    \<Rightarrow> string list \<Rightarrow> string list \<times> bool" where
  "reduceLoop reducef kvs i out =
     (if i < length kvs
      then let j = groupEnd kvs i (i + 1);
               vals = map (\<lambda>k. Value (kvs ! k)) [i..<j]
           in case reducef (Key (kvs ! i)) vals of
                Inl panic \<Rightarrow> (out, True)
              | Inr output \<Rightarrow> reduceLoop reducef kvs j (out @ [outputLine (Key (kvs ! i)) output])
      else (out, False))"
  by pat_completeness auto
termination
proof (relation "measure (\<lambda>(f, kvs, i, out). length kvs - i)")
  fix reducef :: "string \<Rightarrow> string list \<Rightarrow> string res" and kvs i out j vals r
  assume "i < length kvs" "j = groupEnd kvs i (i + 1)"
  then show "((reducef, kvs, j, out @ [outputLine (Key (kvs ! i)) r]), reducef, kvs, i, out)
      \<in> measure (\<lambda>(f, kvs, i, out). length kvs - i)"
    using groupEnd_ge [of "i + 1" kvs i] by simp
qed simp

declare reduceLoop.simps [simp del]

definition doReduce :: "OS \<Rightarrow> (KeyValue list \<Rightarrow> KeyValue list) \<Rightarrow> (string \<Rightarrow> KeyValue list option)
    \<Rightarrow> (string \<Rightarrow> string list \<Rightarrow> string res) \<Rightarrow> MRTask \<Rightarrow> WState \<Rightarrow> WState \<times> string option" where
  "doReduce os srt dec reducef t w =
     (let idx = last (splitOn (CHR ''-'') (Filename t)) in
      case Glob (Filename t) w of
        None \<Rightarrow> (setTaskState (TaskID t) TaskStateErr w, Some ''glob'')
      | Some fs \<Rightarrow>
          (case readBuckets os dec w fs [] of
             None \<Rightarrow> (setTaskState (TaskID t) TaskStateErr w, Some ''open'')
           | Some intermediate \<Rightarrow>
               (let intermediate = srt intermediate;
                    oName = ''mr-out.'' @ idx;
                    (out, panicked) = reduceLoop reducef intermediate 0 [];
                    w = (if createOk os oName
                         then putFile oName (if writeOk os oName then concat out else []) w
                         else w)
                in (if panicked then setTaskState (TaskID t) TaskStateErr w else w, None))))"

section \<open>The worker's loop\<close>

text \<open>
  One iteration of \<open>Worker\<close>, for a task that \<open>GetTask\<close> has returned: the flag says whether the
  process goes on (\<open>log.Fatalf\<close> ends it).
\<close>

definition workOn :: "OS \<Rightarrow> (KeyValue list \<Rightarrow> KeyValue list) \<Rightarrow> (KeyValue list \<Rightarrow> string)
    \<Rightarrow> (string \<Rightarrow> KeyValue list option) \<Rightarrow> (string \<Rightarrow> string \<Rightarrow> KeyValue list res)
    \<Rightarrow> (string \<Rightarrow> string list \<Rightarrow> string res) \<Rightarrow> MRTask \<Rightarrow> WState \<Rightarrow> WState \<times> bool" where
  "workOn os srt enc dec mapf reducef task w =
     (let w = setTaskState (TaskID task) TaskStateRunning w;
          (w, err) = (case Phase task of
                        MapPhase \<Rightarrow>
                          (case doMap os srt enc mapf task w of (w, names, err) \<Rightarrow> (w, err))
                      | ReducePhase \<Rightarrow> doReduce os srt dec reducef task w)
      in if err \<noteq> None then (setTaskState (TaskID task) TaskStateErr w, False)
         else (setTaskState (TaskID task) TaskStateFinish w, True))"

section \<open>Grouping\<close>

definition valuesOf :: "string \<Rightarrow> KeyValue list \<Rightarrow> string list" where
  "valuesOf k kvs = map Value (filter (\<lambda>kv. Key kv = k) kvs)"

lemma groupEnd_eq:
  assumes "j \<le> length kvs"
  shows "groupEnd kvs i j = j + length (takeWhile (\<lambda>x. Key x = Key (kvs ! i)) (drop j kvs))"
  using assms
proof (induction kvs i j rule: groupEnd.induct)
  case (1 kvs i j)
  show ?case
  proof (cases "j < length kvs \<and> Key (kvs ! j) = Key (kvs ! i)")
    case True
    then have "drop j kvs = kvs ! j # drop (Suc j) kvs" by (simp add: Cons_nth_drop_Suc)
    with True 1 show ?thesis by (subst groupEnd.simps) simp
  next
    case False
    then have "takeWhile (\<lambda>x. Key x = Key (kvs ! i)) (drop j kvs) = []"
      by (cases "j < length kvs") (auto simp flip: Cons_nth_drop_Suc)
    with False show ?thesis by (subst groupEnd.simps) auto
  qed
qed

lemma map_Value_range:
  assumes "j \<le> length kvs" "i \<le> j"
  shows "map (\<lambda>k. Value (kvs ! k)) [i..<j] = map Value (take (j - i) (drop i kvs))"
  using assms by (intro nth_equalityI) auto

lemma sorted_group_end:
  "sorted (map Key (x # ys)) \<Longrightarrow> z \<in> set (dropWhile (\<lambda>y. Key y = Key x) ys) \<Longrightarrow> Key z \<noteq> Key x"
proof (induction ys)
  case Nil
  then show ?case by simp
next
  case (Cons y ys)
  show ?case
  proof (cases "Key y = Key x")
    case True
    with Cons show ?thesis by simp
  next
    case False
    with Cons.prems have "Key x < Key y" "Key y \<le> Key z" by auto
    then show ?thesis by auto
  qed
qed

lemma sorted_group:
  assumes "sorted (map Key (x # ys))"
  shows "filter (\<lambda>y. Key y = Key x) ys = takeWhile (\<lambda>y. Key y = Key x) ys"
proof -
  let ?same = "\<lambda>y. Key y = Key x"
  have "filter ?same ys = filter ?same (takeWhile ?same ys) @ filter ?same (dropWhile ?same ys)"
    by (simp flip: filter_append)
  also have "filter ?same (dropWhile ?same ys) = []"
    unfolding filter_empty_conv using sorted_group_end [OF assms] by blast
  also have "filter ?same (takeWhile ?same ys) = takeWhile ?same ys"
    by (rule filter_True) (blast dest: set_takeWhileD)
  finally show ?thesis by simp
qed

lemma valuesOf_Cons_group:
  assumes "sorted (map Key (x # ys))"
  shows "valuesOf (Key x) (x # ys) = map Value (x # takeWhile (\<lambda>y. Key y = Key x) ys)"
    and "k \<in> Key ` set (dropWhile (\<lambda>y. Key y = Key x) ys) \<Longrightarrow>
      valuesOf k (x # ys) = valuesOf k (dropWhile (\<lambda>y. Key y = Key x) ys)"
proof -
  show "valuesOf (Key x) (x # ys) = map Value (x # takeWhile (\<lambda>y. Key y = Key x) ys)"
    using sorted_group [OF assms] by (simp add: valuesOf_def)
  assume k: "k \<in> Key ` set (dropWhile (\<lambda>y. Key y = Key x) ys)"
  then obtain z where "z \<in> set (dropWhile (\<lambda>y. Key y = Key x) ys)" 
    and kz: "k = Key z" by blast
  then have "Key z \<noteq> Key x" by (intro sorted_group_end [OF assms])
  with kz have ne: "k \<noteq> Key x" by simp
  have "filter (\<lambda>kv. Key kv = k) ys =
      filter (\<lambda>kv. Key kv = k) (takeWhile (\<lambda>y. Key y = Key x) ys) @
      filter (\<lambda>kv. Key kv = k) (dropWhile (\<lambda>y. Key y = Key x) ys)"
    by (simp flip: filter_append)
  moreover have "filter (\<lambda>kv. Key kv = k) (takeWhile (\<lambda>y. Key y = Key x) ys) = []"
    using ne by (auto simp: filter_empty_conv dest: set_takeWhileD)
  ultimately show "valuesOf k (x # ys) = valuesOf k (dropWhile (\<lambda>y. Key y = Key x) ys)"
    using ne by (simp add: valuesOf_def)
qed

lemma reduceLoop_sorted:
  assumes "sorted (map Key (drop i kvs))" "\<And>k vs. reducef k vs = Inr (g k vs)"
  shows "reduceLoop reducef kvs i out =
     (out @ map (\<lambda>k. outputLine k (g k (valuesOf k (drop i kvs)))) (remdups_adj (map Key (drop i kvs))),
      False)"
  using assms(1)
proof (induction "length kvs - i" arbitrary: i out rule: less_induct)
  case less
  show ?case
  proof (cases "i < length kvs")
    case False
    then show ?thesis by (subst reduceLoop.simps) simp
  next
    case True
    define x ys where xy: "x = kvs ! i" "ys = drop (Suc i) kvs"
    let ?same = "\<lambda>y. Key y = Key x"
    define j where "j = groupEnd kvs i (i + 1)"
    have d: "drop i kvs = x # ys" using True by (simp add: xy Cons_nth_drop_Suc)
    have so: "sorted (map Key (x # ys))" using less.prems d by simp
    have j: "j = Suc i + length (takeWhile ?same ys)"
      using True by (simp add: j_def groupEnd_eq xy)
    have jl: "j \<le> length kvs" "i < j"
      using True length_takeWhile_le [of ?same ys] by (simp_all add: j xy)
    have dj: "drop j kvs = dropWhile ?same ys"
      unfolding dropWhile_eq_drop by (simp add: j xy add.commute)
    have "take (j - i) (x # ys) = x # takeWhile ?same ys"
      by (simp add: j takeWhile_eq_take [symmetric] Suc_diff_le)
    then have v: "map (\<lambda>k. Value (kvs ! k)) [i..<j] = valuesOf (Key x) (x # ys)"
      using jl d by (simp add: map_Value_range valuesOf_Cons_group(1) [OF so])
    have sj: "sorted (map Key (drop j kvs))"
      using less.prems jl by (metis drop_map le_add_diff_inverse2 less_imp_le sorted_wrt_drop drop_drop)
    have vk: "valuesOf k (x # ys) = valuesOf k (drop j kvs)" if "k \<in> set (map Key (drop j kvs))" for k
      using valuesOf_Cons_group(2) [OF so] that by (simp add: dj)
    have "reduceLoop reducef kvs i out =
        reduceLoop reducef kvs j (out @ [outputLine (Key x) (g (Key x) (valuesOf (Key x) (x # ys)))])"
      using True v by (subst reduceLoop.simps) (simp add: assms(2) Let_def xy(1) j_def)
    also have "\<dots> = (out @ [outputLine (Key x) (g (Key x) (valuesOf (Key x) (x # ys)))] @
        map (\<lambda>k. outputLine k (g k (valuesOf k (drop j kvs)))) (remdups_adj (map Key (drop j kvs))),
        False)"
      using less.hyps [OF _ sj] True jl by simp
    also have "map (\<lambda>k. outputLine k (g k (valuesOf k (drop j kvs)))) (remdups_adj (map Key (drop j kvs)))
        = map (\<lambda>k. outputLine k (g k (valuesOf k (x # ys)))) (remdups_adj (map Key (drop j kvs)))"
      by (rule map_cong) (simp_all add: vk)
    finally show ?thesis
      unfolding d by (simp add: remdups_adj_Cons' dropWhile_map o_def dj)
  qed
qed

section \<open>What the tasks leave on disk\<close>

definition good_os :: "OS \<Rightarrow> bool" where
  "good_os os \<longleftrightarrow> (\<forall>name. readOk os name \<and> createOk os name \<and> writeOk os name)"

definition bucket :: "int \<Rightarrow> KeyValue list \<Rightarrow> nat \<Rightarrow> KeyValue list" where
  "bucket n kvs i = filter (\<lambda>kv. ihash (Key kv) mod n = int i) kvs"

lemma distribute_buckets:
  assumes "0 < n" "length reduces = nat n"
  shows "distribute n kvs reduces = Inr (map (\<lambda>i. reduces ! i @ bucket n kvs i) [0..<nat n])"
  using assms(2)
proof (induction kvs arbitrary: reduces)
  case Nil
  then have "map ((!) reduces) [0..<nat n] = reduces" using map_nth [of reduces] by simp
  then show ?case by (simp add: bucket_def)
next
  case (Cons kv kvs)
  let ?h = "ihash (Key kv) mod n"
  have h: "0 \<le> ?h" "?h < n" using assms(1) by simp_all
  have "distribute n (kv # kvs) reduces =
      distribute n kvs (reduces[nat ?h := reduces ! nat ?h @ [kv]])"
    using assms(1) Cons.prems h ihash_bounds(1) [of "Key kv"]
    by (simp add: go_rem_nonneg go_index_def go_update_def)
  also have "\<dots> = Inr (map (\<lambda>i. reduces[nat ?h := reduces ! nat ?h @ [kv]] ! i @ bucket n kvs i) [0..<nat n])"
    using Cons by simp
  also have "map (\<lambda>i. reduces[nat ?h := reduces ! nat ?h @ [kv]] ! i @ bucket n kvs i) [0..<nat n]
      = map (\<lambda>i. reduces ! i @ bucket n (kv # kvs) i) [0..<nat n]"
    using Cons.prems h by (intro map_cong) (auto simp: bucket_def nth_list_update)
  finally show ?case .
qed

text \<open>Files: a write changes one name, and no name occurs twice in the directory.\<close>

definition disk_ok :: "WState \<Rightarrow> bool" where
  "disk_ok w \<longleftrightarrow> distinct (map fst (w_disk w))"

lemma putFile_lookup: "map_of (w_disk (putFile n c w)) = (map_of (w_disk w))(n \<mapsto> c)"
  by (simp add: putFile_def update_conv')

lemma putFile_ok [simp]: "disk_ok w \<Longrightarrow> disk_ok (putFile n c w)"
  by (simp add: disk_ok_def putFile_def distinct_update)

lemma putFile_reports [simp]: "reports (putFile n c w) = reports w"
  by (simp add: putFile_def)

lemma setTaskState_sel [simp]:
  "w_disk (setTaskState k st w) = w_disk w" "reports (setTaskState k st w) = reports w @ [(k, st)]"
  "disk_ok (setTaskState k st w) = disk_ok w"
  by (simp_all add: setTaskState_def disk_ok_def)

lemma files_report [simp]:
  "readFile os f (setTaskState k st w) = readFile os f w"
  "Glob pat (setTaskState k st w) = Glob pat w"
  by (simp_all add: readFile_def Glob_def)

lemma writeBuckets_ok:
  assumes "good_os os"
  shows "\<exists>w' ns. writeBuckets os enc t idx bs names w = (w', ns, None) \<and>
     reports w' = reports w \<and> (disk_ok w \<longrightarrow> disk_ok w') \<and>
     (\<forall>i < length bs. map_of (w_disk w') (bucketName (TaskID t) (idx + i)) = Some (enc (bs ! i))) \<and>
     (\<forall>name. (\<forall>i < length bs. name \<noteq> bucketName (TaskID t) (idx + i)) \<longrightarrow>
        map_of (w_disk w') name = map_of (w_disk w) name)"
proof (induction bs arbitrary: idx names w)
  case Nil
  then show ?case by simp
next
  case (Cons b bs)
  let ?n = "bucketName (TaskID t) idx"
  let ?w = "putFile ?n (enc b) (putFile ?n [] w)"
  obtain w' ns where w': "writeBuckets os enc t (idx + 1) bs (names @ [?n]) ?w = (w', ns, None)"
    "reports w' = reports ?w" "disk_ok ?w \<longrightarrow> disk_ok w'"
    "\<forall>i < length bs. map_of (w_disk w') (bucketName (TaskID t) (idx + 1 + i)) = Some (enc (bs ! i))"
    "\<forall>name. (\<forall>i < length bs. name \<noteq> bucketName (TaskID t) (idx + 1 + i)) \<longrightarrow>
        map_of (w_disk w') name = map_of (w_disk ?w) name"
    using Cons.IH [of "idx + 1" "names @ [?n]" ?w] by blast
  have run: "writeBuckets os enc t idx (b # bs) names w = (w', ns, None)"
    using assms w'(1) by (simp add: good_os_def Let_def)
  have new: "map_of (w_disk w') (bucketName (TaskID t) (idx + i)) = Some (enc ((b # bs) ! i))"
    if "i < length (b # bs)" for i
  proof (cases i)
    case 0
    then show ?thesis using w'(5) by (simp add: putFile_lookup)
  next
    case (Suc j)
    then show ?thesis using w'(4) that by simp
  qed
  have old: "map_of (w_disk w') name = map_of (w_disk w) name"
    if "\<forall>i < length (b # bs). name \<noteq> bucketName (TaskID t) (idx + i)" for name
  proof -
    have "name \<noteq> ?n" "\<forall>i < length bs. name \<noteq> bucketName (TaskID t) (idx + 1 + i)"
      using that by force+
    then show ?thesis using w'(5) by (simp add: putFile_lookup)
  qed
  have "reports w' = reports w" "disk_ok w \<longrightarrow> disk_ok w'" using w'(2,3) by simp_all
  with run new old show ?case by blast
qed

lemma doMap_ok:
  assumes "good_os os" "0 < NReduce t" "map_of (w_disk w) (Filename t) = Some content"
    and "mapf (Filename t) content = Inr kvs"
  shows "\<exists>w' ns. doMap os srt enc mapf t w = (w', ns, None) \<and>
     reports w' = reports w \<and> (disk_ok w \<longrightarrow> disk_ok w') \<and>
     (\<forall>i < nat (NReduce t). map_of (w_disk w') (bucketName (TaskID t) i) =
        Some (enc (bucket (NReduce t) (srt kvs) i))) \<and>
     (\<forall>name. (\<forall>i < nat (NReduce t). name \<noteq> bucketName (TaskID t) i) \<longrightarrow>
        map_of (w_disk w') name = map_of (w_disk w) name)"
proof -
  let ?bs = "map (bucket (NReduce t) (srt kvs)) [0..<nat (NReduce t)]"
  have "distribute (NReduce t) (srt kvs) (replicate (nat (NReduce t)) []) = Inr ?bs"
    using distribute_buckets [OF assms(2), of "replicate (nat (NReduce t)) []" "srt kvs"] by simp
  then have "doMap os srt enc mapf t w = writeBuckets os enc t 0 ?bs [] w"
    using assms by (simp add: doMap_def go_make_def readFile_def good_os_def)
  with writeBuckets_ok [OF assms(1), of enc t 0 ?bs "[]" w] show ?thesis by simp
qed

lemma readBuckets_ok:
  assumes "good_os os"
    and "\<And>f. f \<in> set fs \<Longrightarrow> \<exists>c. map_of (w_disk w) f = Some c \<and> dec c = Some (out f)"
  shows "readBuckets os dec w fs acc = Some (acc @ concat (map out fs))"
  using assms(2)
proof (induction fs arbitrary: acc)
  case Nil
  then show ?case by simp
next
  case (Cons f fs)
  then obtain c where "map_of (w_disk w) f = Some c" "dec c = Some (out f)" by auto
  with assms(1) Cons show ?case by (simp add: readFile_def good_os_def)
qed

text \<open>The intermediate files of reduce task \<open>i\<close>, in the order of \<open>Glob\<close>.\<close>

lemma Glob_pattern:
  "Glob (reducePattern i) w = Some (sort (filter (matchName (reducePattern i)) (map fst (w_disk w))))"
  by (auto simp: Glob_def reducePattern_def)

lemma idx_of_pattern: "last (splitOn (CHR ''-'') (reducePattern i)) = itoa i"
proof -
  have "reducePattern i = ''mr-*'' @ CHR ''-'' # itoa i" by (simp add: reducePattern_def)
  then show ?thesis by (simp only: last_splitOn itoa_no_special not_False_eq_True)
qed

lemma out_name_no_match: "\<not> matchName (reducePattern i) (''mr-out.'' @ itoa j)"
proof
  assume "matchName (reducePattern i) (''mr-out.'' @ itoa j)"
  then obtain u where "''mr-out.'' @ itoa j = ''mr-'' @ u @ CHR ''-'' # itoa i"
    by (auto simp: matchName_reducePattern)
  then have "''out.'' @ itoa j = u @ CHR ''-'' # itoa i" by simp
  then have "CHR ''-'' \<in> set (''out.'' @ itoa j)" by simp
  then show False by simp
qed

lemma out_name_no_bucket: "''mr-out.'' @ itoa j \<noteq> bucketName k i"
  using out_name_no_match [of i j] matchName_bucket [of i k i] by metis

lemma doReduce_ok:
  assumes "good_os os" "Filename t = reducePattern i"
    and "sort (filter (matchName (reducePattern i)) (map fst (w_disk w))) = fs"
    and "\<And>f. f \<in> set fs \<Longrightarrow> \<exists>c. map_of (w_disk w) f = Some c \<and> dec c = Some (out f)"
    and "sorted (map Key (srt (concat (map out fs))))" "\<And>k vs. reducef k vs = Inr (g k vs)"
  shows "doReduce os srt dec reducef t w =
     (putFile (''mr-out.'' @ itoa i)
        (concat (map (\<lambda>k. outputLine k (g k (valuesOf k (srt (concat (map out fs))))))
                   (remdups_adj (map Key (srt (concat (map out fs))))))) w, None)"
proof -
  have "readBuckets os dec w fs [] = Some (concat (map out fs))"
    using readBuckets_ok [OF assms(1,4)] by simp
  moreover have "reduceLoop reducef (srt (concat (map out fs))) 0 [] =
      (map (\<lambda>k. outputLine k (g k (valuesOf k (srt (concat (map out fs))))))
                   (remdups_adj (map Key (srt (concat (map out fs))))), False)"
    using reduceLoop_sorted [of 0 "srt (concat (map out fs))" reducef g "[]"] assms(5,6) by simp
  ultimately show ?thesis
    using assms(1)
    by (simp add: doReduce_def assms(2) Glob_pattern assms(3) idx_of_pattern Let_def good_os_def)
qed

section \<open>Properties\<close>

text \<open>
  The hash chooses an existing bucket. For a positive number of reduce tasks, the loop that deals out the pairs does not panic, and bucket
  \<open>i\<close> receives, in order, exactly the pairs whose hash leaves the remainder \<open>i\<close>; so a pair is in one bucket and
  equal keys are in the same.
\<close>

theorem distribute_by_hash:
  assumes "0 < n"
  shows "distribute n kvs (replicate (nat n) []) =
    Inr (map (\<lambda>i. filter (\<lambda>kv. ihash (Key kv) mod n = int i) kvs) [0..<nat n])"
  using distribute_buckets [OF assms, of "replicate (nat n) []" kvs] by (simp add: bucket_def)

theorem distribute_by_hash_witness:
  "distribute 2 [\<lparr>Key = ''a'', Value = ''1''\<rparr>] [[], []] = Inr [[\<lparr>Key = ''a'', Value = ''1''\<rparr>], []]"
proof -
  have h: "ihash ''a'' = 1678518572" by code_simp
  show ?thesis
    using distribute_by_hash [of 2 "[\<lparr>Key = ''a'', Value = ''1''\<rparr>]"]
    by (simp add: h numeral_2_eq_2)
qed

text \<open>
  Grouping. On pairs sorted by key, the nested loops of \<open>doReduce\<close> (and of \<open>mrsequential\<close>) call \<open>reducef\<close> once for each distinct
  key, in order, with all values of that key in the order of the pairs, and write one line for each.
\<close>

theorem reduceLoop_groups:
  assumes "sorted (map Key kvs)" "\<And>k vs. reducef k vs = Inr (g k vs)"
  shows "reduceLoop reducef kvs 0 [] =
    (map (\<lambda>k. outputLine k (g k (map Value (filter (\<lambda>kv. Key kv = k) kvs))))
       (remdups_adj (map Key kvs)), False)"
  using reduceLoop_sorted [of 0 kvs reducef g "[]"] assms by (simp add: valuesOf_def)

theorem reduceLoop_groups_witness:
  "reduceLoop (\<lambda>k vs. Inr (concat vs))
     [\<lparr>Key = ''a'', Value = ''1''\<rparr>, \<lparr>Key = ''a'', Value = ''2''\<rparr>, \<lparr>Key = ''b'', Value = ''3''\<rparr>] 0 [] =
   ([outputLine ''a'' ''12'', outputLine ''b'' ''3''], False)"
  using reduceLoop_groups [of "[\<lparr>Key = ''a'', Value = ''1''\<rparr>, \<lparr>Key = ''a'', Value = ''2''\<rparr>,
      \<lparr>Key = ''b'', Value = ''3''\<rparr>]" "\<lambda>k vs. Inr (concat vs)" "\<lambda>k vs. concat vs"]
  by (simp add: less_eq_char_def)

text \<open>
  A map task. If the input can be read and the application does not panic, \<open>doMap\<close> returns without error and has written, for
  each reduce task \<open>i\<close>, the encoding of the sorted pairs that belong to it under the name \<open>mr-<task>-i\<close>, and no other
  file.
\<close>

theorem doMap_writes_buckets:
  assumes "good_os os" "0 < NReduce t" "map_of (w_disk w) (Filename t) = Some content"
    and "mapf (Filename t) content = Inr kvs"
  shows "\<exists>w' names. doMap os srt enc mapf t w = (w', names, None) \<and> reports w' = reports w \<and>
     map_of (w_disk w') = (\<lambda>name.
       if \<exists>i < nat (NReduce t). name = bucketName (TaskID t) i
       then Some (enc (filter (\<lambda>kv. bucketName (TaskID t) (nat (ihash (Key kv) mod NReduce t)) = name)
                         (srt kvs)))
       else map_of (w_disk w) name)"
proof -
  obtain w' ns where w': "doMap os srt enc mapf t w = (w', ns, None)" "reports w' = reports w"
    "\<And>i. i < nat (NReduce t) \<Longrightarrow> map_of (w_disk w') (bucketName (TaskID t) i) =
        Some (enc (bucket (NReduce t) (srt kvs) i))"
    "\<And>name. \<forall>i < nat (NReduce t). name \<noteq> bucketName (TaskID t) i \<Longrightarrow>
        map_of (w_disk w') name = map_of (w_disk w) name"
    using doMap_ok [of os t w content mapf kvs srt enc] assms by blast
  have b: "bucket (NReduce t) (srt kvs) i =
      filter (\<lambda>kv. nat (ihash (Key kv) mod NReduce t) = i) (srt kvs)" for i
    unfolding bucket_def using assms(2) by (intro filter_cong) auto
  have "map_of (w_disk w') = (\<lambda>name.
       if \<exists>i < nat (NReduce t). name = bucketName (TaskID t) i
       then Some (enc (filter (\<lambda>kv. bucketName (TaskID t) (nat (ihash (Key kv) mod NReduce t)) = name)
                         (srt kvs)))
       else map_of (w_disk w) name)"
    by (rule ext) (auto simp: w'(3,4) b)
  with w'(1,2) show ?thesis by blast
qed

theorem doMap_writes_buckets_witness:
  "\<exists>w' names. doMap \<lparr>readOk = \<lambda>_. True, createOk = \<lambda>_. True, writeOk = \<lambda>_. True\<rparr> (\<lambda>x. x)
       (\<lambda>kvs. itoa (length kvs)) (\<lambda>f c. Inr [\<lparr>Key = c, Value = ''1''\<rparr>])
       (sampleTask 1 7 TaskStateSending 0) \<lparr>w_disk = [(''a'', ''text'')], reports = []\<rparr> =
       (w', names, None) \<and> map_of (w_disk w') (bucketName 7 0) = Some (itoa 1)"
  using doMap_writes_buckets [of "\<lparr>readOk = \<lambda>_. True, createOk = \<lambda>_. True, writeOk = \<lambda>_. True\<rparr>"
      "sampleTask 1 7 TaskStateSending 0" "\<lparr>w_disk = [(''a'', ''text'')], reports = []\<rparr>" "''text''"
      "\<lambda>f c. Inr [\<lparr>Key = c, Value = ''1''\<rparr>]" "[\<lparr>Key = ''text'', Value = ''1''\<rparr>]" "\<lambda>x. x"
      "\<lambda>kvs. itoa (length kvs)"]
  by (auto simp: good_os_def sampleTask_def)

text \<open>
  A reduce task reads its own buckets. The pattern of reduce task \<open>i\<close> matches the intermediate file for \<open>j\<close> of any map task exactly when
  \<open>j = i\<close>, and no output file of a reduce task.
\<close>

theorem pattern_matches_own_buckets:
  "(matchName (reducePattern i) (bucketName t j) \<longleftrightarrow> j = i) \<and>
   \<not> matchName (reducePattern i) (''mr-out.'' @ last (splitOn (CHR ''-'') (reducePattern j)))"
  by (simp only: idx_of_pattern matchName_bucket out_name_no_match simp_thms)

text \<open>
  A panic counts as success. If the application's \<open>Map\<close> panics, the deferred function of \<open>doMap\<close> reports the task as failed, but \<open>doMap\<close>
  then returns without an error, and the worker reports the task as finished: the last report wins, no bucket
  is written and the task is not retried.
\<close>

theorem map_panic_reported_finished:
  assumes "Phase t = MapPhase" "0 \<le> NReduce t" "readFile os (Filename t) w = Some c"
    and "mapf (Filename t) c = Inl p"
  shows "\<exists>w'. workOn os srt enc dec mapf reducef t w = (w', True) \<and> w_disk w' = w_disk w \<and>
     reports w' = reports w @ [(TaskID t, TaskStateRunning), (TaskID t, TaskStateErr),
                               (TaskID t, TaskStateFinish)]"
  using assms by (simp add: workOn_def doMap_def go_make_def Let_def)

theorem map_panic_reported_finished_witness:
  "\<exists>w'. workOn \<lparr>readOk = \<lambda>_. True, createOk = \<lambda>_. True, writeOk = \<lambda>_. True\<rparr> (\<lambda>x. x) (\<lambda>_. [])
       (\<lambda>_. None) (\<lambda>f c. Inl AppPanic) (\<lambda>k vs. Inr k) (sampleTask 1 7 TaskStateSending 0)
       \<lparr>w_disk = [(''a'', ''text'')], reports = []\<rparr> = (w', True) \<and>
     last (reports w') = (7, TaskStateFinish)"
  using map_panic_reported_finished [of "sampleTask 1 7 TaskStateSending 0"
      "\<lparr>readOk = \<lambda>_. True, createOk = \<lambda>_. True, writeOk = \<lambda>_. True\<rparr>"
      "\<lparr>w_disk = [(''a'', ''text'')], reports = []\<rparr>" "''text''" "\<lambda>f c. Inl AppPanic" AppPanic
      "\<lambda>x. x" "\<lambda>_. []" "\<lambda>_. None" "\<lambda>k vs. Inr k"]
  by (auto simp: sampleTask_def readFile_def)

text \<open>
  An unreadable intermediate file is skipped silently. If the first intermediate file of a reduce task cannot be decoded (its writer was cut off, say), the task stops reading,
  writes an output without any of the pairs and is reported as finished.
\<close>

theorem undecodable_bucket_loses_data:
  assumes "good_os os" "Phase t = ReducePhase" "Filename t = reducePattern i"
    and "Glob (Filename t) w = Some (f # fs)" "map_of (w_disk w) f = Some c" "dec c = None"
    and "srt [] = []"
  shows "\<exists>w'. workOn os srt enc dec mapf reducef t w = (w', True) \<and>
     map_of (w_disk w') (''mr-out.'' @ itoa i) = Some [] \<and>
     reports w' = reports w @ [(TaskID t, TaskStateRunning), (TaskID t, TaskStateFinish)]"
proof -
  let ?w = "setTaskState (TaskID t) TaskStateRunning w"
  have "Glob (Filename t) ?w = Some (f # fs)" using assms(4) by simp
  moreover have "readBuckets os dec ?w (f # fs) [] = Some []"
    using assms by (simp add: readFile_def good_os_def)
  moreover have "reduceLoop reducef [] 0 [] = ([], False)" by (simp add: reduceLoop.simps)
  ultimately have "doReduce os srt dec reducef t ?w = (putFile (''mr-out.'' @ itoa i) [] ?w, None)"
    using assms(1,3,7) idx_of_pattern [of i] by (simp add: doReduce_def Let_def good_os_def)
  then show ?thesis
    using assms(2) by (simp add: workOn_def Let_def putFile_lookup)
qed

theorem undecodable_bucket_loses_data_witness:
  "\<exists>w'. workOn \<lparr>readOk = \<lambda>_. True, createOk = \<lambda>_. True, writeOk = \<lambda>_. True\<rparr> (\<lambda>x. x) (\<lambda>_. [])
       (\<lambda>_. None) (\<lambda>f c. Inr []) (\<lambda>k vs. Inr k)
       ((sampleTask 1 7 TaskStateSending 0)\<lparr>Phase := ReducePhase, Filename := reducePattern 0\<rparr>)
       \<lparr>w_disk = [(bucketName 1 0, ''['')], reports = []\<rparr> = (w', True) \<and>
     map_of (w_disk w') (''mr-out.'' @ itoa 0) = Some []"
  using undecodable_bucket_loses_data [of "\<lparr>readOk = \<lambda>_. True, createOk = \<lambda>_. True, writeOk = \<lambda>_. True\<rparr>"
      "(sampleTask 1 7 TaskStateSending 0)\<lparr>Phase := ReducePhase, Filename := reducePattern 0\<rparr>" 0
      "\<lparr>w_disk = [(bucketName 1 0, ''['')], reports = []\<rparr>" "bucketName 1 0" "[]" "''[''"
      "\<lambda>_. None" "\<lambda>x. x" "\<lambda>_. []" "\<lambda>f c. Inr []" "\<lambda>k vs. Inr k"]
  by (auto simp: good_os_def Glob_pattern)

end
