(* ===== verification/MR_Job.thy ===== *)
theory MR_Job
  imports MR_Worker
begin

text \<open>
  \<open>main/mrsequential.go\<close>, the reference implementation in one process, and the theorem that workers
  who carry out the map and reduce tasks of a job produce the same lines. The comparison of the two
  outputs, sorted, is what the repository's test script does.
\<close>

section \<open>The sequential program\<close>

fun seqMap :: "OS \<Rightarrow> (string \<Rightarrow> string \<Rightarrow> KeyValue list res) \<Rightarrow> WState \<Rightarrow> string list
    \<Rightarrow> KeyValue list \<Rightarrow> KeyValue list res" where
  "seqMap os mapf w [] intermediate = Inr intermediate"
| "seqMap os mapf w (filename # fs) intermediate =
     (case readFile os filename w of
        None \<Rightarrow> Inl LogFatal
      | Some content \<Rightarrow>
          rbind (mapf filename content) (\<lambda>kva.
            seqMap os mapf w fs (intermediate @ kva)))"

text \<open>\<open>main\<close> after the plugin is loaded, for the input files \<open>fs\<close>. A panic of \<open>reducef\<close> ends the process.\<close>

definition mrsequential :: "OS \<Rightarrow> (KeyValue list \<Rightarrow> KeyValue list)
    \<Rightarrow> (string \<Rightarrow> string \<Rightarrow> KeyValue list res) \<Rightarrow> (string \<Rightarrow> string list \<Rightarrow> string res)
    \<Rightarrow> string list \<Rightarrow> WState \<Rightarrow> WState res" where
  "mrsequential os srt mapf reducef fs w =
     (if length fs < 1 then Inl LogFatal
      else rbind (seqMap os mapf w fs []) (\<lambda>intermediate.
        let intermediate = srt intermediate;
            oname = ''mr-out-0'';
            (out, panicked) = reduceLoop reducef intermediate 0 []
        in if panicked then Inl AppPanic
           else if createOk os oname
                then Inr (putFile oname (if writeOk os oname then concat out else []) w)
                else Inr w))"

section \<open>The worker's tasks\<close>

text \<open>The loop of \<open>Worker\<close> over the tasks it is given.\<close>

fun workLoop :: "OS \<Rightarrow> (KeyValue list \<Rightarrow> KeyValue list) \<Rightarrow> (KeyValue list \<Rightarrow> string)
    \<Rightarrow> (string \<Rightarrow> KeyValue list option) \<Rightarrow> (string \<Rightarrow> string \<Rightarrow> KeyValue list res)
    \<Rightarrow> (string \<Rightarrow> string list \<Rightarrow> string res) \<Rightarrow> MRTask list \<Rightarrow> WState \<Rightarrow> WState" where
  "workLoop os srt enc dec mapf reducef [] w = w"
| "workLoop os srt enc dec mapf reducef (t # ts) w =
     (let (w, go) = workOn os srt enc dec mapf reducef t w
      in if go then workLoop os srt enc dec mapf reducef ts w else w)"

section \<open>Sorting by key\<close>

text \<open>What the programs rely on of \<open>sort.Sort(ByKey(...))\<close>: a permutation in ascending order of the keys.\<close>

lemma distinct_remdups_adj_sorted:
  fixes xs :: "'a :: linorder list"
  shows "sorted xs \<Longrightarrow> distinct (remdups_adj xs)"
proof (induction xs rule: remdups_adj.induct)
  case (3 x y xs)
  show ?case
  proof (cases "x = y")
    case True
    with 3 show ?thesis by simp
  next
    case False
    with "3.prems" have "x < y" "\<forall>z \<in> set xs. y \<le> z" by auto
    then have "x \<notin> set (y # xs)" by auto
    with 3 False show ?thesis by simp
  qed
qed simp_all

definition perm_invariant :: "(string \<Rightarrow> string list \<Rightarrow> string) \<Rightarrow> bool" where
  "perm_invariant g \<longleftrightarrow> (\<forall>k vs vs'. mset vs = mset vs' \<longrightarrow> g k vs = g k vs')"

definition mergedLine :: "(string \<Rightarrow> string list \<Rightarrow> string) \<Rightarrow> KeyValue list \<Rightarrow> string \<Rightarrow> string" where
  "mergedLine g kvs k = outputLine k (g k (valuesOf k kvs))"

lemma mset_valuesOf: "mset kvs = mset kvs' \<Longrightarrow> mset (valuesOf k kvs) = mset (valuesOf k kvs')"
  by (simp add: valuesOf_def)

lemma mergedLine_perm:
  assumes "perm_invariant g" "mset kvs = mset kvs'"
  shows "mergedLine g kvs k = mergedLine g kvs' k"
proof -
  have "g k (valuesOf k kvs) = g k (valuesOf k kvs')"
    using assms(1) mset_valuesOf [OF assms(2)] unfolding perm_invariant_def by blast
  then show ?thesis by (simp add: mergedLine_def)
qed

definition keysOf :: "KeyValue list \<Rightarrow> string list" where
  "keysOf kvs = sorted_list_of_set (Key ` set kvs)"

lemma keysOf_perm: "mset kvs = mset kvs' \<Longrightarrow> keysOf kvs = keysOf kvs'"
  by (metis keysOf_def mset_eq_setD)

locale key_sorter =
  fixes srt :: "KeyValue list \<Rightarrow> KeyValue list"
  assumes perm: "mset (srt kvs) = mset kvs"
    and ascending: "sorted (map Key (srt kvs))"
begin

lemma keys: "remdups_adj (map Key (srt kvs)) = keysOf kvs"
proof (rule sorted_distinct_set_unique)
  have "set (srt kvs) = set kvs" using perm by (metis set_mset_mset)
  then show "set (remdups_adj (map Key (srt kvs))) = set (keysOf kvs)" by (simp add: keysOf_def)
qed (simp_all add: ascending distinct_remdups_adj_sorted keysOf_def)

lemma lines:
  assumes "perm_invariant g"
  shows "map (\<lambda>k. outputLine k (g k (valuesOf k (srt kvs)))) (remdups_adj (map Key (srt kvs))) =
    map (mergedLine g kvs) (keysOf kvs)"
  using mergedLine_perm [OF assms perm] by (simp add: keys mergedLine_def)

lemma sequential_output:
  assumes "good_os os" "fs \<noteq> []" "perm_invariant g" "\<And>k vs. reducef k vs = Inr (g k vs)"
    and "seqMap os mapf w fs [] = Inr kvs"
  shows "mrsequential os srt mapf reducef fs w =
    Inr (putFile ''mr-out-0'' (concat (map (mergedLine g kvs) (keysOf kvs))) w)"
  using reduceLoop_sorted [of 0 "srt kvs" reducef g "[]"] assms
  by (simp add: mrsequential_def ascending lines good_os_def Suc_le_eq)

end

text \<open>
  What the documentation of \<open>sort\<close> promises, for the order that \<open>ByKey\<close> gives it: the elements are only exchanged, and none
  is less than one before it. That is enough.
\<close>

definition ByKeyLess :: "KeyValue \<Rightarrow> KeyValue \<Rightarrow> bool" where
  "ByKeyLess a b \<longleftrightarrow> Key a < Key b"

locale go_sort =
  fixes goSort :: "KeyValue list \<Rightarrow> KeyValue list"
  assumes exchanged: "mset (goSort kvs) = mset kvs"
    and in_order: "i < j \<Longrightarrow> j < length (goSort kvs) \<Longrightarrow> \<not> ByKeyLess (goSort kvs ! j) (goSort kvs ! i)"

sublocale go_sort \<subseteq> key_sorter goSort
proof unfold_locales
  fix kvs
  show "mset (goSort kvs) = mset kvs" by (rule exchanged)
  show "sorted (map Key (goSort kvs))"
    unfolding sorted_iff_nth_mono_less using in_order [of _ _ kvs] by (auto simp: ByKeyLess_def not_less)
qed

context go_sort
begin

lemma sorts_by_key: "key_sorter goSort"
  by (rule key_sorter_axioms)

end

interpretation key_sort: go_sort "sort_key Key"
proof unfold_locales
  fix i j and kvs :: "KeyValue list"
  assume ij: "i < j" "j < length (sort_key Key kvs)"
  have "sorted (map Key (sort_key Key kvs))" by simp
  from sorted_nth_mono [OF this, of i j] ij show "\<not> ByKeyLess (sort_key Key kvs ! j) (sort_key Key kvs ! i)"
    by (simp add: ByKeyLess_def not_less)
qed simp

section \<open>Splitting by hash\<close>

lemma mset_split:
  assumes "\<And>x. x \<in> set xs \<Longrightarrow> h x < N"
  shows "mset (concat (map (\<lambda>i. filter (\<lambda>x. h x = i) xs) [0..<N])) = mset xs"
  using assms
proof (induction xs)
  case Nil
  then show ?case by (simp add: mset_concat o_def)
next
  case (Cons x xs)
  have "(\<Sum>i\<leftarrow>[0..<N]. mset (filter (\<lambda>y. h y = i) (x # xs))) =
      (\<Sum>i\<leftarrow>[0..<N]. (if h x = i then {#x#} else {#}) + mset (filter (\<lambda>y. h y = i) xs))"
    by (rule arg_cong [where f = sum_list]) auto
  also have "\<dots> = (\<Sum>i\<leftarrow>[0..<N]. if h x = i then {#x#} else {#}) + mset xs"
    using Cons by (simp add: sum_list_addf mset_concat o_def)
  also have "(\<Sum>i\<leftarrow>[0..<N]. if h x = i then {#x#} else {#}) = {#x#}"
    using Cons.prems by (simp add: sum_list_distinct_conv_sum_set sum.delta)
  finally show ?case by (simp add: mset_concat o_def)
qed

lemma keysOf_bucket:
  "keysOf (bucket n kvs i) = filter (\<lambda>k. ihash k mod n = int i) (keysOf kvs)"
  by (rule sorted_distinct_set_unique) (auto simp: keysOf_def bucket_def sorted_wrt_filter)

lemma valuesOf_bucket:
  "ihash k mod n = int i \<Longrightarrow> valuesOf k (bucket n kvs i) = valuesOf k kvs"
  unfolding valuesOf_def bucket_def filter_filter
  by (rule arg_cong [where f = "map Value"], rule filter_cong) auto

lemma lines_bucket:
  "map (mergedLine g (bucket n kvs i)) (keysOf (bucket n kvs i)) =
   map (mergedLine g kvs) (filter (\<lambda>k. ihash k mod n = int i) (keysOf kvs))"
  unfolding keysOf_bucket
  by (rule map_cong) (auto simp: mergedLine_def valuesOf_bucket)

lemma mset_lines_buckets:
  assumes "0 < N"
  shows "mset (concat (map (\<lambda>i. map (mergedLine g (bucket (int N) kvs i)) (keysOf (bucket (int N) kvs i)))
      [0..<N])) = mset (map (mergedLine g kvs) (keysOf kvs))"
proof -
  let ?h = "\<lambda>k. nat (ihash k mod int N)"
  have h: "ihash k mod int N = int i \<longleftrightarrow> ?h k = i" for k i using assms by auto
  have "?h k < N" for k using assms by (simp add: nat_less_iff)
  then have "mset (concat (map (\<lambda>i. filter (\<lambda>k. ?h k = i) (keysOf kvs)) [0..<N])) = mset (keysOf kvs)"
    by (intro mset_split)
  then have "mset (map (mergedLine g kvs) (concat (map (\<lambda>i. filter (\<lambda>k. ?h k = i) (keysOf kvs)) [0..<N])))
      = mset (map (mergedLine g kvs) (keysOf kvs))"
    by simp
  then show ?thesis by (simp add: lines_bucket h map_concat o_def)
qed

section \<open>The map tasks of a job\<close>

text \<open>
  What the disk holds after the map tasks \<open>ts\<close>, for \<open>N\<close> reduce tasks: every task's buckets under
  their names, and no other file that a reduce task would read.
\<close>

definition bucketsOnDisk :: "(KeyValue list \<Rightarrow> string) \<Rightarrow> (MRTask \<Rightarrow> nat \<Rightarrow> KeyValue list)
    \<Rightarrow> nat \<Rightarrow> MRTask list \<Rightarrow> WState \<Rightarrow> bool" where
  "bucketsOnDisk enc B N ts w \<longleftrightarrow>
     disk_ok w \<and>
     (\<forall>t \<in> set ts. \<forall>i < N. map_of (w_disk w) (bucketName (TaskID t) i) = Some (enc (B t i))) \<and>
     (\<forall>name \<in> dom (map_of (w_disk w)). \<forall>i < N. matchName (reducePattern i) name \<longrightarrow>
        (\<exists>t \<in> set ts. name = bucketName (TaskID t) i))"

definition mapTasks :: "nat \<Rightarrow> MRTask list \<Rightarrow> bool" where
  "mapTasks N ts \<longleftrightarrow>
     distinct (map TaskID ts) \<and> (\<forall>t \<in> set ts. Phase t = MapPhase \<and> NReduce t = int N)"

lemma workOn_map:
  assumes "good_os os" "Phase t = MapPhase" "NReduce t = int N" "0 < N"
    and "map_of (w_disk w) (Filename t) = Some c" "mapf (Filename t) c = Inr kvs" "disk_ok w"
  obtains w' where "workOn os srt enc dec mapf reducef t w = (w', True)" "disk_ok w'"
    and "\<forall>i < N. map_of (w_disk w') (bucketName (TaskID t) i) = Some (enc (bucket (int N) (srt kvs) i))"
    and "\<forall>name. (\<forall>i < N. name \<noteq> bucketName (TaskID t) i) \<longrightarrow>
        map_of (w_disk w') name = map_of (w_disk w) name"
    and "reports w' = reports w @ [(TaskID t, TaskStateRunning), (TaskID t, TaskStateFinish)]"
proof -
  let ?w = "setTaskState (TaskID t) TaskStateRunning w"
  obtain w1 ns where r: "doMap os srt enc mapf t ?w = (w1, ns, None)" "reports w1 = reports ?w"
    "disk_ok ?w \<longrightarrow> disk_ok w1"
    "\<forall>i < N. map_of (w_disk w1) (bucketName (TaskID t) i) = Some (enc (bucket (int N) (srt kvs) i))"
    "\<forall>name. (\<forall>i < N. name \<noteq> bucketName (TaskID t) i) \<longrightarrow>
        map_of (w_disk w1) name = map_of (w_disk ?w) name"
    using doMap_ok [of os t ?w c mapf kvs srt enc] assms by auto
  show thesis
    by (rule that [of "setTaskState (TaskID t) TaskStateFinish w1"])
       (use r assms in \<open>simp_all add: workOn_def Let_def\<close>)
qed

text \<open>A worker that is given map tasks carries them out one after the other.\<close>

text \<open>What map tasks leave on the disk: their buckets, and all other files as they were.\<close>

definition mapsDone :: "(KeyValue list \<Rightarrow> string) \<Rightarrow> (KeyValue list \<Rightarrow> KeyValue list) \<Rightarrow> (string \<Rightarrow> KeyValue list) \<Rightarrow> nat
    \<Rightarrow> MRTask list \<Rightarrow> WState \<Rightarrow> WState \<Rightarrow> bool" where
  "mapsDone enc srt out N ts w w' \<longleftrightarrow> disk_ok w' \<and>
     (\<forall>t \<in> set ts. \<forall>i < N. map_of (w_disk w') (bucketName (TaskID t) i) =
        Some (enc (bucket (int N) (srt (out (Filename t))) i))) \<and>
     (\<forall>name. (\<forall>t \<in> set ts. \<forall>i < N. name \<noteq> bucketName (TaskID t) i) \<longrightarrow>
        map_of (w_disk w') name = map_of (w_disk w) name)"

lemma mapsDone_Cons:
  assumes "mapsDone enc srt out N [t] w w1" "mapsDone enc srt out N ts w1 w'" "mapTasks N (t # ts)"
  shows "mapsDone enc srt out N (t # ts) w w'"
proof -
  have "map_of (w_disk w') (bucketName (TaskID t) i) = map_of (w_disk w1) (bucketName (TaskID t) i)" for i
  proof -
    have "\<forall>u \<in> set ts. \<forall>j < N. bucketName (TaskID t) i \<noteq> bucketName (TaskID u) j"
      using assms(3) by (auto simp: mapTasks_def)
    with assms(2) show ?thesis by (simp add: mapsDone_def)
  qed
  with assms(1,2) show ?thesis by (simp add: mapsDone_def)
qed

lemma workLoop_map:
  assumes os: "good_os os" and N: "0 < N" and ts: "mapTasks N ts" and d: "disk_ok w"
    and input: "\<And>t. t \<in> set ts \<Longrightarrow> \<exists>c. map_of (w_disk w) (Filename t) = Some c \<and>
        mapf (Filename t) c = Inr (out (Filename t))"
    and names: "\<And>t u i. t \<in> set ts \<Longrightarrow> u \<in> set ts \<Longrightarrow> i < N \<Longrightarrow>
        Filename t \<noteq> bucketName (TaskID u) i"
  shows "\<exists>w'. (\<forall>rest. workLoop os srt enc dec mapf reducef (ts @ rest) w =
       workLoop os srt enc dec mapf reducef rest w') \<and> mapsDone enc srt out N ts w w'"
  using ts d input names
proof (induction ts arbitrary: w)
  case Nil
  then show ?case by (auto simp: mapsDone_def)
next
  case (Cons t ts)
  obtain c where c: "map_of (w_disk w) (Filename t) = Some c" "mapf (Filename t) c = Inr (out (Filename t))"
    using Cons.prems(3) [of t] by auto
  obtain w1 where w1: "workOn os srt enc dec mapf reducef t w = (w1, True)" "mapsDone enc srt out N [t] w w1"
    by (rule workOn_map [of os t N w c mapf "out (Filename t)" srt enc dec reducef])
       (use os N c Cons.prems(1,2) in \<open>auto simp: mapTasks_def mapsDone_def\<close>)
  have same: "map_of (w_disk w1) (Filename u) = map_of (w_disk w) (Filename u)" if "u \<in> set (t # ts)" for u
    using w1(2) Cons.prems(4) [OF that, of t] by (simp add: mapsDone_def)
  have "disk_ok w1" using w1(2) by (simp add: mapsDone_def)
  then have "\<exists>w'. (\<forall>rest. workLoop os srt enc dec mapf reducef (ts @ rest) w1 =
       workLoop os srt enc dec mapf reducef rest w') \<and> mapsDone enc srt out N ts w1 w'"
    by (intro Cons.IH) (use Cons.prems same in \<open>auto simp: mapTasks_def\<close>)
  then show ?case using w1 mapsDone_Cons [OF w1(2) _ Cons.prems(1)] by auto
qed

section \<open>The reduce tasks of a job\<close>

lemma bucketsOnDisk_put:
  assumes "bucketsOnDisk enc B N ts w"
  shows "bucketsOnDisk enc B N ts (putFile (''mr-out.'' @ itoa j) c w)"
  using assms out_name_no_match out_name_no_bucket [symmetric]
  unfolding bucketsOnDisk_def by (auto simp: putFile_lookup split: if_splits)

lemma bucketsOnDisk_report [simp]:
  "bucketsOnDisk enc B N ts (setTaskState k st w) = bucketsOnDisk enc B N ts w"
  by (simp add: bucketsOnDisk_def)

lemma bucket_files:
  assumes "bucketsOnDisk enc B N ts w" "i < N" "distinct (map TaskID ts)"
  shows "mset (sort (filter (matchName (reducePattern i)) (map fst (w_disk w)))) =
    mset (map (\<lambda>t. bucketName (TaskID t) i) ts)"
proof -
  let ?fs = "filter (matchName (reducePattern i)) (map fst (w_disk w))"
  have "distinct ?fs" using assms(1) by (simp add: bucketsOnDisk_def disk_ok_def)
  moreover have "distinct (map (\<lambda>t. bucketName (TaskID t) i) ts)"
    using assms(3) by (simp add: distinct_map inj_on_def)
  moreover have "set ?fs = set (map (\<lambda>t. bucketName (TaskID t) i) ts)"
  proof (intro subset_antisym subsetI)
    fix n assume "n \<in> set ?fs"
    then have "n \<in> dom (map_of (w_disk w))" "matchName (reducePattern i) n"
      by (auto simp: dom_map_of_conv_image_fst)
    with assms(1,2) obtain t where "t \<in> set ts" "n = bucketName (TaskID t) i"
      unfolding bucketsOnDisk_def by blast
    then show "n \<in> set (map (\<lambda>t. bucketName (TaskID t) i) ts)" by simp
  next
    fix n assume "n \<in> set (map (\<lambda>t. bucketName (TaskID t) i) ts)"
    then obtain t where t: "t \<in> set ts" "n = bucketName (TaskID t) i" by auto
    with assms(1,2) have "n \<in> dom (map_of (w_disk w))" unfolding bucketsOnDisk_def by blast
    with t show "n \<in> set ?fs" by (auto simp: dom_map_of_conv_image_fst)
  qed
  ultimately show ?thesis
    unfolding mset_sort using set_eq_iff_mset_eq_distinct [of ?fs] by blast
qed

lemma mset_concat_perm:
  assumes "mset fs = mset (map f ts)" "\<And>t. t \<in> set ts \<Longrightarrow> out (f t) = B t"
  shows "mset (concat (map out fs)) = mset (concat (map B ts))"
proof -
  have "mset (map (\<lambda>f. mset (out f)) fs) = mset (map (\<lambda>f. mset (out f)) (map f ts))"
    using assms(1) by (metis mset_map)
  also have "map (\<lambda>f. mset (out f)) (map f ts) = map (\<lambda>t. mset (B t)) ts"
    using assms(2) by simp
  finally have "sum_mset (mset (map (\<lambda>f. mset (out f)) fs)) =
      sum_mset (mset (map (\<lambda>t. mset (B t)) ts))"
    by (rule arg_cong)
  then show ?thesis by (simp only: sum_mset_sum_list mset_concat map_map o_def)
qed

context key_sorter
begin

text \<open>One reduce task: it merges what the map tasks have put into its buckets.\<close>

lemma doReduce_merge:
  assumes os: "good_os os" and g: "perm_invariant g"
    and rf: "\<And>k vs. reducef k vs = Inr (g k vs)"
    and r: "Filename r = reducePattern i" "i < N"
    and D: "bucketsOnDisk enc B N ts w" "distinct (map TaskID ts)"
    and dec: "\<And>t. t \<in> set ts \<Longrightarrow> dec (enc (B t i)) = Some (B t i)"
    and K: "mset (concat (map (\<lambda>t. B t i) ts)) = mset kvs"
  shows "doReduce os srt dec reducef r w =
      (putFile (''mr-out.'' @ itoa i) (concat (map (mergedLine g kvs) (keysOf kvs))) w, None)"
proof -
  let ?fs = "sort (filter (matchName (reducePattern i)) (map fst (w_disk w)))"
  define out where "out f = the (dec (the (map_of (w_disk w) f)))" for f
  have files: "mset ?fs = mset (map (\<lambda>t. bucketName (TaskID t) i) ts)"
    using D r(2) by (intro bucket_files)
  have o: "map_of (w_disk w) (bucketName (TaskID t) i) = Some (enc (B t i))"
    "out (bucketName (TaskID t) i) = B t i" if "t \<in> set ts" for t
    using D(1) r(2) dec that by (auto simp: bucketsOnDisk_def out_def)
  have rd: "\<exists>c. map_of (w_disk w) f = Some c \<and> dec c = Some (out f)" if "f \<in> set ?fs" for f
  proof -
    from that files have "f \<in> set (map (\<lambda>t. bucketName (TaskID t) i) ts)" by (metis mset_eq_setD)
    then obtain t where "t \<in> set ts" "f = bucketName (TaskID t) i" by auto
    with o dec show ?thesis by simp
  qed
  let ?kvs = "concat (map out ?fs)"
  have perm: "mset ?kvs = mset kvs"
    using mset_concat_perm [OF files, of out "\<lambda>t. B t i"] o(2) K by simp
  have "doReduce os srt dec reducef r w =
      (putFile (''mr-out.'' @ itoa i) (concat (map (mergedLine g ?kvs) (keysOf ?kvs))) w, None)"
    using doReduce_ok [of os r i w ?fs dec out srt reducef g] os r rd rf
    by (simp add: ascending lines [OF g])
  also have "map (mergedLine g ?kvs) (keysOf ?kvs) = map (mergedLine g kvs) (keysOf kvs)"
    using keysOf_perm [OF perm] mergedLine_perm [OF g perm] by simp
  finally show ?thesis .
qed

lemma workOn_reduce:
  assumes os: "good_os os" and g: "perm_invariant g"
    and rf: "\<And>k vs. reducef k vs = Inr (g k vs)"
    and r: "Phase r = ReducePhase" "Filename r = reducePattern i" "i < N"
    and D: "bucketsOnDisk enc B N ts w" "distinct (map TaskID ts)"
    and dec: "\<And>t. t \<in> set ts \<Longrightarrow> dec (enc (B t i)) = Some (B t i)"
    and K: "mset (concat (map (\<lambda>t. B t i) ts)) = mset kvs"
  obtains w' where "workOn os srt enc dec mapf reducef r w = (w', True)"
    "bucketsOnDisk enc B N ts w'"
    "map_of (w_disk w') = (map_of (w_disk w))
       (''mr-out.'' @ itoa i \<mapsto> concat (map (mergedLine g kvs) (keysOf kvs)))"
    "reports w' = reports w @ [(TaskID r, TaskStateRunning), (TaskID r, TaskStateFinish)]"
proof -
  let ?w = "setTaskState (TaskID r) TaskStateRunning w"
  have D0: "bucketsOnDisk enc B N ts ?w" using D(1) by simp
  have run: "doReduce os srt dec reducef r ?w =
      (putFile (''mr-out.'' @ itoa i) (concat (map (mergedLine g kvs) (keysOf kvs))) ?w, None)"
    by (rule doReduce_merge [OF os g rf r(2,3) D0 D(2) dec K])
  let ?w' = "setTaskState (TaskID r) TaskStateFinish
      (putFile (''mr-out.'' @ itoa i) (concat (map (mergedLine g kvs) (keysOf kvs))) ?w)"
  have D': "bucketsOnDisk enc B N ts
      (putFile (''mr-out.'' @ itoa i) (concat (map (mergedLine g kvs) (keysOf kvs))) ?w)"
    by (rule bucketsOnDisk_put [OF D0])
  show thesis
    by (rule that [of ?w'])
       (use r(1) run D' in \<open>simp_all add: workOn_def Let_def putFile_lookup\<close>)
qed

text \<open>All of them.\<close>

lemma workLoop_reduce:
  assumes os: "good_os os" and g: "perm_invariant g"
    and rf: "\<And>k vs. reducef k vs = Inr (g k vs)"
    and r: "\<And>r. r \<in> set rs \<Longrightarrow> Phase r = ReducePhase" "map Filename rs = map reducePattern is"
      "distinct is" "\<And>i. i \<in> set is \<Longrightarrow> i < N"
    and D: "bucketsOnDisk enc B N ts w" "distinct (map TaskID ts)"
    and dec: "\<And>t i. t \<in> set ts \<Longrightarrow> i < N \<Longrightarrow> dec (enc (B t i)) = Some (B t i)"
    and K: "\<And>i. i < N \<Longrightarrow> mset (concat (map (\<lambda>t. B t i) ts)) = mset (K i)"
  shows "(\<forall>i \<in> set is. map_of (w_disk (workLoop os srt enc dec mapf reducef rs w))
       (''mr-out.'' @ itoa i) = Some (concat (map (mergedLine g (K i)) (keysOf (K i))))) \<and>
     (\<forall>j. j \<notin> set is \<longrightarrow> map_of (w_disk (workLoop os srt enc dec mapf reducef rs w))
       (''mr-out.'' @ itoa j) = map_of (w_disk w) (''mr-out.'' @ itoa j))"
  using r D(1)
proof (induction rs arbitrary: "is" w)
  case Nil
  then show ?case by simp
next
  case (Cons r rs)
  from Cons.prems(2) obtain i "is'" where i: "is = i # is'" "Filename r = reducePattern i"
    "map Filename rs = map reducePattern is'"
    by (cases "is") auto
  have iN: "i < N" using Cons.prems(4) i(1) by simp
  obtain w' where w': "workOn os srt enc dec mapf reducef r w = (w', True)"
    "bucketsOnDisk enc B N ts w'"
    "map_of (w_disk w') = (map_of (w_disk w))
       (''mr-out.'' @ itoa i \<mapsto> concat (map (mergedLine g (K i)) (keysOf (K i))))"
    using workOn_reduce [OF os g rf _ i(2) iN Cons.prems(5) D(2) dec [OF _ iN] K [OF iN]]
      Cons.prems(1) by (metis list.set_intros(1))
  have "(\<forall>i \<in> set is'. map_of (w_disk (workLoop os srt enc dec mapf reducef rs w'))
       (''mr-out.'' @ itoa i) = Some (concat (map (mergedLine g (K i)) (keysOf (K i))))) \<and>
     (\<forall>j. j \<notin> set is' \<longrightarrow> map_of (w_disk (workLoop os srt enc dec mapf reducef rs w'))
       (''mr-out.'' @ itoa j) = map_of (w_disk w') (''mr-out.'' @ itoa j))"
    by (rule Cons.IH) (use Cons.prems i w'(2) in auto)
  then show ?case using w'(1,3) i Cons.prems(3) by (auto split: if_splits)
qed

end

section \<open>Properties\<close>

lemma seqMap_ok:
  assumes "good_os os"
    and "\<And>f. f \<in> set fs \<Longrightarrow> \<exists>c. map_of (w_disk w) f = Some c \<and> mapf f c = Inr (out f)"
  shows "seqMap os mapf w fs acc = Inr (acc @ concat (map out fs))"
  using assms(2)
proof (induction fs arbitrary: acc)
  case Nil
  then show ?case by simp
next
  case (Cons f fs)
  then obtain c where "map_of (w_disk w) f = Some c" "mapf f c = Inr (out f)" by auto
  with assms(1) Cons show ?case by (simp add: readFile_def good_os_def)
qed

lemma mset_buckets:
  assumes "key_sorter srt"
  shows "mset (concat (map (\<lambda>t. bucket n (srt (out (Filename t))) i) ts)) =
    mset (bucket n (concat (map out (map Filename ts))) i)"
proof (induction ts)
  case Nil
  then show ?case by (simp add: bucket_def)
next
  case (Cons t ts)
  then show ?case by (simp add: bucket_def key_sorter.perm [OF assms])
qed

text \<open>After the map tasks, the files that a reduce task reads are theirs.\<close>

lemma only_new_buckets:
  assumes "\<And>name i. name \<in> set (map fst (w_disk w)) \<Longrightarrow> i < N \<Longrightarrow> \<not> matchName (reducePattern i) name"
    and "disk_ok w'"
    and "\<And>t i. t \<in> set ts \<Longrightarrow> i < N \<Longrightarrow> map_of (w_disk w') (bucketName (TaskID t) i) = Some (enc (B t i))"
    and "\<And>name. \<forall>t \<in> set ts. \<forall>i < N. name \<noteq> bucketName (TaskID t) i \<Longrightarrow> map_of (w_disk w') name = map_of (w_disk w) name"
  shows "bucketsOnDisk enc B N ts w'"
  unfolding bucketsOnDisk_def
proof (intro conjI ballI allI impI)
  fix name i assume n: "name \<in> dom (map_of (w_disk w'))" "i < N" "matchName (reducePattern i) name"
  have "\<not> (\<forall>t \<in> set ts. \<forall>i < N. name \<noteq> bucketName (TaskID t) i)"
  proof
    assume "\<forall>t \<in> set ts. \<forall>i < N. name \<noteq> bucketName (TaskID t) i"
    with n(1) assms(4) have "name \<in> set (map fst (w_disk w))"
      by (auto simp: dom_map_of_conv_image_fst [symmetric])
    with assms(1) n(2,3) show False by blast
  qed
  with n(3) show "\<exists>t \<in> set ts. name = bucketName (TaskID t) i" by auto
qed (use assms(2,3) in auto)

lemma input_not_bucket:
  assumes "\<And>name i. name \<in> set (map fst (w_disk w)) \<Longrightarrow> i < N \<Longrightarrow> \<not> matchName (reducePattern i) name"
    and "map_of (w_disk w) name = Some c" "i < N"
  shows "name \<noteq> bucketName k i"
proof -
  have "name \<in> set (map fst (w_disk w))" using assms(2) by (auto dest: map_of_SomeD intro: rev_image_eqI)
  then have "\<not> matchName (reducePattern i) name" using assms(3) by (rule assms(1))
  then show ?thesis using matchName_bucket [of i k i] by metis
qed

text \<open>
  C6: the distributed job computes what the sequential program computes. A worker is given the map tasks of a job and then its \<open>N\<close> reduce tasks. Provided that the file system works, that sorting sorts,
  that JSON decoding inverts encoding on the pairs at hand, that the application does not panic and its \<open>Reduce\<close> does
  not depend on the order of the values, and that the directory holds no left-over file that a reduce task would take for an
  intermediate one, the files \<open>mr-out.0\<close>, \<dots> together hold exactly the lines that \<open>mrsequential\<close> writes to \<open>mr-out-0\<close>.
\<close>

theorem distributed_matches_sequential:
  assumes os: "good_os os" and srt: "key_sorter srt" and N: "0 < N" and ne: "ts \<noteq> []"
    and codec: "\<And>kvs. \<forall>kv \<in> set kvs. V kv \<Longrightarrow> dec (enc kvs) = Some kvs"
    and ts: "mapTasks N ts"
    and rs: "map Filename rs = map reducePattern [0..<N]" "\<And>r. r \<in> set rs \<Longrightarrow> Phase r = ReducePhase"
    and disk: "disk_ok w" "\<And>name i. name \<in> set (map fst (w_disk w)) \<Longrightarrow> i < N \<Longrightarrow>
        \<not> matchName (reducePattern i) name"
    and input: "\<And>t. t \<in> set ts \<Longrightarrow> \<exists>c. map_of (w_disk w) (Filename t) = Some c \<and>
        mapf (Filename t) c = Inr (out (Filename t))"
    and V: "\<And>t kv. t \<in> set ts \<Longrightarrow> kv \<in> set (out (Filename t)) \<Longrightarrow> V kv"
    and rf: "\<And>k vs. reducef k vs = Inr (g k vs)" "perm_invariant g"
  shows "\<exists>lines part.
     mrsequential os srt mapf reducef (map Filename ts) w =
       Inr (putFile ''mr-out-0'' (concat lines) w) \<and>
     (\<forall>i < N. map_of (w_disk (workLoop os srt enc dec mapf reducef (ts @ rs) w))
        (''mr-out.'' @ itoa i) = Some (concat (part i))) \<and>
     mset (concat (map part [0..<N])) = mset lines"
proof -
  let ?all = "concat (map out (map Filename ts))"
  let ?B = "\<lambda>t i. bucket (int N) (srt (out (Filename t))) i"
  let ?K = "bucket (int N) ?all"
  let ?part = "\<lambda>i. map (mergedLine g (?K i)) (keysOf (?K i))"
  have fresh: "Filename t \<noteq> bucketName (TaskID u) i" if "t \<in> set ts" "i < N" for t u i
    using input [OF that(1)] input_not_bucket [OF disk(2) _ that(2)] by blast
  obtain w' where w': "\<And>rest. workLoop os srt enc dec mapf reducef (ts @ rest) w =
       workLoop os srt enc dec mapf reducef rest w'" "disk_ok w'"
     "\<And>t i. t \<in> set ts \<Longrightarrow> i < N \<Longrightarrow> map_of (w_disk w') (bucketName (TaskID t) i) = Some (enc (?B t i))"
     "\<And>name. \<forall>t \<in> set ts. \<forall>i < N. name \<noteq> bucketName (TaskID t) i \<Longrightarrow>
        map_of (w_disk w') name = map_of (w_disk w) name"
    using workLoop_map [of os N ts w mapf out srt enc dec reducef] os N ts disk(1) input fresh unfolding mapsDone_def by blast
  have D: "bucketsOnDisk enc ?B N ts w'" by (rule only_new_buckets [OF disk(2) w'(2-4)])
  have set_srt: "set (srt xs) = set xs" for xs
    using key_sorter.perm [OF srt, of xs] by (metis set_mset_mset)
  have dec: "dec (enc (?B t i)) = Some (?B t i)" if "t \<in> set ts" for t i
    using V [OF that] by (intro codec) (auto simp: bucket_def set_srt)
  have out: "\<forall>i \<in> set [0..<N]. map_of (w_disk (workLoop os srt enc dec mapf reducef rs w'))
       (''mr-out.'' @ itoa i) = Some (concat (?part i))"
    using key_sorter.workLoop_reduce [OF srt os rf(2) rf(1) rs(2,1) _ _ D _ dec mset_buckets [OF srt]] ts
    by (auto simp: mapTasks_def)
  have "seqMap os mapf w (map Filename ts) [] = Inr ?all"
    using seqMap_ok [OF os, of "map Filename ts" w mapf out "[]"] input by auto
  then have seq: "mrsequential os srt mapf reducef (map Filename ts) w =
      Inr (putFile ''mr-out-0'' (concat (map (mergedLine g ?all) (keysOf ?all))) w)"
    using ne by (intro key_sorter.sequential_output [OF srt os _ rf(2) rf(1)]) auto
  show ?thesis
    using seq out w'(1) mset_lines_buckets [OF N, of g ?all]
    by (intro exI [of _ "map (mergedLine g ?all) (keysOf ?all)"] exI [of _ ?part]) simp
qed

text \<open>A small job: two files with the same word, one reduce task, the count of the word.\<close>

definition sampleOS :: OS where
  "sampleOS = \<lparr>readOk = \<lambda>_. True, createOk = \<lambda>_. True, writeOk = \<lambda>_. True\<rparr>"

definition samplePair :: KeyValue where
  "samplePair = \<lparr>Key = ''a'', Value = ''1''\<rparr>"

definition sampleMapTask :: "32 word \<Rightarrow> string \<Rightarrow> MRTask" where
  "sampleMapTask k f =
     \<lparr>WorkerID = 1, TaskID = k, NReduce = 1, Phase = MapPhase, Filename = f,
      task_State = TaskStateSending, BeatTime = 0\<rparr>"

definition sampleReduceTask :: MRTask where
  "sampleReduceTask = (sampleMapTask 3 (reducePattern 0))\<lparr>Phase := ReducePhase\<rparr>"

definition sampleDisk :: WState where
  "sampleDisk = \<lparr>w_disk = [(''f1'', ''a''), (''f2'', ''a'')], reports = []\<rparr>"

theorem distributed_matches_sequential_witness:
  "\<exists>lines (part :: nat \<Rightarrow> string list).
     mrsequential sampleOS (sort_key Key) (\<lambda>f c. Inr [samplePair]) (\<lambda>k vs. Inr (itoa (length vs)))
       [''f1'', ''f2''] sampleDisk = Inr (putFile ''mr-out-0'' (concat lines) sampleDisk) \<and>
     map_of (w_disk (workLoop sampleOS (sort_key Key) (\<lambda>kvs. replicate (length kvs) CHR ''x'')
         (\<lambda>s. Some (replicate (length s) samplePair)) (\<lambda>f c. Inr [samplePair])
         (\<lambda>k vs. Inr (itoa (length vs)))
         [sampleMapTask 1 ''f1'', sampleMapTask 2 ''f2'', sampleReduceTask] sampleDisk))
       (''mr-out.'' @ itoa 0) = Some (concat (part 0)) \<and>
     mset (part 0) = mset lines"
proof -
  have rep: "kvs = replicate (length kvs) samplePair" if "\<forall>kv \<in> set kvs. kv = samplePair" for kvs
    using that by (simp add: replicate_length_same)
  have no: "\<not> matchName (reducePattern i) name" if "name \<in> set (map fst (w_disk sampleDisk))" for name i
    using that by (auto simp: matchName_reducePattern sampleDisk_def)
  have perm: "perm_invariant (\<lambda>k vs. itoa (length vs))"
    by (auto simp: perm_invariant_def dest: mset_eq_length)
  have "\<exists>lines part.
     mrsequential sampleOS (sort_key Key) (\<lambda>f c. Inr [samplePair]) (\<lambda>k vs. Inr (itoa (length vs)))
       (map Filename [sampleMapTask 1 ''f1'', sampleMapTask 2 ''f2'']) sampleDisk =
       Inr (putFile ''mr-out-0'' (concat lines) sampleDisk) \<and>
     (\<forall>i < 1. map_of (w_disk (workLoop sampleOS (sort_key Key) (\<lambda>kvs. replicate (length kvs) CHR ''x'')
         (\<lambda>s. Some (replicate (length s) samplePair)) (\<lambda>f c. Inr [samplePair])
         (\<lambda>k vs. Inr (itoa (length vs)))
         ([sampleMapTask 1 ''f1'', sampleMapTask 2 ''f2''] @ [sampleReduceTask]) sampleDisk))
       (''mr-out.'' @ itoa i) = Some (concat (part i))) \<and>
     mset (concat (map part [0..<1])) = mset lines"
    by (rule distributed_matches_sequential [where V = "\<lambda>kv. kv = samplePair" and
          out = "\<lambda>_. [samplePair]" and g = "\<lambda>k vs. itoa (length vs)"])
       (use no perm rep key_sort.key_sorter_axioms in \<open>auto simp: good_os_def sampleOS_def
          mapTasks_def sampleMapTask_def sampleReduceTask_def disk_ok_def sampleDisk_def\<close>)
  then show ?thesis by (simp add: sampleMapTask_def del: workLoop.simps)
qed

end
