(* ===== verification/MR_Steps.thy ===== *)
theory MR_Steps
  imports MR_Job
begin

text \<open>
  The tasks of \<open>mr/worker.go\<close> write by write. A worker may die, or another may start on the same task, between
  any two writes, so a task is split into what it computes from the files it reads and the list of its operations on files. Carrying out all of
  them is \<open>doMap\<close> or \<open>doReduce\<close>.
\<close>

section \<open>Operations on files\<close>

text \<open>\<open>os.Create\<close> truncates; a write goes to the offset of the open file, behind a gap of zeros if the file has become shorter.\<close>

datatype fop = CreateFile string | WriteAt string nat string

fun opName :: "fop \<Rightarrow> string" where
  "opName (CreateFile name) = name"
| "opName (WriteAt name off s) = name"

definition overwrite :: "nat \<Rightarrow> string \<Rightarrow> string \<Rightarrow> string" where
  "overwrite off s c = take off (c @ replicate (off - length c) (CHR 0x00)) @ s @ drop (off + length s) c"

fun runOp :: "fop \<Rightarrow> WState \<Rightarrow> WState" where
  "runOp (CreateFile name) w = putFile name [] w"
| "runOp (WriteAt name off s) w =
     (case map_of (w_disk w) name of None \<Rightarrow> w | Some c \<Rightarrow> putFile name (overwrite off s c) w)"

definition runOps :: "fop list \<Rightarrow> WState \<Rightarrow> WState" where
  "runOps ops w = fold runOp ops w"

lemma runOps_simps [simp]:
  "runOps [] w = w" "runOps (op # ops) w = runOps ops (runOp op w)"
  by (simp_all add: runOps_def)

lemma runOps_append: "runOps (xs @ ys) w = runOps ys (runOps xs w)"
  by (simp add: runOps_def)

section \<open>The tasks\<close>

text \<open>The application and the parts of the system a worker relies on.\<close>

record App =
  a_os :: OS
  a_srt :: "KeyValue list \<Rightarrow> KeyValue list"
  a_enc :: "KeyValue list \<Rightarrow> string"
  a_dec :: "string \<Rightarrow> KeyValue list option"
  a_mapf :: "string \<Rightarrow> string \<Rightarrow> KeyValue list res"
  a_reducef :: "string \<Rightarrow> string list \<Rightarrow> string res"

definition bucketOps :: "(KeyValue list \<Rightarrow> string) \<Rightarrow> 32 word \<Rightarrow> nat \<Rightarrow> KeyValue list \<Rightarrow> fop list" where
  "bucketOps enc k i kvs = [CreateFile (bucketName k i), WriteAt (bucketName k i) 0 (enc kvs)]"

definition mapOps :: "App \<Rightarrow> MRTask \<Rightarrow> WState \<Rightarrow> fop list option" where
  "mapOps A t w =
     (case readFile (a_os A) (Filename t) w of
        None \<Rightarrow> None
      | Some content \<Rightarrow>
          (case rbind (a_mapf A (Filename t) content) (\<lambda>kvs.
                  rbind (go_make (NReduce t) []) (distribute (NReduce t) (a_srt A kvs))) of
             Inl panic \<Rightarrow> None
           | Inr reduces \<Rightarrow>
               Some (concat (map (\<lambda>i. bucketOps (a_enc A) (TaskID t) i (reduces ! i)) [0..<length reduces]))))"

fun lineOps :: "string \<Rightarrow> nat \<Rightarrow> string list \<Rightarrow> fop list" where
  "lineOps name off [] = []"
| "lineOps name off (l # ls) = WriteAt name off l # lineOps name (off + length l) ls"

definition reduceOps :: "App \<Rightarrow> MRTask \<Rightarrow> WState \<Rightarrow> fop list option" where
  "reduceOps A t w =
     (let oName = ''mr-out.'' @ last (splitOn (CHR ''-'') (Filename t)) in
      case Glob (Filename t) w of
        None \<Rightarrow> None
      | Some fs \<Rightarrow>
          (case readBuckets (a_os A) (a_dec A) w fs [] of
             None \<Rightarrow> None
           | Some intermediate \<Rightarrow>
               (case reduceLoop (a_reducef A) (a_srt A intermediate) 0 [] of
                  (out, panicked) \<Rightarrow> Some (CreateFile oName # lineOps oName 0 out))))"

definition taskOps :: "App \<Rightarrow> MRTask \<Rightarrow> WState \<Rightarrow> fop list option" where
  "taskOps A t w = (case Phase t of MapPhase \<Rightarrow> mapOps A t w | ReducePhase \<Rightarrow> reduceOps A t w)"

section \<open>Carrying out a task\<close>

lemma overwrite_end: "off = length c \<Longrightarrow> overwrite off s c = c @ s"
  by (simp add: overwrite_def)

lemma putFile_put [simp]: "putFile n c (putFile n b w) = putFile n c w"
proof -
  have "AList.update n c (AList.update n b xs) = AList.update n c xs" for xs :: "(string \<times> string) list"
    by (induction xs) auto
  then show ?thesis by (simp add: putFile_def)
qed

lemma runOps_lines:
  assumes "map_of (w_disk w) name = Some c" "off = length c"
  shows "runOps (lineOps name off ls) w = putFile name (c @ concat ls) w"
  using assms
proof (induction ls arbitrary: c off w)
  case Nil
  have "AList.update name c xs = xs" if "map_of xs name = Some c" for xs :: "(string \<times> string) list"
    using that by (induction xs) (auto split: if_splits)
  with Nil show ?case by (simp add: putFile_def)
next
  case (Cons l ls)
  then show ?case by (simp add: overwrite_end putFile_lookup Cons.IH [of _ "c @ l"])
qed

lemma runOps_bucket:
  "runOps (bucketOps enc k i kvs) w = putFile (bucketName k i) (enc kvs) (putFile (bucketName k i) [] w)"
  by (simp add: bucketOps_def putFile_lookup overwrite_def)

lemma writeBuckets_runOps:
  assumes "good_os os"
  shows "\<exists>ns. writeBuckets os enc t idx bs names w =
    (runOps (concat (map (\<lambda>i. bucketOps enc (TaskID t) (idx + i) (bs ! i)) [0..<length bs])) w, ns, None)"
proof (induction bs arbitrary: idx names w)
  case (Cons b bs)
  have "map (\<lambda>i. bucketOps enc (TaskID t) (idx + i) ((b # bs) ! i)) [0..<length (b # bs)] =
      bucketOps enc (TaskID t) idx b # map (\<lambda>i. bucketOps enc (TaskID t) (idx + 1 + i) (bs ! i)) [0..<length bs]"
    by (simp add: upt_conv_Cons map_Suc_upt [symmetric] del: upt_Suc)
  then show ?case
    using Cons.IH [of "idx + 1" "names @ [bucketName (TaskID t) idx]"] assms
    by (simp add: good_os_def Let_def runOps_append runOps_bucket)
qed simp

lemma mapOps_doMap:
  assumes "good_os (a_os A)" "mapOps A t w = Some ops"
  shows "\<exists>names. doMap (a_os A) (a_srt A) (a_enc A) (a_mapf A) t w = (runOps ops w, names, None)"
proof -
  from assms(2) obtain content kvs reduces0 reduces where r: "readFile (a_os A) (Filename t) w = Some content"
    "a_mapf A (Filename t) content = Inr kvs" "go_make (NReduce t) [] = Inr reduces0"
    "distribute (NReduce t) (a_srt A kvs) reduces0 = Inr reduces"
    "ops = concat (map (\<lambda>i. bucketOps (a_enc A) (TaskID t) i (reduces ! i)) [0..<length reduces])"
    by (auto simp: mapOps_def split: option.splits sum.splits)
  then have "doMap (a_os A) (a_srt A) (a_enc A) (a_mapf A) t w = writeBuckets (a_os A) (a_enc A) t 0 reduces [] w"
    by (simp add: doMap_def)
  with writeBuckets_runOps [OF assms(1), of "a_enc A" t 0 reduces "[]" w] r(5) show ?thesis by simp
qed

text \<open>Also after a panic of \<open>reducef\<close> the lines written before it stay in the file.\<close>

lemma reduceOps_doReduce:
  assumes "good_os (a_os A)"
  shows "case reduceOps A t w of
      Some ops \<Rightarrow> w_disk (fst (doReduce (a_os A) (a_srt A) (a_dec A) (a_reducef A) t w)) = w_disk (runOps ops w) \<and>
        snd (doReduce (a_os A) (a_srt A) (a_dec A) (a_reducef A) t w) = None
    | None \<Rightarrow> snd (doReduce (a_os A) (a_srt A) (a_dec A) (a_reducef A) t w) \<noteq> None"
proof -
  let ?o = "''mr-out.'' @ last (splitOn (CHR ''-'') (Filename t))"
  have "runOps (CreateFile ?o # lineOps ?o 0 out) w = putFile ?o (concat out) w" for out
    using runOps_lines [of "putFile ?o [] w" ?o "[]" 0 out] by (simp add: putFile_lookup)
  then show ?thesis
    using assms
    by (auto simp: reduceOps_def doReduce_def Let_def good_os_def split: option.splits prod.splits)
qed

section \<open>File by file\<close>

text \<open>What a list of operations makes of one file.\<close>

fun onFile :: "string \<Rightarrow> fop \<Rightarrow> string option \<Rightarrow> string option" where
  "onFile n (CreateFile name) c = (if n = name then Some [] else c)"
| "onFile n (WriteAt name off s) c = (if n = name then map_option (overwrite off s) c else c)"

lemma runOp_file: "map_of (w_disk (runOp op w)) n = onFile n op (map_of (w_disk w) n)"
  by (cases op) (auto simp: putFile_lookup split: option.split)

lemma runOps_file: "map_of (w_disk (runOps ops w)) n = fold (onFile n) ops (map_of (w_disk w) n)"
  by (induction ops arbitrary: w) (simp_all add: runOp_file)

lemma runOp_other: "n \<noteq> opName op \<Longrightarrow> map_of (w_disk (runOp op w)) n = map_of (w_disk w) n"
  unfolding runOp_file by (cases op) auto

lemma runOp_ok: "disk_ok w \<Longrightarrow> disk_ok (runOp op w)"
  by (cases op) (auto split: option.split)

lemma runOps_other:
  assumes "n \<noteq> opName op"
  shows "map_of (w_disk (runOps ops (runOp op w))) n = map_of (w_disk (runOps ops w)) n"
  using runOp_other [OF assms] by (simp add: runOps_file)

lemma opName_lines: "op \<in> set (lineOps name off ls) \<Longrightarrow> opName op = name"
  by (induction ls arbitrary: off) auto

end
