(* ===== verification/MR_Results.thy ===== *)
theory MR_Results
  imports MR_Steps
begin

text \<open>
  What a task is to leave on the disk, for a job on the input files \<open>F\<close> with \<open>N\<close> reduce tasks, and that the operations of the task, computed from a disk on
  which it may start, leave exactly that.
\<close>

section \<open>The files of a task\<close>

definition outName :: "nat \<Rightarrow> string" where
  "outName i = ''mr-out.'' @ itoa i"

definition mine :: "nat \<Rightarrow> MRTask \<Rightarrow> string \<Rightarrow> bool" where
  "mine N t name \<longleftrightarrow>
     (case Phase t of
        MapPhase \<Rightarrow> \<exists>i<N. name = bucketName (TaskID t) i
      | ReducePhase \<Rightarrow> \<exists>i<N. Filename t = reducePattern i \<and> name = outName i)"

definition mapBucket :: "App \<Rightarrow> nat \<Rightarrow> (string \<Rightarrow> KeyValue list) \<Rightarrow> MRTask \<Rightarrow> nat \<Rightarrow> KeyValue list" where
  "mapBucket A N out t i = bucket (int N) (a_srt A (out (Filename t))) i"

definition outLines :: "(string \<Rightarrow> string list \<Rightarrow> string) \<Rightarrow> nat \<Rightarrow> KeyValue list \<Rightarrow> nat \<Rightarrow> string list" where
  "outLines g N kvs i = (let kvs = bucket (int N) kvs i in map (mergedLine g kvs) (keysOf kvs))"

definition complete :: "App \<Rightarrow> string list \<Rightarrow> nat \<Rightarrow> (string \<Rightarrow> KeyValue list) \<Rightarrow> (string \<Rightarrow> string list \<Rightarrow> string)
    \<Rightarrow> MRTask \<Rightarrow> WState \<Rightarrow> bool" where
  "complete A F N out g t w \<longleftrightarrow>
     (case Phase t of
        MapPhase \<Rightarrow> \<forall>i<N. map_of (w_disk w) (bucketName (TaskID t) i) = Some (a_enc A (mapBucket A N out t i))
      | ReducePhase \<Rightarrow> \<forall>i<N. Filename t = reducePattern i \<longrightarrow>
          map_of (w_disk w) (outName i) = Some (concat (outLines g N (concat (map out F)) i)))"

lemma reducePattern_inj [simp]: "reducePattern i = reducePattern j \<longleftrightarrow> i = j"
  by (metis idx_of_pattern itoa_inj)

lemma outName_inj [simp]: "outName i = outName j \<longleftrightarrow> i = j"
  by (simp add: outName_def)

lemma outName_bucket [simp]: "outName i \<noteq> bucketName k j" "bucketName k j \<noteq> outName i"
  using out_name_no_bucket [of i k j] by (auto simp: outName_def)

lemma mine_same: "same_task t u \<Longrightarrow> mine N t n = mine N u n"
  by (simp add: mine_def same_task_def split: MRPhase.split)

lemma complete_same: "same_task t u \<Longrightarrow> complete A F N out g t w = complete A F N out g u w"
  by (simp add: complete_def same_task_def mapBucket_def split: MRPhase.split)

lemma complete_cong:
  assumes "complete A F N out g t w" "\<And>n. mine N t n \<Longrightarrow> map_of (w_disk w') n = map_of (w_disk w) n"
  shows "complete A F N out g t w'"
  using assms by (auto simp: complete_def mine_def split: MRPhase.splits)

section \<open>A job whose parts work\<close>

definition goodJob :: "App \<Rightarrow> string list \<Rightarrow> nat \<Rightarrow> WState \<Rightarrow> (string \<Rightarrow> KeyValue list)
    \<Rightarrow> (string \<Rightarrow> string list \<Rightarrow> string) \<Rightarrow> bool" where
  "goodJob A F N w0 out g \<longleftrightarrow>
     good_os (a_os A) \<and> key_sorter (a_srt A) \<and> 0 < N \<and>
     (\<forall>f\<in>set F. \<exists>c. map_of (w_disk w0) f = Some c \<and> a_mapf A f c = Inr (out f)) \<and>
     (\<forall>t i. Filename t \<in> set F \<longrightarrow> a_dec A (a_enc A (mapBucket A N out t i)) = Some (mapBucket A N out t i)) \<and>
     (\<forall>k vs. a_reducef A k vs = Inr (g k vs)) \<and> perm_invariant g \<and> disk_ok w0 \<and>
     (\<forall>n \<in> dom (map_of (w_disk w0)). \<forall>i<N. \<not> matchName (reducePattern i) n) \<and>
     (\<forall>f\<in>set F. \<forall>i<N. f \<noteq> outName i)"

lemma goodJobD:
  assumes "goodJob A F N w0 out g"
  shows "good_os (a_os A)" "key_sorter (a_srt A)" "0 < N"
    "f \<in> set F \<Longrightarrow> \<exists>c. map_of (w_disk w0) f = Some c \<and> a_mapf A f c = Inr (out f)"
    "Filename t \<in> set F \<Longrightarrow> a_dec A (a_enc A (mapBucket A N out t i)) = Some (mapBucket A N out t i)"
    "a_reducef A k vs = Inr (g k vs)" "perm_invariant g" "disk_ok w0"
    "n \<in> dom (map_of (w_disk w0)) \<Longrightarrow> i < N \<Longrightarrow> \<not> matchName (reducePattern i) n"
    "f \<in> set F \<Longrightarrow> i < N \<Longrightarrow> f \<noteq> outName i"
  using assms unfolding goodJob_def by (elim conjE; blast)+

text \<open>No task writes to an input file.\<close>

lemma input_not_mine:
  assumes "goodJob A F N w0 out g" "f \<in> set F"
  shows "\<not> mine N t f"
proof -
  from goodJobD(4) [OF assms] have "f \<in> dom (map_of (w_disk w0))" by blast
  then have "f \<noteq> bucketName (TaskID t) i" if "i < N" for i
    using goodJobD(9) [OF assms(1) _ that] matchName_bucket [of i "TaskID t" i] by metis
  with goodJobD(10) [OF assms] show ?thesis by (auto simp: mine_def split: MRPhase.splits)
qed

section \<open>Map tasks\<close>

lemma fold_bucketOps:
  "\<forall>i\<in>set is. n \<noteq> bucketName k i \<Longrightarrow>
     fold (onFile n) (concat (map (\<lambda>i. bucketOps enc k i (bs i)) is)) c = c"
  by (induction "is" arbitrary: c) (auto simp: bucketOps_def)

lemma fold_bucketOps_own:
  assumes "j < b"
  shows "fold (onFile (bucketName k j)) (concat (map (\<lambda>i. bucketOps enc k i (bs i)) [0..<b])) c = Some (enc (bs j))"
proof -
  have "[0..<b] = [0..<j] @ [j..<b]" using assms upt_add_eq_append [of 0 j "b - j"] by simp
  then have e: "[0..<b] = [0..<j] @ j # [Suc j..<b]" using assms upt_conv_Cons by simp
  show ?thesis unfolding e by (simp add: fold_bucketOps) (simp add: bucketOps_def overwrite_def)
qed

lemma begin_map:
  assumes G: "goodJob A F N w0 out g" and t: "Phase t = MapPhase" "NReduce t = int N" "Filename t \<in> set F"
    and w: "map_of (w_disk w) (Filename t) = map_of (w_disk w0) (Filename t)"
  shows "\<exists>ops. taskOps A t w = Some ops \<and> (\<forall>op\<in>set ops. mine N t (opName op)) \<and> complete A F N out g t (runOps ops w)"
proof -
  let ?b = "mapBucket A N out t"
  let ?ops = "concat (map (\<lambda>i. bucketOps (a_enc A) (TaskID t) i (?b i)) [0..<N])"
  from goodJobD(4) [OF G t(3)] w obtain c where c: "map_of (w_disk w) (Filename t) = Some c"
    "a_mapf A (Filename t) c = Inr (out (Filename t))" by auto
  have "distribute (int N) (a_srt A (out (Filename t))) (replicate N []) = Inr (map ?b [0..<N])"
    using distribute_buckets [of "int N" "replicate N []" "a_srt A (out (Filename t))"] goodJobD(3) [OF G]
    by (simp add: mapBucket_def [abs_def])
  then have "taskOps A t w = Some (concat (map (\<lambda>i. bucketOps (a_enc A) (TaskID t) i (map ?b [0..<N] ! i)) [0..<N]))"
    using c t(1,2) goodJobD(1) [OF G] by (simp add: taskOps_def mapOps_def readFile_def good_os_def go_make_def)
  also have "map (\<lambda>i. bucketOps (a_enc A) (TaskID t) i (map ?b [0..<N] ! i)) [0..<N] =
      map (\<lambda>i. bucketOps (a_enc A) (TaskID t) i (?b i)) [0..<N]"
    by (rule map_cong) auto
  finally have "taskOps A t w = Some ?ops" .
  moreover have "\<forall>op\<in>set ?ops. mine N t (opName op)" using t(1) by (auto simp: mine_def bucketOps_def)
  moreover have "complete A F N out g t (runOps ?ops w)"
    using t(1) by (simp add: complete_def runOps_file fold_bucketOps_own)
  ultimately show ?thesis by blast
qed

section \<open>Reduce tasks\<close>

lemma begin_reduce:
  assumes G: "goodJob A F N w0 out g" and r: "Phase r = ReducePhase" "Filename r = reducePattern i" "i < N"
    and D: "bucketsOnDisk (a_enc A) (mapBucket A N out) N ts w" "distinct (map TaskID ts)" "mset (map Filename ts) = mset F"
  shows "\<exists>ops. taskOps A r w = Some ops \<and> (\<forall>op\<in>set ops. mine N r (opName op)) \<and> complete A F N out g r (runOps ops w)"
proof -
  let ?all = "concat (map out F)"
  let ?do = "doReduce (a_os A) (a_srt A) (a_dec A) (a_reducef A) r w"
  have inF: "Filename t \<in> set F" if "t \<in> set ts" for t
    using that D(3) by (metis image_eqI list.set_map mset_eq_setD)
  have perm: "mset (concat (map (\<lambda>t. mapBucket A N out t i) ts)) = mset (bucket (int N) ?all i)"
  proof -
    have "mset (concat (map out (map Filename ts))) = mset ?all" 
      using mset_concat_perm [OF D(3) [symmetric], of out "\<lambda>t. out (Filename t)"] by (simp add: comp_def)
    then have "mset (bucket (int N) (concat (map out (map Filename ts))) i) = mset (bucket (int N) ?all i)"
      unfolding bucket_def mset_filter by simp
    then show ?thesis unfolding mapBucket_def mset_buckets [OF goodJobD(2) [OF G]] .
  qed
  have run: "?do = (putFile (outName i) (concat (outLines g N ?all i)) w, None)"
    unfolding outName_def outLines_def Let_def
    by (rule key_sorter.doReduce_merge [OF goodJobD(2) [OF G] goodJobD(1) [OF G] goodJobD(7) [OF G] goodJobD(6) [OF G]
          r(2,3) D(1,2) goodJobD(5) [OF G inF] perm])
  then obtain ops where ops: "reduceOps A r w = Some ops" "w_disk (fst ?do) = w_disk (runOps ops w)"
    using reduceOps_doReduce [OF goodJobD(1) [OF G], of r w] by (auto split: option.splits)
  from ops(1) have "\<forall>op\<in>set ops. opName op = outName i"
    by (auto simp: reduceOps_def Let_def outName_def r(2) idx_of_pattern split: option.splits prod.splits dest: opName_lines)
  moreover have "map_of (w_disk (runOps ops w)) (outName i) = Some (concat (outLines g N ?all i))"
    using ops(2) run by (metis fst_conv fun_upd_same putFile_lookup)
  ultimately show ?thesis using ops(1) r by (auto simp: taskOps_def mine_def complete_def)
qed

end
