(* ===== verification/MR_Crew.thy ===== *)
theory MR_Crew
  imports MR_Results
begin

text \<open>
  The workers of a job. A worker (\<open>Worker\<close> of \<open>mr/worker.go\<close>) asks for a task, reports it running, carries
  it out write by write and reports it finished; it may die at any point. The master's handler of its \<open>GetTask\<close> outlives it. Which files belong to a task, and when they are complete, is
  an interface (\<open>task_files\<close>); the invariant of the workers is proved over it.
\<close>

section \<open>Workers\<close>

text \<open>
  Where a worker stands. While it is in \<open>GetTask\<close>, the master runs a handler for it: \<open>Asking\<close> before the handler has looked for a task to retry, \<open>Blocked\<close> when it found none and
  waits for a file on the channel, \<open>Fetched\<close> when it has received one. The flag says whether the worker still waits for the answer; if it has died or its call has timed out,
  the handler goes on alone. Then the worker has a task that it is about to report as running, has made the report, or has operations on
  files still to do. \<open>Stopped\<close> is the end.
\<close>

datatype wpc =
    Asking bool
  | Blocked bool
  | Fetched bool MRArgs string
  | Got MRTask
  | Started MRTask
  | Writing MRTask "fop list"
  | Stopped

text \<open>What a worker's death leaves: its handler, if there is one.\<close>

fun died :: "wpc \<Rightarrow> wpc" where
  "died (Asking a) = Asking False"
| "died (Blocked a) = Blocked False"
| "died (Fetched a args f) = Fetched False args f"
| "died _ = Stopped"

text \<open>The handler answers with a task; nobody gets it if the worker is gone.\<close>

definition answered :: "bool \<Rightarrow> MRTask \<Rightarrow> wpc" where
  "answered a t = (if a then Got t else Stopped)"

fun holding :: "wpc \<Rightarrow> MRTask option" where
  "holding (Got t) = Some t"
| "holding (Started t) = Some t"
| "holding (Writing t ops) = Some t"
| "holding _ = None"

definition unheld :: "wpc list \<Rightarrow> 32 word \<Rightarrow> bool" where
  "unheld W k \<longleftrightarrow> (\<forall>p\<in>set W. case holding p of None \<Rightarrow> True | Some t \<Rightarrow> TaskID t \<noteq> k)"

lemma died_simps [simp]: "holding (died p) = None" "died p \<noteq> Writing t ops"
  by (cases p; simp)+

lemma unheldD: "unheld W k \<Longrightarrow> i < length W \<Longrightarrow> holding (W ! i) = Some t \<Longrightarrow> TaskID t \<noteq> k"
  by (fastforce simp: unheld_def all_set_conv_all_nth)

lemma unheldI: "(\<And>i t. i < length W \<Longrightarrow> holding (W ! i) = Some t \<Longrightarrow> TaskID t \<noteq> k) \<Longrightarrow> unheld W k"
  by (simp add: unheld_def all_set_conv_all_nth split: option.split)

section \<open>The invariant of the workers\<close>

text \<open>
  \<open>T\<close> is the table of the master, \<open>B\<close> the heartbeats it is handling, \<open>W\<close> the workers, \<open>w\<close> the disk. A task that a worker has is in the table and not
  finished; no two workers have the same; what the table or a heartbeat calls finished is complete and nobody
  works on it; a worker's remaining operations concern files of its task and make it complete.
\<close>

definition work_inv :: "(MRTask \<Rightarrow> string \<Rightarrow> bool) \<Rightarrow> (MRTask \<Rightarrow> WState \<Rightarrow> bool) \<Rightarrow> (32 word \<Rightarrow> MRTask option)
    \<Rightarrow> (32 word \<times> MRTask) list \<Rightarrow> wpc list \<Rightarrow> WState \<Rightarrow> bool" where
  "work_inv own cpl T B W w \<longleftrightarrow>
     (\<forall>i<length W. \<forall>t. holding (W ! i) = Some t \<longrightarrow>
        (\<exists>u. T (TaskID t) = Some u \<and> same_task u t \<and> task_State u \<noteq> TaskStateFinish)) \<and>
     (\<forall>i<length W. \<forall>j<length W. \<forall>t u. holding (W ! i) = Some t \<longrightarrow> holding (W ! j) = Some u \<longrightarrow>
        TaskID t = TaskID u \<longrightarrow> i = j) \<and>
     (\<forall>k v. (k, v) \<in> set B \<longrightarrow> task_State v = TaskStateFinish \<longrightarrow> cpl v w \<and> unheld W k) \<and>
     (\<forall>k t. T k = Some t \<longrightarrow> task_State t = TaskStateFinish \<longrightarrow> cpl t w) \<and>
     (\<forall>i<length W. \<forall>t ops. W ! i = Writing t ops \<longrightarrow> (\<forall>op\<in>set ops. own t (opName op)) \<and> cpl t (runOps ops w))"

lemma work_invD:
  assumes "work_inv own cpl T B W w"
  shows "i < length W \<Longrightarrow> holding (W ! i) = Some t \<Longrightarrow>
      \<exists>u. T (TaskID t) = Some u \<and> same_task u t \<and> task_State u \<noteq> TaskStateFinish"
    "i < length W \<Longrightarrow> j < length W \<Longrightarrow> holding (W ! i) = Some t \<Longrightarrow> holding (W ! j) = Some u \<Longrightarrow>
      TaskID t = TaskID u \<Longrightarrow> i = j"
    "(k, v) \<in> set B \<Longrightarrow> task_State v = TaskStateFinish \<Longrightarrow> cpl v w"
    "(k, v) \<in> set B \<Longrightarrow> task_State v = TaskStateFinish \<Longrightarrow> unheld W k"
    "T k = Some t \<Longrightarrow> task_State t = TaskStateFinish \<Longrightarrow> cpl t w"
    "i < length W \<Longrightarrow> W ! i = Writing t ops \<Longrightarrow> op \<in> set ops \<Longrightarrow> own t (opName op)"
    "i < length W \<Longrightarrow> W ! i = Writing t ops \<Longrightarrow> cpl t (runOps ops w)"
  using assms unfolding work_inv_def by (elim conjE; blast)+

lemma work_invI:
  assumes "\<And>i t. i < length W \<Longrightarrow> holding (W ! i) = Some t \<Longrightarrow>
      \<exists>u. T (TaskID t) = Some u \<and> same_task u t \<and> task_State u \<noteq> TaskStateFinish"
    "\<And>i j t u. i < length W \<Longrightarrow> j < length W \<Longrightarrow> holding (W ! i) = Some t \<Longrightarrow> holding (W ! j) = Some u \<Longrightarrow>
      TaskID t = TaskID u \<Longrightarrow> i = j"
    "\<And>k v. (k, v) \<in> set B \<Longrightarrow> task_State v = TaskStateFinish \<Longrightarrow> cpl v w"
    "\<And>k v. (k, v) \<in> set B \<Longrightarrow> task_State v = TaskStateFinish \<Longrightarrow> unheld W k"
    "\<And>k t. T k = Some t \<Longrightarrow> task_State t = TaskStateFinish \<Longrightarrow> cpl t w"
    "\<And>i t ops op. i < length W \<Longrightarrow> W ! i = Writing t ops \<Longrightarrow> op \<in> set ops \<Longrightarrow> own t (opName op)"
    "\<And>i t ops. i < length W \<Longrightarrow> W ! i = Writing t ops \<Longrightarrow> cpl t (runOps ops w)"
  shows "work_inv own cpl T B W w"
  unfolding work_inv_def by (intro conjI allI impI ballI) (fact assms | (rule assms; assumption))+

text \<open>A finished task is not being worked on.\<close>

lemma finished_unheld:
  assumes "work_inv own cpl T B W w" "T k = Some t" "task_State t = TaskStateFinish"
  shows "unheld W k"
proof (rule unheldI)
  fix i u assume "i < length W" "holding (W ! i) = Some u"
  from work_invD(1) [OF assms(1) this] assms(2,3) show "TaskID u \<noteq> k" by auto
qed

text \<open>A step of the master: a task may become finished only if it is complete and nobody works on it.\<close>

lemma work_table:
  assumes inv: "work_inv own cpl T B W w"
    and keep: "\<And>k t. T k = Some t \<Longrightarrow> \<exists>u. T' k = Some u \<and> same_task t u \<and>
        (task_State u = TaskStateFinish \<longrightarrow> task_State t = TaskStateFinish \<or> unheld W k)"
    and fin: "\<And>k t. T' k = Some t \<Longrightarrow> task_State t = TaskStateFinish \<Longrightarrow> cpl t w"
    and beats: "\<And>k v. (k, v) \<in> set B' \<Longrightarrow> task_State v = TaskStateFinish \<Longrightarrow> cpl v w \<and> unheld W k"
  shows "work_inv own cpl T' B' W w"
proof (rule work_invI)
  fix i t assume i: "i < length W" "holding (W ! i) = Some t"
  from work_invD(1) [OF inv i] obtain u where u: "T (TaskID t) = Some u" "same_task u t" "task_State u \<noteq> TaskStateFinish" by blast
  from keep [OF u(1)] obtain v where v: "T' (TaskID t) = Some v" "same_task u v"
    "task_State v = TaskStateFinish \<longrightarrow> task_State u = TaskStateFinish \<or> unheld W (TaskID t)" by blast
  have "task_State v \<noteq> TaskStateFinish" using v(3) u(3) unheldD [OF _ i] by blast
  with u(2) v show "\<exists>u. T' (TaskID t) = Some u \<and> same_task u t \<and> task_State u \<noteq> TaskStateFinish"
    by (metis same_task_sym same_task_trans)
qed (use inv fin beats in \<open>blast dest: work_invD\<close>)+

text \<open>A worker goes on to \<open>p\<close>, with the task it had or with none.\<close>

lemma unheld_update:
  assumes "unheld W k" "holding p = None \<or> (\<exists>t. holding p = Some t \<and> TaskID t \<noteq> k)"
  shows "unheld (W[i := p]) k"
proof (rule unheldI)
  fix j t assume j: "j < length (W[i := p])" "holding (W[i := p] ! j) = Some t"
  show "TaskID t \<noteq> k"
  proof (cases "j = i")
    case True
    with j assms(2) show ?thesis by auto
  next
    case False
    with j unheldD [OF assms(1)] show ?thesis by simp
  qed
qed

lemma work_move:
  assumes inv: "work_inv own cpl T B W w" and i: "i < length W"
    and p: "holding p = None \<or> holding p = holding (W ! i)"
    and ops: "\<And>t ops. p = Writing t ops \<Longrightarrow> (\<forall>op\<in>set ops. own t (opName op)) \<and> cpl t (runOps ops w)"
  shows "work_inv own cpl T B (W[i := p]) w"
proof -
  have h: "holding (W ! j) = Some t" if "holding (W[i := p] ! j) = Some t" "j < length W" for j t
    using that p by (cases "j = i") auto
  have wr: "(\<forall>op\<in>set ops. own t (opName op)) \<and> cpl t (runOps ops w)" if "j < length W" "W[i := p] ! j = Writing t ops" for j t ops
  proof (cases "j = i")
    case True
    with that ops show ?thesis by simp
  next
    case False
    with that work_invD(6,7) [OF inv] show ?thesis by simp
  qed
  have un: "unheld (W[i := p]) k" if "unheld W k" for k
    by (rule unheldI) (use h unheldD [OF that] in simp)
  show ?thesis
  proof (rule work_invI)
    fix j l t u assume "j < length (W[i := p])" "l < length (W[i := p])" "holding (W[i := p] ! j) = Some t"
      "holding (W[i := p] ! l) = Some u" "TaskID t = TaskID u"
    with h show "j = l" by (intro work_invD(2) [OF inv, of j l t u]) simp_all
  next
    fix j t assume "j < length (W[i := p])" "holding (W[i := p] ! j) = Some t"
    with h show "\<exists>u. T (TaskID t) = Some u \<and> same_task u t \<and> task_State u \<noteq> TaskStateFinish"
      by (intro work_invD(1) [OF inv]) simp_all
  qed (use inv un wr in \<open>auto dest: work_invD\<close>)
qed

text \<open>A worker receives a task that nobody has.\<close>

lemma work_receive:
  assumes inv: "work_inv own cpl T B W w" and i: "i < length W" "holding (W ! i) = None"
    and t: "T (TaskID t) = Some t" "task_State t \<noteq> TaskStateFinish" "unheld W (TaskID t)"
    and beats: "\<And>v. (TaskID t, v) \<in> set B \<Longrightarrow> task_State v \<noteq> TaskStateFinish"
  shows "work_inv own cpl T B (W[i := Got t]) w"
proof -
  have h: "j = i \<and> u = t \<or> j \<noteq> i \<and> holding (W ! j) = Some u" if "holding (W[i := Got t] ! j) = Some u" "j < length W" for j u
    using that by (cases "j = i") auto
  have un: "unheld (W[i := Got t]) k" if "unheld W k" "k \<noteq> TaskID t" for k
    by (rule unheld_update) (use that in auto)
  have wr: "W ! j = Writing u ops" if "j < length W" "W[i := Got t] ! j = Writing u ops" for j u ops
    using that by (cases "j = i") auto
  show ?thesis
  proof (rule work_invI)
    fix j u assume j: "j < length (W[i := Got t])" "holding (W[i := Got t] ! j) = Some u"
    with h [OF j(2)] t(1,2) work_invD(1) [OF inv, of j u]
    show "\<exists>v. T (TaskID u) = Some v \<and> same_task v u \<and> task_State v \<noteq> TaskStateFinish" by auto
  next
    fix j l u v assume j: "j < length (W[i := Got t])" "l < length (W[i := Got t])" "holding (W[i := Got t] ! j) = Some u"
      "holding (W[i := Got t] ! l) = Some v" "TaskID u = TaskID v"
    with h [OF j(3)] h [OF j(4)] unheldD [OF t(3), of j u] unheldD [OF t(3), of l v] work_invD(2) [OF inv, of j l u v]
    show "j = l" by auto
  next
    fix k v assume b: "(k, v) \<in> set B" "task_State v = TaskStateFinish"
    then show "cpl v w" by (rule work_invD(3) [OF inv])
    have "k \<noteq> TaskID t" using b beats by blast
    with work_invD(4) [OF inv b] show "unheld (W[i := Got t]) k" by (rule un)
  next
    fix k u assume "T k = Some u" "task_State u = TaskStateFinish"
    then show "cpl u w" by (rule work_invD(5) [OF inv])
  next
    fix j u ops op assume "j < length (W[i := Got t])" "W[i := Got t] ! j = Writing u ops" "op \<in> set ops"
    with wr work_invD(6) [OF inv, of j u ops op] show "own u (opName op)" by simp
  next
    fix j u ops assume "j < length (W[i := Got t])" "W[i := Got t] ! j = Writing u ops"
    with wr work_invD(7) [OF inv, of j u ops] show "cpl u (runOps ops w)" by simp
  qed
qed

text \<open>No two tasks of the table share a file.\<close>

definition filesApart :: "(MRTask \<Rightarrow> string \<Rightarrow> bool) \<Rightarrow> (32 word \<Rightarrow> MRTask option) \<Rightarrow> bool" where
  "filesApart own T \<longleftrightarrow> (\<forall>k l a b n. T k = Some a \<longrightarrow> T l = Some b \<longrightarrow> own a n \<longrightarrow> own b n \<longrightarrow> k = l)"

text \<open>A new worker.\<close>

lemma work_join:
  assumes inv: "work_inv own cpl T B W w"
  shows "work_inv own cpl T B (W @ [Asking a]) w"
proof -
  have h: "j < length W \<and> holding (W ! j) = Some u" if "holding ((W @ [Asking a]) ! j) = Some u" "j < length (W @ [Asking a])" for j u
    using that by (cases "j < length W") (auto simp: nth_append less_Suc_eq)
  have wr: "j < length W \<and> W ! j = Writing u ops" if "j < length (W @ [Asking a])" "(W @ [Asking a]) ! j = Writing u ops" for j u ops
    using that by (cases "j < length W") (auto simp: nth_append less_Suc_eq)
  have un: "unheld (W @ [Asking a]) k" if "unheld W k" for k using that by (simp add: unheld_def)
  show ?thesis
    by (rule work_invI) (use h wr un work_invD [OF inv] in metis)+
qed

section \<open>Files and tasks\<close>

locale task_files =
  fixes own :: "MRTask \<Rightarrow> string \<Rightarrow> bool" and cpl :: "MRTask \<Rightarrow> WState \<Rightarrow> bool"
  assumes own_same: "same_task t u \<Longrightarrow> own t n = own u n"
    and cpl_same: "same_task t u \<Longrightarrow> cpl t w = cpl u w"
    and cpl_cong: "cpl t w \<Longrightarrow> (\<And>n. own t n \<Longrightarrow> map_of (w_disk w') n = map_of (w_disk w) n) \<Longrightarrow> cpl t w'"
begin

lemma cpl_runOp:
  assumes "cpl t (runOps ops w)" "\<not> own t (opName op)"
  shows "cpl t (runOps ops (runOp op w))"
proof (rule cpl_cong [OF assms(1)])
  fix n assume "own t n"
  then show "map_of (w_disk (runOps ops (runOp op w))) n = map_of (w_disk (runOps ops w)) n"
    using assms(2) by (intro runOps_other) auto
qed

text \<open>One operation on a file, if no two tasks of the table share a file.\<close>

lemma write_elsewhere:
  assumes inv: "work_inv own cpl T B W w" and i: "i < length W" "W ! i = Writing t (op # ops)"
    and sep: "filesApart own T"
    and u: "T k = Some v" "same_task v u" "k \<noteq> TaskID t"
  shows "\<not> own u (opName op)"
proof -
  have "holding (W ! i) = Some t" using i(2) by simp
  from work_invD(1) [OF inv i(1) this] obtain e where e: "T (TaskID t) = Some e" "same_task e t" by blast
  have "own e (opName op)" using work_invD(6) [OF inv i, of op] own_same [OF e(2)] by simp
  then show ?thesis using sep e(1) u(1) own_same [OF u(2)] u(3) unfolding filesApart_def by blast
qed

text \<open>What the other workers still have to write is not disturbed.\<close>

lemma write_others:
  assumes inv: "work_inv own cpl T B W w" and i: "i < length W" "W ! i = Writing t (op # ops)"
    and sep: "filesApart own T"
    and j: "j < length W" "W ! j = Writing u ops'" "j \<noteq> i"
  shows "cpl u (runOps ops' (runOp op w))"
proof -
  have h: "holding (W ! i) = Some t" "holding (W ! j) = Some u" using i(2) j(2) by simp_all
  from work_invD(1) [OF inv j(1) h(2)] obtain v where v: "T (TaskID u) = Some v" "same_task v u" by blast
  have "TaskID u \<noteq> TaskID t" using work_invD(2) [OF inv j(1) i(1) h(2,1)] j(3) by blast
  then have "\<not> own u (opName op)" by (rule write_elsewhere [OF inv i sep v])
  then show ?thesis by (rule cpl_runOp [OF work_invD(7) [OF inv j(1,2)]])
qed

lemma work_write:
  assumes inv: "work_inv own cpl T B W w" and i: "i < length W" "W ! i = Writing t (op # ops)"
    and sep: "\<And>k l a b n. T k = Some a \<Longrightarrow> T l = Some b \<Longrightarrow> own a n \<Longrightarrow> own b n \<Longrightarrow> k = l"
    and beats: "\<And>k v. (k, v) \<in> set B \<Longrightarrow> \<exists>u. T k = Some u \<and> same_task u v"
  shows "work_inv own cpl T B (W[i := Writing t ops]) (runOp op w)" (is "work_inv own cpl T B ?W ?w")
proof (rule work_invI)
  have apart: "filesApart own T" unfolding filesApart_def using sep by blast
  note other = write_elsewhere [OF inv i apart]
  have hi: "holding (W ! i) = Some t" using i(2) by simp
  have h: "holding (?W ! j) = holding (W ! j)" if "j < length W" for j using that hi by (cases "j = i") auto
  have wr: "j = i \<and> u = t \<and> ops' = ops \<or> j \<noteq> i \<and> W ! j = Writing u ops'" if "j < length W" "?W ! j = Writing u ops'" for j u ops'
    using that by (cases "j = i") auto
  have keep: "cpl u ?w" if "cpl u w" "\<not> own u (opName op)" for u using cpl_runOp [of u "[]" w op] that by simp
  show "\<exists>v. T (TaskID u) = Some v \<and> same_task v u \<and> task_State v \<noteq> TaskStateFinish"
    if "j < length ?W" "holding (?W ! j) = Some u" for j u
    using that h work_invD(1) [OF inv, of j u] by simp
  show "j = l" if "j < length ?W" "l < length ?W" "holding (?W ! j) = Some u" "holding (?W ! l) = Some v" "TaskID u = TaskID v" for j l u v
    using that h work_invD(2) [OF inv, of j l u v] by simp
  show "cpl v ?w" "unheld ?W k" if b: "(k, v) \<in> set B" "task_State v = TaskStateFinish" for k v
  proof -
    have un: "unheld W k" using b by (rule work_invD(4) [OF inv])
    have k: "k \<noteq> TaskID t" using unheldD [OF un i(1) hi] by blast
    from beats [OF b(1)] obtain u where "T k = Some u" "same_task u v" by blast
    then show "cpl v ?w" using k by (intro keep [OF work_invD(3) [OF inv b]] other)
    show "unheld ?W k" by (rule unheld_update [OF un]) (use k in simp)
  qed
  show "cpl u ?w" if u: "T k = Some u" "task_State u = TaskStateFinish" for k u
  proof -
    have "k \<noteq> TaskID t" using u work_invD(1) [OF inv i(1) hi] by auto
    then show ?thesis by (intro keep [OF work_invD(5) [OF inv u]] other [OF u(1) same_task_refl])
  qed
  show "own u (opName a)" if "j < length ?W" "?W ! j = Writing u ops'" "a \<in> set ops'" for j u ops' a
    using that wr [of j u ops'] work_invD(6) [OF inv i, of a] work_invD(6) [OF inv, of j u ops' a] by auto
  show "cpl u (runOps ops' ?w)" if "j < length ?W" "?W ! j = Writing u ops'" for j u ops'
    using that wr [of j u ops'] work_invD(7) [OF inv i] write_others [OF inv i apart, of j u ops'] by auto
qed

end

interpretation job_files: task_files "mine N" "complete A F N out g" for N A F out g
  by unfold_locales (fact mine_same complete_same | (rule complete_cong; assumption))+

end
