(* ===== verification/MR_Schedule.thy ===== *)
theory MR_Schedule
  imports MR_Master
begin

text \<open>
  The master at work: the RPC handlers, the scheduler and the watch over the heartbeats run as goroutines
  of one process. \<open>WorkerHeartBeat\<close> takes two steps, \<open>Load\<close> and \<open>Store\<close>; \<open>GetTask\<close> takes the search for a task to retry, the receipt of a file and the entry into
  the table one by one. Coarser than the code are the round of \<open>handleHeartbeat\<close>, the search of \<open>GetTask\<close>, \<open>isTasksDone\<close> and
  \<open>SetTaskState\<close>: each is one step, although it holds no lock and visits or changes the table entry by entry. What can come in between is not modelled: a task may be finished after the watch has looked at
  its state and before it stores \<open>TaskStateErr\<close>, and is then done once more.
\<close>

section \<open>States and steps\<close>

record Sys =
  master :: Master
  sched :: Sched
  getting :: "(MRArgs \<times> string) list"
  beatsIn :: "(32 word \<times> MRTask) list"

datatype mevent =
    RegEv
  | DeRegEv "32 word"
  | AddReduceEv "string list"
  | SetStateEv MRArgs
  | BeatLoadEv "32 word"
  | BeatStoreEv "32 word" MRTask
  | MonitorEv
  | RetryEv MRArgs
  | RecvEv MRArgs
  | AssignEv MRArgs string
  | TickEv

definition mr_init :: "string list \<Rightarrow> int \<Rightarrow> Sys \<Rightarrow> bool" where
  "mr_init F n s \<longleftrightarrow>
     (\<exists>m. MakeMaster F n = Inr (Some m) \<and> (master s, sched s) = scheduleStart m) \<and>
     getting s = [] \<and> beatsIn s = []"

inductive mstep :: "Sys \<Rightarrow> mevent \<Rightarrow> Sys \<Rightarrow> bool" where
  reg: "sched s \<noteq> Exited \<Longrightarrow> mstep s RegEv (s\<lparr>master := fst (RegWorker (master s))\<rparr>)"
| dereg: "sched s \<noteq> Exited \<Longrightarrow>
    mstep s (DeRegEv w) (s\<lparr>master := fst (DeRegWorker w (master s))\<rparr>)"
| add_reduce: "sched s \<noteq> Exited \<Longrightarrow>
    mstep s (AddReduceEv fs) (s\<lparr>master := AddReduceTask fs (master s)\<rparr>)"
| set_state: "sched s \<noteq> Exited \<Longrightarrow>
    mstep s (SetStateEv args) (s\<lparr>master := fst (SetTaskState now args (master s))\<rparr>)"
| beat_load: "sched s \<noteq> Exited \<Longrightarrow> tid \<noteq> 0 \<Longrightarrow> heartBeatLoad tid (master s) = Some t \<Longrightarrow>
    mstep s (BeatLoadEv tid) (s\<lparr>beatsIn := (tid, t) # beatsIn s\<rparr>)"
| beat_store: "sched s \<noteq> Exited \<Longrightarrow> (tid, t) \<in> set (beatsIn s) \<Longrightarrow>
    mstep s (BeatStoreEv tid t)
      (s\<lparr>master := heartBeatStore now tid t (master s), beatsIn := remove1 (tid, t) (beatsIn s)\<rparr>)"
| monitor: "sched s \<noteq> Exited \<Longrightarrow> covers ks (master s) \<Longrightarrow>
    mstep s MonitorEv (s\<lparr>master := handleHeartbeat now ks (master s)\<rparr>)"
| retry: "sched s \<noteq> Exited \<Longrightarrow> covers ks (master s) \<Longrightarrow>
    getRetry now ks args (master s) = (m, Some t) \<Longrightarrow>
    mstep s (RetryEv args) (s\<lparr>master := m\<rparr>)"
| recv: "sched s \<noteq> Exited \<Longrightarrow> offered (master s) (sched s) = Some (f, pc) \<Longrightarrow>
    mstep s (RecvEv args) (s\<lparr>sched := pc, getting := (args, f) # getting s\<rparr>)"
| assign: "sched s \<noteq> Exited \<Longrightarrow> (args, f) \<in> set (getting s) \<Longrightarrow>
    assignTask now args f (master s) = (m, t) \<Longrightarrow>
    mstep s (AssignEv args f) (s\<lparr>master := m, getting := remove1 (args, f) (getting s)\<rparr>)"
| tick: "sched s \<noteq> Exited \<Longrightarrow> covers ks (master s) \<Longrightarrow>
    scheduleTick ks (master s) (sched s) = (m, pc) \<Longrightarrow>
    mstep s TickEv (s\<lparr>master := m, sched := pc\<rparr>)"

inductive_cases mstepE: "mstep s e t"
inductive_cases mstep_TickE: "mstep s TickEv t"

text \<open>
  The scheduler sleeps before it looks at the table, to give a \<open>GetTask\<close> that has received the
  last file the time to enter its task. A step is timely if that has happened.
\<close>

fun timely :: "Sys \<Rightarrow> mevent \<Rightarrow> bool" where
  "timely s TickEv = (case sched s of WaitMap _ \<Rightarrow> getting s = [] | WaitReduce _ \<Rightarrow> getting s = [] | _ \<Rightarrow> True)"
| "timely s _ = True"

definition timely_step :: "Sys \<Rightarrow> mevent \<Rightarrow> Sys \<Rightarrow> bool" where
  "timely_step s e t \<longleftrightarrow> mstep s e t \<and> timely s e"

text \<open>No step takes a task out of the table.\<close>

lemma mstep_keeps_tasks:
  assumes "mstep s e s'" "tasks (master s) k \<noteq> None"
  shows "tasks (master s') k \<noteq> None"
  using assms(1)
proof cases
  case (monitor ks now)
  have "same_table (master s) (handleHeartbeat now ks (master s))" by (rule same_table_handleHeartbeat)
  with assms(2) monitor same_tableD(1) show ?thesis by fastforce
next
  case (retry ks now args m t)
  have "tasks (fst (getRetry now ks args (master s))) k \<noteq> None"
    unfolding getRetry_def
    by (rule syncRange_inv [where P = "\<lambda>p. tasks (fst p) k \<noteq> None"]) (use assms(2) in \<open>auto simp: Let_def split: if_splits\<close>)
  with retry show ?thesis by simp
next
  case (tick ks m pc)
  then have "tasks m = tasks (master s)" by (cases "sched s") (auto split: if_splits)
  with tick assms(2) show ?thesis by simp
qed (use assms(2) in \<open>auto simp: RegWorker_def getWorkerID_def DeRegWorker_def putWorkerID_def AddReduceTask_def
    SetTaskState_def heartBeatStore_def assignTask_def genTaskID_def Let_def split: list.split option.split\<close>)

section \<open>What has been sent\<close>

text \<open>The items go out in order: the input files, then the patterns of the reduce tasks.\<close>

definition item :: "string list \<Rightarrow> nat \<Rightarrow> string" where
  "item F j = (if j < length F then F ! j else reducePattern (j - length F))"

definition item_phase :: "string list \<Rightarrow> nat \<Rightarrow> MRPhase" where
  "item_phase F j = (if j < length F then MapPhase else ReducePhase)"

fun sent :: "string list \<Rightarrow> nat \<Rightarrow> Sched \<Rightarrow> nat" where
  "sent F N (SendFile k) = k"
| "sent F N (SendReduce i) = length F + i"
| "sent F N (WaitReduce i) = length F + N"
| "sent F N AllDone = length F + N"
| "sent F N _ = length F"

fun mapping_phase :: "Sched \<Rightarrow> bool" where
  "mapping_phase (SendFile k) = True"
| "mapping_phase (WaitMap i) = True"
| "mapping_phase StartReduce = True"
| "mapping_phase _ = False"

definition placed :: "string list \<Rightarrow> Sys \<Rightarrow> nat \<Rightarrow> bool" where
  "placed F s j \<longleftrightarrow>
     (\<exists>a. (a, item F j) \<in> set (getting s)) \<and> item_phase F j = mrPhase (master s) \<or>
     (\<exists>k t. tasks (master s) k = Some t \<and> Filename t = item F j \<and> Phase t = item_phase F j)"

definition live_inv :: "string list \<Rightarrow> nat \<Rightarrow> Sys \<Rightarrow> bool" where
  "live_inv F N s \<longleftrightarrow>
     files (master s) = F \<and> nReduce (master s) = int N \<and> keyed (master s) \<and>
     (\<forall>k t. tasks (master s) k = Some t \<longrightarrow> k \<le> taskSeq (master s)) \<and>
     unat (taskSeq (master s)) + length (getting s) = sent F N (sched s) \<and>
     sent F N (sched s) \<le> length F + N \<and>
     (mapping_phase (sched s) \<longrightarrow> sent F N (sched s) \<le> length F) \<and>
     (mrPhase (master s) = MapPhase \<longleftrightarrow> mapping_phase (sched s)) \<and>
     (sched s = StartReduce \<or> sched s = AllDone \<longrightarrow> getting s = []) \<and>
     (\<forall>(k, v) \<in> set (beatsIn s). \<exists>t. tasks (master s) k = Some t \<and> same_task t v) \<and>
     (\<forall>j < sent F N (sched s). placed F s j)"

definition sys_inv :: "string list \<Rightarrow> nat \<Rightarrow> Sys \<Rightarrow> bool" where
  "sys_inv F N s \<longleftrightarrow> sched s = Exited \<or> (length F + N < 2 ^ 32 \<longrightarrow> live_inv F N s)"

text \<open>The bound keeps the 32-bit task numbers from wrapping around.\<close>

section \<open>Preservation\<close>

lemma placed_same:
  assumes "placed F s j" "same_table (master s) m"
  shows "placed F (s\<lparr>master := m, beatsIn := b\<rparr>) j"
  using assms(1) unfolding placed_def
proof
  assume "(\<exists>a. (a, item F j) \<in> set (getting s)) \<and> item_phase F j = mrPhase (master s)"
  with assms(2) show "(\<exists>a. (a, item F j) \<in> set (getting (s\<lparr>master := m, beatsIn := b\<rparr>))) \<and>
      item_phase F j = mrPhase (master (s\<lparr>master := m, beatsIn := b\<rparr>)) \<or>
      (\<exists>k t. tasks (master (s\<lparr>master := m, beatsIn := b\<rparr>)) k = Some t \<and> Filename t = item F j \<and>
         Phase t = item_phase F j)"
    by (simp add: same_table_def)
next
  assume "\<exists>k t. tasks (master s) k = Some t \<and> Filename t = item F j \<and> Phase t = item_phase F j"
  then obtain k t where t: "tasks (master s) k = Some t" "Filename t = item F j"
    "Phase t = item_phase F j" by blast
  obtain u where "tasks m k = Some u" "same_task t u"
    using same_tableD(1) [OF assms(2) t(1)] by blast
  with t show "(\<exists>a. (a, item F j) \<in> set (getting (s\<lparr>master := m, beatsIn := b\<rparr>))) \<and>
      item_phase F j = mrPhase (master (s\<lparr>master := m, beatsIn := b\<rparr>)) \<or>
      (\<exists>k t. tasks (master (s\<lparr>master := m, beatsIn := b\<rparr>)) k = Some t \<and> Filename t = item F j \<and>
         Phase t = item_phase F j)"
    by (intro disjI2 exI [of _ k] exI [of _ u]) (simp add: same_task_def)
qed

text \<open>A step that leaves the same tasks in the table and does not touch scheduler and channel.\<close>

lemma live_inv_same:
  assumes inv: "live_inv F N s" and m: "same_table (master s) m"
    and b: "\<And>k v. (k, v) \<in> set b \<Longrightarrow> \<exists>t. tasks m k = Some t \<and> same_task t v"
  shows "live_inv F N (s\<lparr>master := m, beatsIn := b\<rparr>)"
proof -
  have "k \<le> taskSeq m" if "tasks m k = Some t" for k t
    using same_tableD(2) [OF m that] inv m by (auto simp: live_inv_def same_table_def)
  moreover have "keyed m" using inv m keyed_same by (auto simp: live_inv_def)
  moreover have "\<forall>j < sent F N (sched s). placed F (s\<lparr>master := m, beatsIn := b\<rparr>) j"
    using inv placed_same [OF _ m] by (auto simp: live_inv_def)
  ultimately show ?thesis
    using inv m b unfolding live_inv_def same_table_def by auto
qed

lemma live_inv_beats:
  assumes "live_inv F N s" "same_table (master s) m" "(k, v) \<in> set (beatsIn s)"
  shows "\<exists>t. tasks m k = Some t \<and> same_task t v"
proof -
  from assms(1,3) obtain t where "tasks (master s) k = Some t" "same_task t v"
    unfolding live_inv_def by blast
  with same_tableD(1) [OF assms(2)] show ?thesis by (meson same_task_sym same_task_trans)
qed

lemma live_inv_master:
  assumes "live_inv F N s" "same_table (master s) m"
  shows "live_inv F N (s\<lparr>master := m\<rparr>)"
proof -
  have "live_inv F N (s\<lparr>master := m, beatsIn := beatsIn s\<rparr>)"
    using live_inv_beats [OF assms] by (intro live_inv_same [OF assms])
  then show ?thesis by simp
qed

lemma live_inv_assign:
  assumes inv: "live_inv F N s" and mem: "(args, f) \<in> set (getting s)"
    and run: "assignTask now args f (master s) = (m, t)" and B: "length F + N < 2 ^ 32"
  shows "live_inv F N (s\<lparr>master := m, getting := remove1 (args, f) (getting s)\<rparr>)"
proof -
  let ?q = "taskSeq (master s)"
  let ?t = "\<lparr>WorkerID = arg_ID args, TaskID = ?q + 1, NReduce = nReduce (master s),
      Phase = mrPhase (master s), Filename = f, task_State = TaskStateSending, BeatTime = now\<rparr>"
  let ?s = "s\<lparr>master := m, getting := remove1 (args, f) (getting s)\<rparr>"
  have m: "m = (master s)\<lparr>taskSeq := ?q + 1, tasks := (tasks (master s))(?q + 1 \<mapsto> ?t)\<rparr>"
    using run by (auto simp: assignTask_def genTaskID_def Let_def)
  have len: "length (remove1 (args, f) (getting s)) + 1 = length (getting s)"
    using mem length_pos_if_in_set [OF mem] by (simp add: length_remove1)
  have cnt: "unat ?q + length (getting s) = sent F N (sched s)" "sent F N (sched s) \<le> length F + N"
    using inv by (auto simp: live_inv_def)
  with len B have small: "unat ?q + 1 < 2 ^ 32" by linarith
  then have q1: "unat (?q + 1) = unat ?q + 1" by (simp add: unat_word_ariths)
  have up: "k \<le> ?q \<Longrightarrow> k \<le> ?q + 1" "k \<le> ?q \<Longrightarrow> k \<noteq> ?q + 1" for k
    using q1 by (auto simp: word_le_nat_alt)
  have old: "k \<noteq> ?q + 1" if "tasks (master s) k = Some u" for k u
    using inv that up(2) by (auto simp: live_inv_def)
  have pl: "placed F ?s j" if "j < sent F N (sched s)" for j
  proof -
    from inv that have "placed F s j" by (simp add: live_inv_def)
    then consider a where "(a, item F j) \<in> set (getting s)" "item_phase F j = mrPhase (master s)"
      | k u where "tasks (master s) k = Some u" "Filename u = item F j" "Phase u = item_phase F j"
      unfolding placed_def by blast
    then show ?thesis
    proof cases
      case 1
      then show ?thesis
        by (cases "item F j = f") (auto simp: placed_def m intro!: exI [of _ a])
    next
      case 2
      then have "tasks m k = Some u" using old by (simp add: m)
      with 2 show ?thesis by (auto simp: placed_def)
    qed
  qed
  have bt: "\<exists>t. tasks m k = Some t \<and> same_task t v" if "(k, v) \<in> set (beatsIn s)" for k v
    using inv that old by (fastforce simp: live_inv_def m)
  have "getting s \<noteq> []" using mem by auto
  with inv pl bt len cnt(1) q1 up(1) show ?thesis
    unfolding live_inv_def by (auto simp: m keyed_def)
qed

lemma live_inv_recv:
  assumes inv: "live_inv F N s" and o: "offered (master s) (sched s) = Some (f, pc)"
  shows "live_inv F N (s\<lparr>sched := pc, getting := (args, f) # getting s\<rparr>)"
proof -
  let ?s = "s\<lparr>sched := pc, getting := (args, f) # getting s\<rparr>"
  let ?n = "sent F N (sched s)"
  have keep: "placed F ?s j" if "placed F s j" for j
    using that by (auto simp: placed_def)
  have pc: "sent F N pc = Suc ?n" "f = item F ?n" "item_phase F ?n = mrPhase (master s)"
    "mapping_phase pc = mapping_phase (sched s)" "sent F N pc \<le> length F + N"
    "mapping_phase pc \<Longrightarrow> sent F N pc \<le> length F" "pc \<noteq> StartReduce" "pc \<noteq> AllDone"
    using o inv
    by (cases "sched s"; auto simp: live_inv_def item_def item_phase_def MRPhase.exhaust
        split: if_splits; metis MRPhase.exhaust)+
  have "placed F ?s j" if "j < Suc ?n" for j
  proof (cases "j = ?n")
    case True
    with pc(2,3) show ?thesis by (auto simp: placed_def)
  next
    case False
    with that inv keep show ?thesis by (simp add: live_inv_def)
  qed
  with inv pc show ?thesis unfolding live_inv_def by simp
qed

lemma placed_sched [simp]: "placed F (s\<lparr>sched := pc\<rparr>) = placed F s"
  by (rule ext) (simp add: placed_def)

lemma live_inv_tick:
  assumes inv: "live_inv F N s" and run: "scheduleTick ks (master s) (sched s) = (m, pc)"
    and ok: "timely s TickEv" and pc: "pc \<noteq> Exited"
  shows "live_inv F N (s\<lparr>master := m, sched := pc\<rparr>)"
proof (cases "sched s")
  case StartReduce
  with run have m: "m = (master s)\<lparr>mrPhase := ReducePhase\<rparr>" "pc = SendReduce 0" by auto
  have g: "getting s = []" using inv StartReduce by (simp add: live_inv_def)
  have "placed F (s\<lparr>master := m, sched := pc\<rparr>) j" if "placed F s j" for j
    using that g by (simp add: placed_def m)
  with inv StartReduce g show ?thesis unfolding live_inv_def by (auto simp: m keyed_def)
next
  case (WaitReduce i)
  have pl: "placed F (s\<lparr>master := (master s)\<lparr>m_done := True\<rparr>, sched := pc\<rparr>) j" if "placed F s j" for j
    using that by (simp add: placed_def)
  with inv run ok pc WaitReduce show ?thesis
    unfolding live_inv_def by (auto simp: keyed_def split: if_splits)
next
  case (SendFile k)
  with run have "m = master s" "pc = (if k < length (files (master s)) then SendFile k else WaitMap 0)"
    by (auto split: if_splits)
  with inv SendFile show ?thesis by (simp add: live_inv_def)
next
  case (WaitMap i)
  with run pc have "m = master s" "pc = StartReduce \<or> pc = WaitMap (i + 1)"
    by (auto split: if_splits)
  with inv WaitMap ok show ?thesis by (auto simp: live_inv_def)
next
  case (SendReduce i)
  with run have "m = master s" "pc = (if int i < nReduce (master s) then SendReduce i else WaitReduce 0)"
    by (auto split: if_splits)
  with inv SendReduce show ?thesis by (simp add: live_inv_def)
next
  case AllDone
  with run have "m = master s" "pc = AllDone" by auto
  with inv AllDone show ?thesis by (auto simp: live_inv_def)
next
  case Exited
  with run pc show ?thesis by simp
qed

lemma live_inv_init:
  assumes "mr_init F n s"
  shows "live_inv F (nat n) s" "0 < n"
proof -
  obtain m where m: "MakeMaster F n = Inr (Some m)" "master s = fst (scheduleStart m)"
    "sched s = snd (scheduleStart m)" "getting s = []" "beatsIn s = []"
    using assms by (auto simp: mr_init_def prod_eq_iff)
  from m(1) have n: "0 < n" "files m = F" "nReduce m = n" "taskSeq m = 0" "tasks m = (\<lambda>_. None)"
    "mrPhase m = MapPhase"
    by (auto simp: MakeMaster_def Let_def split: if_splits)
  then show "0 < n" "live_inv F (nat n) s"
    using m(2-) by (auto simp: scheduleStart_def live_inv_def keyed_def)
qed

lemma sys_inv_step:
  assumes inv: "sys_inv F N s" and st: "timely_step s e t"
  shows "sys_inv F N t"
proof -
  have "live_inv F N t" if B: "length F + N < 2 ^ 32" and t: "sched t \<noteq> Exited"
  proof -
    from st have m: "mstep s e t" and ok: "timely s e" by (auto simp: timely_step_def)
    from m have "sched s \<noteq> Exited" by cases
    with inv B have live: "live_inv F N s" by (simp add: sys_inv_def)
    have k: "keyed (master s)" using live by (simp add: live_inv_def)
    note upd = live_inv_master [OF live]
    from m show ?thesis
    proof cases
      case (beat_load tid v)
      have "\<exists>u. tasks (master s) k = Some u \<and> same_task u w"
        if "(k, w) \<in> set ((tid, v) # beatsIn s)" for k w
        using that beat_load live by (auto simp: heartBeatLoad_def live_inv_def)
      then have "live_inv F N (s\<lparr>master := master s, beatsIn := (tid, v) # beatsIn s\<rparr>)"
        by (intro live_inv_same [OF live same_table_refl]) blast
      then show ?thesis unfolding beat_load by simp
    next
      case (beat_store tid v now)
      then obtain u where u: "tasks (master s) tid = Some u" "same_task u v"
        using live unfolding live_inv_def by blast
      let ?m = "heartBeatStore now tid v (master s)"
      have m': "same_table (master s) ?m" using u by (rule same_table_heartBeatStore)
      have "\<exists>u. tasks ?m k = Some u \<and> same_task u w"
        if "(k, w) \<in> set (remove1 (tid, v) (beatsIn s))" for k w
      proof -
        have "(k, w) \<in> set (beatsIn s)" using that set_remove1_subset by (rule rev_subsetD)
        from live_inv_beats [OF live m' this] show ?thesis .
      qed
      from live_inv_same [OF live m' this] show ?thesis unfolding beat_store .
    next
      case (retry ks now args m' v)
      then have "same_table (master s) m'" using same_table_getRetry [OF k, of now ks args] by simp
      then show ?thesis unfolding retry by (rule upd)
    next
      case (recv f pc args)
      then show ?thesis using live_inv_recv [OF live] by simp
    next
      case (assign args f now m' v)
      then show ?thesis using live_inv_assign [OF live _ _ B] by simp
    next
      case (tick ks m' pc)
      then show ?thesis using live_inv_tick [OF live, of ks m' pc] ok t by simp
    qed (auto intro!: upd same_table_worker_ops same_table_SetTaskState same_table_handleHeartbeat)
  qed
  then show ?thesis by (auto simp: sys_inv_def)
qed

interpretation scheduling: invariant_system "mr_init F n" timely_step "sys_inv F (nat n)" for F n
proof unfold_locales
  fix s assume "mr_init F n s"
  then show "sys_inv F (nat n) s" by (simp add: sys_inv_def live_inv_init)
next
  fix s e t assume "sys_inv F (nat n) s" "timely_step s e t"
  then show "sys_inv F (nat n) t" by (rule sys_inv_step)
qed

section \<open>Runs\<close>

text \<open>The steps as a function, with the clock and the order of iteration given.\<close>

fun mexec :: "int \<Rightarrow> 32 word list \<Rightarrow> Sys \<Rightarrow> mevent \<Rightarrow> Sys option" where
  "mexec now ks s RegEv = Some (s\<lparr>master := fst (RegWorker (master s))\<rparr>)"
| "mexec now ks s (DeRegEv w) = Some (s\<lparr>master := fst (DeRegWorker w (master s))\<rparr>)"
| "mexec now ks s (AddReduceEv fs) = Some (s\<lparr>master := AddReduceTask fs (master s)\<rparr>)"
| "mexec now ks s (SetStateEv args) =
     Some (s\<lparr>master := fst (SetTaskState now args (master s))\<rparr>)"
| "mexec now ks s (BeatLoadEv tid) =
     (if tid = 0 then None
      else map_option (\<lambda>t. s\<lparr>beatsIn := (tid, t) # beatsIn s\<rparr>) (heartBeatLoad tid (master s)))"
| "mexec now ks s (BeatStoreEv tid t) =
     (if (tid, t) \<in> set (beatsIn s)
      then Some (s\<lparr>master := heartBeatStore now tid t (master s),
                   beatsIn := remove1 (tid, t) (beatsIn s)\<rparr>) else None)"
| "mexec now ks s MonitorEv = Some (s\<lparr>master := handleHeartbeat now ks (master s)\<rparr>)"
| "mexec now ks s (RetryEv args) =
     (case getRetry now ks args (master s) of
        (m, None) \<Rightarrow> None | (m, Some t) \<Rightarrow> Some (s\<lparr>master := m\<rparr>))"
| "mexec now ks s (RecvEv args) =
     map_option (\<lambda>(f, pc). s\<lparr>sched := pc, getting := (args, f) # getting s\<rparr>)
       (offered (master s) (sched s))"
| "mexec now ks s (AssignEv args f) =
     (if (args, f) \<in> set (getting s)
      then Some (s\<lparr>master := fst (assignTask now args f (master s)),
                   getting := remove1 (args, f) (getting s)\<rparr>) else None)"
| "mexec now ks s TickEv =
     (let (m, pc) = scheduleTick ks (master s) (sched s) in Some (s\<lparr>master := m, sched := pc\<rparr>))"

lemma mexec_sound:
  assumes "mexec now ks s e = Some t" "sched s \<noteq> Exited" "covers ks (master s)"
  shows "mstep s e t"
  using assms
proof (induction now ks s e rule: mexec.induct)
  case (6 now ks s tid v)
  then show ?case by (auto intro!: mstep.beat_store split: if_splits)
next
  case (8 now ks s args)
  then show ?case by (auto intro: mstep.retry split: prod.splits option.splits)
next
  case (10 now ks s args f)
  obtain m v where "assignTask now args f (master s) = (m, v)" by fastforce
  with 10 show ?case by (auto intro!: mstep.assign split: if_splits)
next
  case (11 now ks s)
  then show ?case by (auto intro: mstep.tick split: prod.splits)
qed (auto intro: mstep.intros split: if_splits)

fun mrun :: "int \<Rightarrow> 32 word list \<Rightarrow> mevent list \<Rightarrow> Sys \<Rightarrow> Sys option" where
  "mrun now ks [] s = Some s"
| "mrun now ks (e # es) s = Option.bind (mexec now ks s e) (mrun now ks es)"

text \<open>The conditions under which a run is one of the system, and a timely one.\<close>

fun valid_run :: "int \<Rightarrow> 32 word list \<Rightarrow> mevent list \<Rightarrow> Sys \<Rightarrow> bool" where
  "valid_run now ks [] s = True"
| "valid_run now ks (e # es) s =
     (sched s \<noteq> Exited \<and> covers ks (master s) \<and>
      (case mexec now ks s e of None \<Rightarrow> False | Some t \<Rightarrow> valid_run now ks es t))"

fun timely_run :: "int \<Rightarrow> 32 word list \<Rightarrow> mevent list \<Rightarrow> Sys \<Rightarrow> bool" where
  "timely_run now ks [] s = True"
| "timely_run now ks (e # es) s =
     (timely s e \<and> (case mexec now ks s e of None \<Rightarrow> False | Some t \<Rightarrow> timely_run now ks es t))"

lemma mrun_reach:
  "reach init mstep s \<Longrightarrow> mrun now ks es s = Some t \<Longrightarrow> valid_run now ks es s \<Longrightarrow> reach init mstep t"
proof (induction es arbitrary: s)
  case Nil
  then show ?case by simp
next
  case (Cons e es)
  then obtain u where u: "mexec now ks s e = Some u" "mrun now ks es u = Some t"
    by (auto simp: bind_eq_Some_conv)
  have "mstep s e u" using Cons.prems(3) by (intro mexec_sound [OF u(1)]) simp_all
  with Cons.prems(1) have "reach init mstep u" by (rule reach.reach_step)
  then show ?case using u Cons.prems(3) by (intro Cons.IH) auto
qed

lemma mrun_timely:
  "reach init timely_step s \<Longrightarrow> mrun now ks es s = Some t \<Longrightarrow> valid_run now ks es s \<Longrightarrow>
   timely_run now ks es s \<Longrightarrow> reach init timely_step t"
proof (induction es arbitrary: s)
  case Nil
  then show ?case by simp
next
  case (Cons e es)
  then obtain u where u: "mexec now ks s e = Some u" "mrun now ks es u = Some t"
    by (auto simp: bind_eq_Some_conv)
  have "mstep s e u" using Cons.prems(3) by (intro mexec_sound [OF u(1)]) simp_all
  with Cons.prems(4) have "timely_step s e u" by (simp add: timely_step_def)
  with Cons.prems(1) have "reach init timely_step u" by (rule reach.reach_step)
  then show ?case using u Cons.prems(3,4) by (intro Cons.IH) auto
qed

text \<open>The master at start, with the numbers 1 to 10 for its workers.\<close>

definition ten :: "32 word list" where
  "ten = [1, 2, 3, 4, 5, 6, 7, 8, 9, 10]"

lemma makeRange_ten: "makeRangeUint32 1 10 = Inr ten"
  by (simp add: makeRangeUint32_def go_make_def ten_def upt_rec)

definition start :: "string list \<Rightarrow> int \<Rightarrow> Sys" where
  "start F n =
     \<lparr>master = \<lparr>mrPhase = MapPhase, m_done = (F = []), workerIDs = ten, taskSeq = 0,
                tasks = (\<lambda>_. None), files = F, reduceFiles = [], nReduce = n,
                waitTaskTimeout = 300\<rparr>,
      sched = SendFile 0, getting = [], beatsIn = []\<rparr>"

lemma start_init: "0 < n \<Longrightarrow> mr_init F n (start F n)"
  by (auto simp: mr_init_def MakeMaster_def makeRange_ten scheduleStart_def start_def Let_def)

lemma start_reach: "0 < n \<Longrightarrow> reach (mr_init F n) step (start F n)"
  by (rule reach.reach_init) (rule start_init)

section \<open>Properties\<close>

lemma all_finished:
  assumes "reach (mr_init F n) timely_step s" "length F + nat n < 2 ^ 32"
    and "covers ks (master s)" "isTasksDone ks (master s)" "sched s \<noteq> Exited" "getting s = []"
    and "j < sent F (nat n) (sched s)"
  shows "\<exists>k t. tasks (master s) k = Some t \<and> Filename t = item F j \<and> Phase t = item_phase F j \<and>
     task_State t = TaskStateFinish"
proof -
  have "live_inv F (nat n) s"
    using scheduling.reach_inv [OF assms(1)] assms(2,5) by (simp add: sys_inv_def)
  with assms(6,7) obtain k t where "tasks (master s) k = Some t" "Filename t = item F j"
    "Phase t = item_phase F j"
    unfolding live_inv_def placed_def by auto
  moreover have "task_State t = TaskStateFinish"
    using isTasksDone_all [OF assms(3)] assms(4) \<open>tasks (master s) k = Some t\<close> by blast
  ultimately show ?thesis by blast
qed

text \<open>
  C12: the map phase is complete before the reduce phase starts. When the scheduler leaves the loop that waits for the map tasks, every
  input file has a map task in the table that has finished. This holds for any interleaving of the handlers, retries and
  lost workers included, provided that no \<open>GetTask\<close> has received a file and not yet entered its task (the sleep of five
  seconds is there for that) and that the 32-bit task numbers suffice.
\<close>

theorem reduce_after_map:
  assumes "reach (mr_init F n) timely_step s" "length F + nat n < 2 ^ 32"
    and "timely_step s TickEv t" "sched s = WaitMap i" "sched t = StartReduce" "f \<in> set F"
  shows "\<exists>k task. tasks (master t) k = Some task \<and> Filename task = f \<and> Phase task = MapPhase \<and>
     task_State task = TaskStateFinish"
proof -
  from assms(6) obtain j where j: "j < length F" "F ! j = f" by (auto simp: in_set_conv_nth)
  from assms(3) have st: "mstep s TickEv t" "timely s TickEv" by (auto simp: timely_step_def)
  from st(1) obtain ks m where ks: "covers ks (master s)"
    "scheduleTick ks (master s) (sched s) = (m, StartReduce)" "master t = m"
    by (rule mstep_TickE) (use assms(5) in auto)
  with assms(4) have d: "isTasksDone ks (master s)" "m = master s" by (auto split: if_splits)
  have "getting s = []" using st(2) assms(4) by simp
  from all_finished [OF assms(1,2) ks(1) d(1) _ this, of j] assms(4) j d(2) ks(3) show ?thesis
    by (auto simp: item_def item_phase_def)
qed

text \<open>A run of one map task, up to the point where the scheduler has seen it finished.\<close>

definition map_run :: "mevent list" where
  "map_run =
     [RegEv, RecvEv \<lparr>arg_ID = 1, arg_State = TaskStateQueue\<rparr>,
      AssignEv \<lparr>arg_ID = 1, arg_State = TaskStateQueue\<rparr> ''a'', TickEv,
      SetStateEv \<lparr>arg_ID = 1, arg_State = TaskStateFinish\<rparr>]"

lemmas run_defs = start_def ten_def RegWorker_def getWorkerID_def DeRegWorker_def putWorkerID_def
  assignTask_def genTaskID_def Let_def SetTaskState_def isTasksDone_iff covers_def
  heartBeatLoad_def heartBeatStore_def

lemma map_run_ok:
  "\<exists>s. mrun 0 [1] map_run (start [''a''] 1) = Some s \<and>
     valid_run 0 [1] map_run (start [''a''] 1) \<and> timely_run 0 [1] map_run (start [''a''] 1) \<and>
     sched s = WaitMap 0 \<and> getting s = [] \<and> covers [1] (master s) \<and> isTasksDone [1] (master s)"
  by (simp add: map_run_def run_defs)

theorem reduce_after_map_witness:
  "\<exists>s t k task. mrun 0 [1] map_run (start [''a''] 1) = Some s \<and> mstep s TickEv t \<and>
     sched t = StartReduce \<and> tasks (master t) k = Some task \<and> Filename task = ''a'' \<and>
     Phase task = MapPhase \<and> task_State task = TaskStateFinish"
proof -
  obtain s where s: "mrun 0 [1] map_run (start [''a''] 1) = Some s"
    "valid_run 0 [1] map_run (start [''a''] 1)" "timely_run 0 [1] map_run (start [''a''] 1)"
    "sched s = WaitMap 0" "getting s = []" "covers [1] (master s)" "isTasksDone [1] (master s)"
    using map_run_ok by blast
  have r: "reach (mr_init [''a''] 1) timely_step s"
    by (rule mrun_timely [OF _ s(1-3)]) (simp add: start_reach)
  let ?t = "s\<lparr>master := master s, sched := StartReduce\<rparr>"
  have st: "mstep s TickEv ?t" by (rule mstep.tick [of _ "[1]"]) (use s in simp_all)
  then have "timely_step s TickEv ?t" using s(4,5) by (simp add: timely_step_def)
  from reduce_after_map [OF r _ this s(4), of "''a''"] obtain k task where
    "tasks (master ?t) k = Some task" "Filename task = ''a''" "Phase task = MapPhase"
    "task_State task = TaskStateFinish"
    by auto
  with st s(1) show ?thesis
    by (intro exI [of _ s] exI [of _ ?t] exI [of _ k] exI [of _ task]) simp
qed

text \<open>The flag that \<open>Done\<close> reads is set by the scheduler alone, at its end.\<close>

lemma m_done_keeps:
  "m_done (fst (RegWorker m)) = m_done m" "m_done (fst (DeRegWorker w m)) = m_done m"
  "m_done (AddReduceTask fs m) = m_done m" "m_done (fst (SetTaskState now args m)) = m_done m"
  "m_done (heartBeatStore now k t m) = m_done m"
  by (auto simp: RegWorker_def getWorkerID_def DeRegWorker_def putWorkerID_def AddReduceTask_def SetTaskState_def
      heartBeatStore_def Let_def split: list.split option.split)

lemma m_done_handleHeartbeat: "m_done (handleHeartbeat now ks m) = m_done m"
  unfolding handleHeartbeat_def
  by (rule syncRange_inv [where P = "\<lambda>m'. m_done m' = m_done m"]) (auto simp: Let_def case_prod_beta m_done_keeps)

lemma m_done_getRetry: "getRetry now ks args m = (m', t) \<Longrightarrow> m_done m' = m_done m"
proof -
  have "m_done (fst (syncRange load f ks (m, None))) = m_done m"
    if "\<And>k v s. m_done (fst (fst (f k v s))) = m_done (fst s)"
    for load :: "Master \<times> MRTask option \<Rightarrow> 32 word \<Rightarrow> MRTask option" and f
    by (rule syncRange_inv [where P = "\<lambda>s. m_done (fst s) = m_done m"]) (use that in simp_all)
  then have "m_done (fst (getRetry now ks args m)) = m_done m"
    unfolding getRetry_def by (auto simp: Let_def split: prod.split)
  then show "getRetry now ks args m = (m', t) \<Longrightarrow> m_done m' = m_done m" by simp
qed

lemma done_set:
  assumes "mstep s e t" "\<not> m_done (master s)" "m_done (master t)"
  shows "e = TickEv \<and> (\<exists>i. sched s = WaitReduce i) \<and> sched t = AllDone"
  using assms(1)
proof cases
  case (retry ks now args m u)
  with assms(2,3) m_done_getRetry [OF retry(5)] show ?thesis by simp
next
  case (assign args f now m u)
  with assms(2,3) show ?thesis by (auto simp: assignTask_def genTaskID_def Let_def)
next
  case (tick ks m pc)
  with assms(2,3) show ?thesis by (cases "sched s") (auto split: if_splits)
qed (use assms(2,3) in \<open>auto simp: m_done_keeps m_done_handleHeartbeat\<close>)

text \<open>
  C14: the job ends complete. In a timely run (a task that was received is in the table before the scheduler next looks at it), when a step makes \<open>Done\<close> true, every input file has a finished map task and every
  pattern \<open>mr-*-i\<close> a finished reduce task in the table. (Without input files \<open>Done\<close> is true from the start.)
\<close>

theorem done_after_all:
  assumes "reach (mr_init F n) timely_step s" "length F + nat n < 2 ^ 32"
    and "timely_step s e t" "\<not> Done (master s)" "Done (master t)"
  shows "(\<forall>f \<in> set F. \<exists>k task. tasks (master t) k = Some task \<and> Filename task = f \<and>
        Phase task = MapPhase \<and> task_State task = TaskStateFinish) \<and>
     (\<forall>r < nat n. \<exists>k task. tasks (master t) k = Some task \<and> Filename task = reducePattern r \<and>
        Phase task = ReducePhase \<and> task_State task = TaskStateFinish)"
proof -
  from assms(3-5) have "e = TickEv" "\<exists>i. sched s = WaitReduce i" "sched t = AllDone"
    using done_set [of s e t] by (auto simp: timely_step_def Done_def)
  then obtain i where e: "e = TickEv" "sched s = WaitReduce i" "sched t = AllDone" by blast
  with assms(3) have st: "mstep s TickEv t" "timely s TickEv" by (auto simp: timely_step_def)
  from st(1) obtain ks m where ks: "covers ks (master s)"
    "scheduleTick ks (master s) (sched s) = (m, AllDone)" "master t = m"
    by (rule mstep_TickE) (use e(3) in auto)
  with e(2) have d: "isTasksDone ks (master s)" "m = (master s)\<lparr>m_done := True\<rparr>"
    by (auto split: if_splits)
  have g: "getting s = []" using st(2) e(2) by simp
  have fin: "\<exists>k u. tasks (master s) k = Some u \<and> Filename u = item F j \<and>
      Phase u = item_phase F j \<and> task_State u = TaskStateFinish" if "j < length F + nat n" for j
    using all_finished [OF assms(1,2) ks(1) d(1) _ g, of j] e(2) that by auto
  have "\<exists>k u. tasks (master s) k = Some u \<and> Filename u = f \<and> Phase u = MapPhase \<and>
      task_State u = TaskStateFinish" if "f \<in> set F" for f
  proof -
    from that obtain j where "j < length F" "F ! j = f" by (auto simp: in_set_conv_nth)
    with fin [of j] show ?thesis by (simp add: item_def item_phase_def)
  qed
  moreover have "\<exists>k u. tasks (master s) k = Some u \<and> Filename u = reducePattern r \<and>
      Phase u = ReducePhase \<and> task_State u = TaskStateFinish" if "r < nat n" for r
    using that fin [of "length F + r"] by (simp add: item_def item_phase_def)
  ultimately show ?thesis by (simp add: ks(3) d(2))
qed

definition whole_run :: "mevent list" where
  "whole_run = map_run @
     [TickEv, TickEv, RecvEv \<lparr>arg_ID = 1, arg_State = TaskStateQueue\<rparr>,
      AssignEv \<lparr>arg_ID = 1, arg_State = TaskStateQueue\<rparr> (reducePattern 0), TickEv,
      SetStateEv \<lparr>arg_ID = 2, arg_State = TaskStateFinish\<rparr>]"

lemma whole_run_ok:
  "\<exists>s. mrun 0 [1, 2] whole_run (start [''a''] 1) = Some s \<and>
     valid_run 0 [1, 2] whole_run (start [''a''] 1) \<and>
     timely_run 0 [1, 2] whole_run (start [''a''] 1) \<and>
     sched s = WaitReduce 0 \<and> getting s = [] \<and> covers [1, 2] (master s) \<and>
     isTasksDone [1, 2] (master s) \<and> \<not> m_done (master s)"
  by (simp add: whole_run_def map_run_def run_defs)

theorem done_after_all_witness:
  "\<exists>s t k task. mrun 0 [1, 2] whole_run (start [''a''] 1) = Some s \<and> mstep s TickEv t \<and>
     \<not> Done (master s) \<and> Done (master t) \<and> tasks (master t) k = Some task \<and> Filename task = ''mr-*-0'' \<and>
     Phase task = ReducePhase \<and> task_State task = TaskStateFinish"
proof -
  obtain s where s: "mrun 0 [1, 2] whole_run (start [''a''] 1) = Some s"
    "valid_run 0 [1, 2] whole_run (start [''a''] 1)"
    "timely_run 0 [1, 2] whole_run (start [''a''] 1)"
    "sched s = WaitReduce 0" "getting s = []" "covers [1, 2] (master s)"
    "isTasksDone [1, 2] (master s)" "\<not> m_done (master s)"
    using whole_run_ok by blast
  have r: "reach (mr_init [''a''] 1) timely_step s"
    by (rule mrun_timely [OF _ s(1-3)]) (simp add: start_reach)
  let ?t = "s\<lparr>master := (master s)\<lparr>m_done := True\<rparr>, sched := AllDone\<rparr>"
  have st: "mstep s TickEv ?t" by (rule mstep.tick [of _ "[1, 2]"]) (use s in simp_all)
  have p: "reducePattern 0 = ''mr-*-0''" by code_simp
  have "timely_step s TickEv ?t" using st s(4,5) by (simp add: timely_step_def)
  moreover have d: "\<not> Done (master s)" "Done (master ?t)" using s(8) by (simp_all add: Done_def)
  ultimately obtain k task where "tasks (master ?t) k = Some task" "Filename task = reducePattern 0"
    "Phase task = ReducePhase" "task_State task = TaskStateFinish"
    using done_after_all [OF r] by fastforce
  with st s(1) p d show ?thesis by metis
qed

definition late_run :: "mevent list" where
  "late_run =
     [RecvEv \<lparr>arg_ID = 1, arg_State = TaskStateQueue\<rparr>, TickEv, TickEv, TickEv,
      AssignEv \<lparr>arg_ID = 1, arg_State = TaskStateQueue\<rparr> ''a'']"

text \<open>
  The phases without the assumption. If the handler of the last file is slow, the scheduler's five seconds are over before the task is in the
  table: the map phase ends without it, and the file is then given out as a reduce task.
\<close>

theorem late_task_in_wrong_phase:
  "\<exists>s t. reach (mr_init [''a''] 1) mstep s \<and> tasks (master s) 1 = Some t \<and>
     Filename t = ''a'' \<and> Phase t = ReducePhase"
proof -
  have "\<exists>s t. mrun 0 [1] late_run (start [''a''] 1) = Some s \<and>
      valid_run 0 [1] late_run (start [''a''] 1) \<and> tasks (master s) 1 = Some t \<and>
      Filename t = ''a'' \<and> Phase t = ReducePhase"
    by (simp add: late_run_def run_defs)
  then obtain s t where "mrun 0 [1] late_run (start [''a''] 1) = Some s"
    "valid_run 0 [1] late_run (start [''a''] 1)" and t: "tasks (master s) 1 = Some t"
    "Filename t = ''a''" "Phase t = ReducePhase"
    by blast
  then have "reach (mr_init [''a''] 1) mstep s"
    by (intro mrun_reach [OF start_reach]) simp_all
  with t show ?thesis by blast
qed

section \<open>Worker numbers\<close>

lemma distinct_workerIDs:
  "distinct (workerIDs m) \<Longrightarrow> distinct (workerIDs (fst (RegWorker m)))"
  "distinct (workerIDs m) \<Longrightarrow> distinct (workerIDs (fst (DeRegWorker w m)))"
  by (auto simp: RegWorker_def getWorkerID_def DeRegWorker_def putWorkerID_def split: list.split)

lemma SetTaskState_workerIDs [simp]: "workerIDs (fst (SetTaskState now args m)) = workerIDs m"
  by (auto simp: SetTaskState_def Let_def split: option.split)

lemma distinct_handleHeartbeat:
  assumes "distinct (workerIDs m)"
  shows "distinct (workerIDs (handleHeartbeat now ks m))"
  unfolding handleHeartbeat_def
  by (rule syncRange_inv) (use assms in \<open>auto simp: Let_def case_prod_beta distinct_workerIDs\<close>)

lemma getRetry_workerIDs: "workerIDs (fst (getRetry now ks args m)) = workerIDs m"
proof -
  have "workerIDs (fst (syncRange load f ks (m, None))) = workerIDs m"
    if "\<And>k v s. workerIDs (fst (fst (f k v s))) = workerIDs (fst s)"
    for load :: "Master \<times> MRTask option \<Rightarrow> 32 word \<Rightarrow> MRTask option" and f
    by (rule syncRange_inv [where P = "\<lambda>s. workerIDs (fst s) = workerIDs m"]) (use that in simp_all)
  then show ?thesis unfolding getRetry_def by (auto simp: Let_def split: prod.split)
qed

lemma scheduleTick_workerIDs: "scheduleTick ks m pc = (m', pc') \<Longrightarrow> workerIDs m' = workerIDs m"
  by (cases pc) (auto split: if_splits)

interpretation numbers:
  invariant_system "mr_init F n" mstep "\<lambda>s. distinct (workerIDs (master s))" for F n
proof unfold_locales
  fix s assume "mr_init F n s"
  then obtain m where m: "MakeMaster F n = Inr (Some m)" "master s = fst (scheduleStart m)"
    by (auto simp: mr_init_def prod_eq_iff)
  then show "distinct (workerIDs (master s))"
    by (auto simp: MakeMaster_def makeRange_ten Let_def scheduleStart_def ten_def split: if_splits)
next
  fix s e t assume d: "distinct (workerIDs (master s))" and "mstep s e t"
  from this(2) show "distinct (workerIDs (master t))"
  proof cases
    case (retry ks now args m v)
    then show ?thesis using d getRetry_workerIDs [of now ks args "master s"] by simp
  next
    case (assign args f now m v)
    then show ?thesis using d by (auto simp: assignTask_def genTaskID_def Let_def)
  next
    case (tick ks m pc)
    then show ?thesis using d by (simp add: scheduleTick_workerIDs)
  qed (use d in \<open>auto simp: distinct_workerIDs distinct_handleHeartbeat AddReduceTask_def
      heartBeatStore_def\<close>)
qed

text \<open>
  A number is issued once. In every reachable state of the master, under any interleaving, the number that \<open>RegWorker\<close> gives
  out is not among those it still has, so it is not given out again before it is put
  back; with all numbers out, the call fails and changes nothing.
\<close>

theorem RegWorker_issues_once:
  assumes "reach (mr_init F n) mstep s"
  shows "case RegWorker (master s) of
     (m, Inr w) \<Rightarrow> workerIDs (master s) = w # workerIDs m \<and> w \<notin> set (workerIDs m)
   | (m, Inl e) \<Rightarrow> workerIDs (master s) = [] \<and> m = master s"
  using numbers.reach_inv [OF assms]
  by (auto simp: RegWorker_def getWorkerID_def split: list.split)

theorem RegWorker_issues_once_witness:
  "\<exists>m. RegWorker (master (start [''a''] 1)) = (m, Inr 1) \<and> 1 \<notin> set (workerIDs m)"
  using RegWorker_issues_once [OF start_reach [of 1 "[''a'']"]]
  by (simp add: RegWorker_def getWorkerID_def start_def ten_def)

end
