(* ===== verification/MR_Table.thy ===== *)
theory MR_Table
  imports MR_Schedule "HOL-Library.Multiset"
begin

text \<open>
  What the table of \<open>mr/master.go\<close> holds, exactly: the map tasks are one for each input file, the reduce tasks one for each pattern, under
  the numbers 1, 2, \<dots> in this order of phases. An invariant of the timely steps of \<open>MR_Schedule\<close>.
\<close>

section \<open>The invariant\<close>

definition fname :: "Master \<Rightarrow> nat \<Rightarrow> string" where
  "fname m j = Filename (the (tasks m (of_nat j)))"

definition mapNames :: "nat \<Rightarrow> Master \<Rightarrow> string multiset" where
  "mapNames l m = mset (map (fname m) [1..<Suc (min (unat (taskSeq m)) l)])"

definition reduceNames :: "nat \<Rightarrow> Master \<Rightarrow> string multiset" where
  "reduceNames l m = mset (map (fname m) [Suc l..<Suc (unat (taskSeq m))])"

definition pendingNames :: "Sys \<Rightarrow> string multiset" where
  "pendingNames s = mset (map snd (getting s))"

definition tab_inv :: "string list \<Rightarrow> nat \<Rightarrow> Sys \<Rightarrow> bool" where
  "tab_inv F N s \<longleftrightarrow>
     (\<forall>k. tasks (master s) k \<noteq> None \<longleftrightarrow> 0 < unat k \<and> unat k \<le> unat (taskSeq (master s))) \<and>
     (\<forall>k t. tasks (master s) k = Some t \<longrightarrow> NReduce t = int N \<and> (Phase t = MapPhase \<longleftrightarrow> unat k \<le> length F)) \<and>
     (mapping_phase (sched s) \<longrightarrow>
        mapNames (length F) (master s) + pendingNames s = mset (take (sent F N (sched s)) F)) \<and>
     (\<not> mapping_phase (sched s) \<longrightarrow> length F \<le> unat (taskSeq (master s)) \<and> mapNames (length F) (master s) = mset F \<and>
        reduceNames (length F) (master s) + pendingNames s = mset (map reducePattern [0..<sent F N (sched s) - length F]))"

lemma unat_of_nat_seq:
  assumes "j \<le> unat (q :: 32 word)"
  shows "unat (of_nat j :: 32 word) = j"
proof -
  have "unat q < 2 ^ LENGTH(32)" by (rule unsigned_less)
  with assms show ?thesis by (simp add: unat_of_nat)
qed

lemma fname_same:
  assumes "same_table m m'" "tasks m (of_nat j) \<noteq> None"
  shows "fname m' j = fname m j"
proof -
  from assms(2) obtain t where t: "tasks m (of_nat j) = Some t" by blast
  from same_tableD(1) [OF assms(1) t] obtain u where "tasks m' (of_nat j) = Some u" "same_task t u" by blast
  with t show ?thesis by (simp add: fname_def same_task_def)
qed

lemma names_cong:
  assumes "taskSeq m = taskSeq m'" "\<And>j. 0 < j \<Longrightarrow> j \<le> unat (taskSeq m') \<Longrightarrow> fname m j = fname m' j"
  shows "mapNames l m = mapNames l m'" "reduceNames l m = reduceNames l m'"
proof -
  have "map (fname m) [1..<Suc (min (unat (taskSeq m)) l)] = map (fname m') [1..<Suc (min (unat (taskSeq m')) l)]"
    using assms by (intro map_cong) (auto simp del: upt_Suc)
  then show "mapNames l m = mapNames l m'" by (simp only: mapNames_def)
  have "map (fname m) [Suc l..<Suc (unat (taskSeq m))] = map (fname m') [Suc l..<Suc (unat (taskSeq m'))]"
    using assms by (intro map_cong) (auto simp del: upt_Suc)
  then show "reduceNames l m = reduceNames l m'" by (simp only: reduceNames_def)
qed

lemma tab_invD:
  assumes "tab_inv F N s"
  shows "tasks (master s) k \<noteq> None \<longleftrightarrow> 0 < unat k \<and> unat k \<le> unat (taskSeq (master s))"
    "tasks (master s) k = Some t \<Longrightarrow> NReduce t = int N \<and> (Phase t = MapPhase \<longleftrightarrow> unat k \<le> length F)"
    "mapping_phase (sched s) \<Longrightarrow>
       mapNames (length F) (master s) + pendingNames s = mset (take (sent F N (sched s)) F)"
    "\<not> mapping_phase (sched s) \<Longrightarrow> length F \<le> unat (taskSeq (master s))"
    "\<not> mapping_phase (sched s) \<Longrightarrow> mapNames (length F) (master s) = mset F"
    "\<not> mapping_phase (sched s) \<Longrightarrow>
       reduceNames (length F) (master s) + pendingNames s = mset (map reducePattern [0..<sent F N (sched s) - length F])"
  using assms unfolding tab_inv_def by (elim conjE; blast)+

lemma pendingNames_sel [simp]:
  "pendingNames (s\<lparr>master := m\<rparr>) = pendingNames s" "pendingNames (s\<lparr>sched := pc\<rparr>) = pendingNames s"
  "pendingNames (s\<lparr>beatsIn := b\<rparr>) = pendingNames s" "pendingNames (s\<lparr>getting := g\<rparr>) = mset (map snd g)"
  by (simp_all add: pendingNames_def)

text \<open>The steps that keep the tasks of the table.\<close>

lemma tab_inv_same:
  assumes inv: "tab_inv F N s" and st: "same_table (master s) m"
  shows "tab_inv F N (s\<lparr>master := m, beatsIn := b\<rparr>)"
proof -
  note T = tab_invD [OF inv]
  have q: "taskSeq m = taskSeq (master s)" using st by (simp add: same_table_def)
  have dom: "tasks m k \<noteq> None \<longleftrightarrow> tasks (master s) k \<noteq> None" for k
    using st by (auto simp: same_table_def dest!: spec [of _ k] elim: option.rel_cases)
  have task: "NReduce t = int N \<and> (Phase t = MapPhase \<longleftrightarrow> unat k \<le> length F)" if "tasks m k = Some t" for k t
  proof -
    from same_tableD(2) [OF st that] obtain u where u: "tasks (master s) k = Some u" "same_task u t" by blast
    with T(2) [OF u(1)] show ?thesis by (simp add: same_task_def)
  qed
  have "fname m j = fname (master s) j" if "0 < j" "j \<le> unat (taskSeq (master s))" for j
  proof (rule fname_same [OF st])
    have "unat (of_nat j :: 32 word) = j" using that(2) by (rule unat_of_nat_seq)
    with that T(1) show "tasks (master s) (of_nat j) \<noteq> None" by simp
  qed
  note N = names_cong [OF q this]
  from T(3-6) task dom T(1) show ?thesis unfolding tab_inv_def by (simp add: q N)
qed

text \<open>The names by number when a task is added under the next number.\<close>

definition nextNumber :: "string \<Rightarrow> Master \<Rightarrow> Master \<Rightarrow> bool" where
  "nextNumber f m0 m \<longleftrightarrow>
     (\<exists>t. m = m0\<lparr>taskSeq := taskSeq m0 + 1, tasks := (tasks m0)(taskSeq m0 + 1 \<mapsto> t)\<rparr> \<and> Filename t = f) \<and>
     Suc (unat (taskSeq m0)) < 2 ^ 32"

lemma nextNumber_seq: "nextNumber f m0 m \<Longrightarrow> unat (taskSeq m0 + 1) = Suc (unat (taskSeq m0))"
  by (simp add: nextNumber_def unat_word_ariths)

lemma nextNumber_taskSeq: "nextNumber f m0 m \<Longrightarrow> unat (taskSeq m) = Suc (unat (taskSeq m0))"
  by (frule nextNumber_seq) (auto simp: nextNumber_def)

lemma nextNumber_old:
  assumes "nextNumber f m0 m" "j \<le> unat (taskSeq m0)"
  shows "fname m j = fname m0 j"
proof -
  have "unat (of_nat j :: 32 word) \<noteq> Suc (unat (taskSeq m0))" using unat_of_nat_seq [OF assms(2)] assms(2) by simp
  then have "(of_nat j :: 32 word) \<noteq> taskSeq m0 + 1" using nextNumber_seq [OF assms(1)] by metis
  then show ?thesis using assms(1) by (auto simp: fname_def nextNumber_def)
qed

lemma nextNumber_upto:
  assumes m: "nextNumber f m0 m" and "a \<le> Suc (unat (taskSeq m0))"
  shows "map (fname m) [a..<Suc (Suc (unat (taskSeq m0)))] = map (fname m0) [a..<Suc (unat (taskSeq m0))] @ [f]"
proof -
  have "(of_nat (Suc (unat (taskSeq m0))) :: 32 word) = taskSeq m0 + 1" by simp
  then have "fname m (Suc (unat (taskSeq m0))) = f" using m by (auto simp: fname_def nextNumber_def)
  moreover have "[a..<Suc (Suc (unat (taskSeq m0)))] = [a..<Suc (unat (taskSeq m0))] @ [Suc (unat (taskSeq m0))]"
    using assms(2) by (rule upt_Suc_append)
  moreover have "map (fname m) [a..<Suc (unat (taskSeq m0))] = map (fname m0) [a..<Suc (unat (taskSeq m0))]"
    using nextNumber_old [OF m] by (intro map_cong) (auto simp del: upt_Suc)
  ultimately show ?thesis by (simp del: upt_Suc)
qed

lemma nextNumber_mapNames:
  assumes m: "nextNumber f m0 m"
  shows "mapNames K m = (if unat (taskSeq m0) < K then add_mset f (mapNames K m0) else mapNames K m0)"
proof (cases "unat (taskSeq m0) < K")
  case True
  then show ?thesis using nextNumber_upto [OF m, of 1] nextNumber_taskSeq [OF m]
    by (simp add: mapNames_def min_absorb1 del: upt_Suc mset_upt mset_map)
next
  case False
  then have e: "map (fname m) [1..<Suc K] = map (fname m0) [1..<Suc K]"
    using nextNumber_old [OF m] by (intro map_cong) (auto simp del: upt_Suc)
  have "min (unat (taskSeq m)) K = K" "min (unat (taskSeq m0)) K = K" using False nextNumber_taskSeq [OF m] by simp_all
  then show ?thesis using False by (simp only: mapNames_def e if_False)
qed

lemma nextNumber_reduceNames:
  assumes m: "nextNumber f m0 m" and "K \<le> unat (taskSeq m0)"
  shows "reduceNames K m = add_mset f (reduceNames K m0)"
  using assms(2) nextNumber_upto [OF m, of "Suc K"] nextNumber_taskSeq [OF m]
  by (simp add: reduceNames_def del: upt_Suc mset_upt mset_map)

lemma pendingNames_remove:
  assumes "(args, f) \<in> set (getting s)"
  shows "pendingNames s = add_mset f (mset (map snd (remove1 (args, f) (getting s))))"
proof -
  have "mset (getting s) = add_mset (args, f) (mset (remove1 (args, f) (getting s)))" using assms by simp
  then have "image_mset snd (mset (getting s)) = image_mset snd (add_mset (args, f) (mset (remove1 (args, f) (getting s))))"
    by (rule arg_cong)
  then show ?thesis unfolding pendingNames_def by (simp only: mset_map image_mset_add_mset snd_conv)
qed

lemma tab_inv_assign:
  assumes inv: "tab_inv F N s" and live: "live_inv F N s" and mem: "(args, f) \<in> set (getting s)"
    and run: "assignTask now args f (master s) = (m, t)" and B: "length F + N < 2 ^ 32"
  shows "tab_inv F N (s\<lparr>master := m, getting := remove1 (args, f) (getting s)\<rparr>)"
proof -
  note T = tab_invD [OF inv] and snds = pendingNames_remove [OF mem]
  let ?q = "taskSeq (master s)"
  let ?t = "\<lparr>WorkerID = arg_ID args, TaskID = ?q + 1, NReduce = nReduce (master s),
      Phase = mrPhase (master s), Filename = f, task_State = TaskStateSending, BeatTime = now\<rparr>"
  have m: "m = (master s)\<lparr>taskSeq := ?q + 1, tasks := (tasks (master s))(?q + 1 \<mapsto> ?t)\<rparr>"
    using run by (auto simp: assignTask_def genTaskID_def Let_def)
  have cnt: "unat ?q + length (getting s) = sent F N (sched s)" "sent F N (sched s) \<le> length F + N"
    "mapping_phase (sched s) \<Longrightarrow> sent F N (sched s) \<le> length F" "nReduce (master s) = int N"
    "mrPhase (master s) = MapPhase \<longleftrightarrow> mapping_phase (sched s)"
    using live by (auto simp: live_inv_def)
  have ne: "0 < length (getting s)" using mem by (rule length_pos_if_in_set)
  with cnt(1,2) B have "Suc (unat ?q) < 2 ^ 32" by linarith
  then have nn: "nextNumber f (master s) m" unfolding nextNumber_def by (intro conjI exI [of _ ?t] m) simp_all
  note q1 = nextNumber_seq [OF nn] and seq = nextNumber_taskSeq [OF nn]
  have small: "mapping_phase (sched s) \<longleftrightarrow> unat ?q < length F"
  proof (cases "mapping_phase (sched s)")
    case True
    then show ?thesis using cnt(1) cnt(3) [OF True] ne by linarith
  next
    case False
    then show ?thesis using T(4) [OF False] by simp
  qed
  have key: "unat k = Suc (unat ?q) \<longleftrightarrow> k = ?q + 1" for k :: "32 word"
    using q1 word_eq_iff_unsigned [of k "?q + 1", where 'a = nat] by auto
  have dom: "tasks m k \<noteq> None \<longleftrightarrow> 0 < unat k \<and> unat k \<le> unat (taskSeq m)" for k
    using T(1) [of k] key [of k] q1 by (auto simp: m le_Suc_eq)
  have phase: "NReduce u = int N \<and> (Phase u = MapPhase \<longleftrightarrow> unat k \<le> length F)" if "tasks m k = Some u" for k u
  proof (cases "k = ?q + 1")
    case True
    with that have "u = ?t" by (simp add: m)
    with cnt(4,5) small q1 True show ?thesis by (simp add: Suc_le_eq)
  next
    case False
    with that T(2) show ?thesis by (simp add: m)
  qed
  show ?thesis
  proof (cases "mapping_phase (sched s)")
    case True
    then show ?thesis using dom phase T(3) snds small nextNumber_mapNames [OF nn, of "length F"] unfolding tab_inv_def by simp
  next
    case False
    then have "length F \<le> unat ?q" "length F \<le> unat (taskSeq m)" using small seq by simp_all
    with False show ?thesis
      using dom phase T(5,6) snds nextNumber_mapNames [OF nn, of "length F"] nextNumber_reduceNames [OF nn, of "length F"]
      unfolding tab_inv_def by simp
  qed
qed

lemma tab_inv_recv:
  assumes inv: "tab_inv F N s" and live: "live_inv F N s" and o: "offered (master s) (sched s) = Some (f, pc)"
  shows "tab_inv F N (s\<lparr>sched := pc, getting := (args, f) # getting s\<rparr>)"
proof (cases "sched s")
  case (SendFile k)
  then have "k < length F" "f = F ! k" "pc = SendFile (k + 1)" using o live by (auto simp: live_inv_def split: if_splits)
  with SendFile tab_invD(1-3) [OF inv] show ?thesis by (simp add: tab_inv_def take_Suc_conv_app_nth pendingNames_def)
next
  case (SendReduce i)
  then have "f = reducePattern i" "pc = SendReduce (i + 1)" using o by (auto split: if_splits)
  with SendReduce tab_invD [OF inv] show ?thesis by (simp add: tab_inv_def pendingNames_def)
qed (use o in auto)

lemma tab_inv_sched:
  assumes "tab_inv F N s" "tasks m = tasks (master s)" "taskSeq m = taskSeq (master s)"
    "mapping_phase pc = mapping_phase (sched s)" "sent F N pc = sent F N (sched s)"
  shows "tab_inv F N (s\<lparr>master := m, sched := pc\<rparr>)"
proof -
  have "fname m j = fname (master s) j" for j using assms(2) by (simp add: fname_def)
  note N = names_cong [OF assms(3) this]
  from assms(1) show ?thesis unfolding tab_inv_def by (simp add: N assms(2-5))
qed

lemma tab_inv_tick:
  assumes inv: "tab_inv F N s" and live: "live_inv F N s" and run: "scheduleTick ks (master s) (sched s) = (m, pc)"
    and pc: "pc \<noteq> Exited"
  shows "tab_inv F N (s\<lparr>master := m, sched := pc\<rparr>)"
proof (cases "sched s")
  case StartReduce
  note T = tab_invD [OF inv]
  have m: "m = (master s)\<lparr>mrPhase := ReducePhase\<rparr>" "pc = SendReduce 0" using run StartReduce by auto
  have g: "getting s = []" "unat (taskSeq (master s)) = length F" using live StartReduce by (auto simp: live_inv_def)
  have "fname m j = fname (master s) j" for j by (simp add: m fname_def)
  note N = names_cong [OF _ this, of l for l]
  have "reduceNames (length F) (master s) = {#}" by (simp add: reduceNames_def g)
  with T(1-3) StartReduce m N g show ?thesis by (simp add: tab_inv_def pendingNames_def)
next
  case (SendFile k)
  have "k \<le> length F" "files (master s) = F" using live SendFile by (auto simp: live_inv_def)
  then show ?thesis using run by (intro tab_inv_sched [OF inv]) (auto simp: SendFile split: if_splits)
next
  case (SendReduce i)
  have "i \<le> N" "nReduce (master s) = int N" using live SendReduce by (auto simp: live_inv_def)
  then show ?thesis using run by (intro tab_inv_sched [OF inv]) (auto simp: SendReduce split: if_splits)
qed (use run pc in \<open>intro tab_inv_sched [OF inv]; auto split: if_splits\<close>)+

section \<open>Steps\<close>

lemma tab_inv_step:
  assumes inv: "tab_inv F N s" and live: "live_inv F N s" and st: "mstep s e t"
    and t: "sched t \<noteq> Exited" and B: "length F + N < 2 ^ 32"
  shows "tab_inv F N t"
proof -
  have k: "keyed (master s)" using live by (simp add: live_inv_def)
  have upd: "tab_inv F N (s\<lparr>master := m\<rparr>)" if "same_table (master s) m" for m
    using tab_inv_same [OF inv that, of "beatsIn s"] by simp
  from st show ?thesis
  proof cases
    case (beat_load tid v)
    then show ?thesis using tab_inv_same [OF inv same_table_refl, of "(tid, v) # beatsIn s"] by simp
  next
    case (beat_store tid v now)
    then obtain u where u: "tasks (master s) tid = Some u" "same_task u v" using live unfolding live_inv_def by blast
    then show ?thesis unfolding beat_store by (intro tab_inv_same [OF inv] same_table_heartBeatStore)
  next
    case (retry ks now args m' v)
    then have "same_table (master s) m'" using same_table_getRetry [OF k, of now ks args] by simp
    then show ?thesis unfolding retry by (rule upd)
  next
    case (recv f pc args)
    then show ?thesis using tab_inv_recv [OF inv live] by simp
  next
    case (assign args f now m' v)
    then show ?thesis using tab_inv_assign [OF inv live _ _ B] by simp
  next
    case (tick ks m' pc)
    then show ?thesis using tab_inv_tick [OF inv live, of ks m' pc] t by simp
  qed (auto intro!: upd same_table_worker_ops same_table_SetTaskState same_table_handleHeartbeat)
qed

lemma tab_inv_init:
  assumes "mr_init F n s"
  shows "tab_inv F (nat n) s"
proof -
  obtain m where m: "MakeMaster F n = Inr (Some m)" "master s = fst (scheduleStart m)"
    "sched s = snd (scheduleStart m)" "getting s = []"
    using assms by (auto simp: mr_init_def prod_eq_iff)
  then have "taskSeq (master s) = 0" "tasks (master s) = (\<lambda>_. None)" "sched s = SendFile 0"
    by (auto simp: MakeMaster_def Let_def scheduleStart_def split: if_splits)
  with m(4) show ?thesis by (auto simp: tab_inv_def mapNames_def pendingNames_def)
qed

section \<open>Reading the table\<close>

lemma task_number:
  assumes "tab_inv F N s" "tasks (master s) k = Some t"
  shows "0 < unat k" "unat k \<le> unat (taskSeq (master s))" "fname (master s) (unat k) = Filename t"
proof -
  show "0 < unat k" "unat k \<le> unat (taskSeq (master s))" using tab_invD(1) [OF assms(1), of k] assms(2) by auto
  show "fname (master s) (unat k) = Filename t" using assms(2) by (simp add: fname_def)
qed

lemma reduce_number:
  assumes inv: "tab_inv F N s" and live: "live_inv F N s" and t: "tasks (master s) k = Some t" "Phase t = ReducePhase"
  shows "\<not> mapping_phase (sched s)" "Suc (length F) \<le> unat k"
proof -
  have "\<not> unat k \<le> length F" using tab_invD(2) [OF inv t(1)] t(2) by simp
  then show le: "Suc (length F) \<le> unat k" by simp
  have "unat (taskSeq (master s)) \<le> sent F N (sched s)" "mapping_phase (sched s) \<longrightarrow> sent F N (sched s) \<le> length F"
    using live by (auto simp: live_inv_def)
  with le task_number(2) [OF inv t(1)] show "\<not> mapping_phase (sched s)" by linarith
qed

lemma map_file:
  assumes inv: "tab_inv F N s" and t: "tasks (master s) k = Some t" "Phase t = MapPhase"
  shows "Filename t \<in> set F"
proof -
  have k: "unat k \<le> length F" using tab_invD(2) [OF inv t(1)] t(2) by simp
  have "unat k \<in> set [1..<Suc (min (unat (taskSeq (master s))) (length F))]" using k task_number [OF inv t(1)] by auto
  then have "fname (master s) (unat k) \<in># mapNames (length F) (master s)"
    unfolding mapNames_def set_mset_mset set_map by (rule imageI)
  then have "Filename t \<in># mapNames (length F) (master s)" using task_number(3) [OF inv t(1)] by simp
  then have "Filename t \<in># mset (take (sent F N (sched s)) F) \<or> Filename t \<in># mset F"
    using tab_invD(3,5) [OF inv] by (cases "mapping_phase (sched s)") (metis union_iff, metis)
  then show ?thesis by (auto dest: in_set_takeD)
qed

lemma reduce_file:
  assumes inv: "tab_inv F N s" and live: "live_inv F N s" and t: "tasks (master s) k = Some t" "Phase t = ReducePhase"
  shows "\<exists>i<N. Filename t = reducePattern i"
proof -
  note k = reduce_number [OF inv live t]
  have "unat k \<in> set [Suc (length F)..<Suc (unat (taskSeq (master s)))]" using k(2) task_number [OF inv t(1)] by auto
  then have "fname (master s) (unat k) \<in># reduceNames (length F) (master s)"
    unfolding reduceNames_def set_mset_mset set_map by (rule imageI)
  then have "Filename t \<in># mset (map reducePattern [0..<sent F N (sched s) - length F])"
    using tab_invD(6) [OF inv k(1)] task_number(3) [OF inv t(1)] by (metis union_iff)
  then obtain i where "i < sent F N (sched s) - length F" "Filename t = reducePattern i" by auto
  moreover have "sent F N (sched s) \<le> length F + N" using live by (simp add: live_inv_def)
  ultimately show ?thesis by (intro exI [of _ i]) auto
qed

lemma distinct_mset_part:
  assumes "mset xs + mset zs = mset ys" "distinct ys"
  shows "distinct xs"
proof -
  have "mset (xs @ zs) = mset ys" using assms(1) by simp
  with assms(2) have "distinct (xs @ zs)" using mset_eq_imp_distinct_iff by blast
  then show ?thesis by simp
qed

text \<open>No two reduce tasks have the same pattern.\<close>

lemma reduce_once:
  assumes inv: "tab_inv F N s" and live: "live_inv F N s"
    and t: "tasks (master s) k = Some t" "Phase t = ReducePhase"
    and u: "tasks (master s) l = Some u" "Phase u = ReducePhase" "Filename u = Filename t"
    and inj: "inj reducePattern"
  shows "k = l"
proof -
  note k = reduce_number [OF inv live t] and l = reduce_number(2) [OF inv live u(1,2)]
  let ?I = "[Suc (length F)..<Suc (unat (taskSeq (master s)))]"
  have "distinct (map (fname (master s)) ?I)"
    using tab_invD(6) [OF inv k(1)] inj unfolding reduceNames_def pendingNames_def
    by (elim distinct_mset_part) (simp add: distinct_map inj_on_def inj_def)
  then have "inj_on (fname (master s)) (set ?I)" unfolding distinct_map by blast
  moreover have "unat k \<in> set ?I" "unat l \<in> set ?I"
    using k(2) l task_number [OF inv t(1)] task_number [OF inv u(1)] by auto
  moreover have "fname (master s) (unat k) = fname (master s) (unat l)"
    using task_number(3) [OF inv t(1)] task_number(3) [OF inv u(1)] u(3) by simp
  ultimately have "unat k = unat l" by (elim inj_onD)
  then show ?thesis by (simp add: word_eq_iff_unsigned [where 'a = nat])
qed

text \<open>The map tasks of a complete map phase: one for each file.\<close>

definition mapList :: "nat \<Rightarrow> Master \<Rightarrow> MRTask list" where
  "mapList l m = map (\<lambda>j. the (tasks m (of_nat j))) [1..<Suc l]"

lemma mapList_props:
  assumes inv: "tab_inv F N s" and live: "live_inv F N s" and ph: "\<not> mapping_phase (sched s)"
  shows "distinct (map TaskID (mapList (length F) (master s)))"
    "mset (map Filename (mapList (length F) (master s))) = mset F"
    "t \<in> set (mapList (length F) (master s)) \<longleftrightarrow> Phase t = MapPhase \<and> (\<exists>k. tasks (master s) k = Some t)"
proof -
  let ?m = "master s"
  have le: "length F \<le> unat (taskSeq ?m)" using tab_invD(4) [OF inv ph] .
  have num: "unat (of_nat j :: 32 word) = j" if "j \<le> length F" for j
    using unat_of_nat_seq [of j "taskSeq ?m"] that le by simp
  have ex: "\<exists>t. tasks ?m (of_nat j) = Some t" if "j \<in> set [1..<Suc (length F)]" for j
  proof -
    from that have j: "0 < j" "j \<le> length F" by auto
    then have "tasks ?m (of_nat j) \<noteq> None" unfolding tab_invD(1) [OF inv] num [OF j(2)] using le by simp
    then show ?thesis by blast
  qed
  have keyed: "keyed ?m" using live by (simp add: live_inv_def)
  have tid: "TaskID (the (tasks ?m (of_nat j))) = of_nat j" if "j \<in> set [1..<Suc (length F)]" for j
    using ex [OF that] keyed by (auto simp: keyed_def simp del: upt_Suc)
  have "map TaskID (mapList (length F) ?m) = map of_nat [1..<Suc (length F)]"
    unfolding mapList_def map_map by (rule map_cong [OF refl]) (simp only: o_apply tid)
  moreover have "inj_on (of_nat :: nat \<Rightarrow> 32 word) (set [1..<Suc (length F)])"
    using num by (intro inj_on_inverseI [of _ unat]) auto
  ultimately show "distinct (map TaskID (mapList (length F) ?m))" by (simp only: distinct_map distinct_upt simp_thms)
  have "map Filename (mapList (length F) ?m) = map (fname ?m) [1..<Suc (length F)]"
    unfolding mapList_def map_map by (rule map_cong [OF refl]) (simp only: o_apply fname_def)
  moreover have "min (unat (taskSeq ?m)) (length F) = length F" using le by simp
  ultimately show "mset (map Filename (mapList (length F) ?m)) = mset F"
    using tab_invD(5) [OF inv ph] by (simp only: mapNames_def)
  show "t \<in> set (mapList (length F) ?m) \<longleftrightarrow> Phase t = MapPhase \<and> (\<exists>k. tasks ?m k = Some t)"
  proof
    assume "t \<in> set (mapList (length F) ?m)"
    then obtain j where j: "j \<in> set [1..<Suc (length F)]" "t = the (tasks ?m (of_nat j))"
      unfolding mapList_def set_map by blast
    from ex [OF j(1)] j(2) have t: "tasks ?m (of_nat j) = Some t" by auto
    have "j \<le> length F" using j(1) by auto
    with tab_invD(2) [OF inv t] num have "Phase t = MapPhase" by simp
    with t show "Phase t = MapPhase \<and> (\<exists>k. tasks ?m k = Some t)" by blast
  next
    assume "Phase t = MapPhase \<and> (\<exists>k. tasks ?m k = Some t)"
    then obtain k where k: "tasks ?m k = Some t" "Phase t = MapPhase" by blast
    have "unat k \<in> set [1..<Suc (length F)]" using tab_invD(2) [OF inv k(1)] k(2) task_number(1) [OF inv k(1)] by auto
    moreover have "t = the (tasks ?m (of_nat (unat k)))" using k(1) by simp
    ultimately show "t \<in> set (mapList (length F) ?m)" unfolding mapList_def set_map by blast
  qed
qed

end
