(* ===== verification/MR_System.thy ===== *)
theory MR_System
  imports MR_Crew MR_Table
begin

text \<open>
  The whole of a distributed job: the master of \<open>MR_Schedule\<close>, any number of workers, one disk. Registration, retries, lost workers, heartbeats
  and the writes of the workers interleave in any order.
\<close>

section \<open>States and steps\<close>

record JobSys =
  job :: Sys
  jdisk :: WState
  workers :: "wpc list"

text \<open>
  The events of the master alone are those that belong to no worker's \<open>GetTask\<close> and to no report. The numbers under which workers ask are left open.
\<close>

datatype jevent =
    JMaster mevent
  | JJoin
  | JRetry nat MRArgs MRTask
  | JBlock nat
  | JRecv nat MRArgs
  | JAssign nat
  | JNoTask nat
  | JRunning nat
  | JBegin nat
  | JPanic nat
  | JFail nat
  | JWrite nat
  | JFinish nat
  | JUnheard nat
  | JCrash nat

fun masterOnly :: "mevent \<Rightarrow> bool" where
  "masterOnly (SetStateEv args) = False"
| "masterOnly (RetryEv args) = False"
| "masterOnly (RecvEv args) = False"
| "masterOnly (AssignEv args f) = False"
| "masterOnly _ = True"

definition job_init :: "string list \<Rightarrow> int \<Rightarrow> WState \<Rightarrow> JobSys \<Rightarrow> bool" where
  "job_init F n w0 J \<longleftrightarrow> mr_init F n (job J) \<and> jdisk J = w0 \<and> workers J = []"

inductive jstep :: "App \<Rightarrow> JobSys \<Rightarrow> jevent \<Rightarrow> JobSys \<Rightarrow> bool" for A where
  master: "mstep (job J) e s \<Longrightarrow> masterOnly e \<Longrightarrow> jstep A J (JMaster e) (J\<lparr>job := s\<rparr>)"
| join: "mstep (job J) RegEv s \<Longrightarrow> snd (RegWorker (master (job J))) = Inr wid \<Longrightarrow>
    jstep A J JJoin (J\<lparr>job := s, workers := workers J @ [Asking True]\<rparr>)"
| retry_to: "i < length (workers J) \<Longrightarrow> workers J ! i = Asking a \<Longrightarrow> sched (job J) \<noteq> Exited \<Longrightarrow>
    covers ks (master (job J)) \<Longrightarrow> getRetry now ks args (master (job J)) = (m, Some t) \<Longrightarrow>
    jstep A J (JRetry i args t) (J\<lparr>job := (job J)\<lparr>master := m\<rparr>, workers := (workers J)[i := answered a t]\<rparr>)"
| block: "i < length (workers J) \<Longrightarrow> workers J ! i = Asking a \<Longrightarrow> sched (job J) \<noteq> Exited \<Longrightarrow>
    covers ks (master (job J)) \<Longrightarrow> getRetry now ks args (master (job J)) = (m, None) \<Longrightarrow>
    jstep A J (JBlock i) (J\<lparr>workers := (workers J)[i := Blocked a]\<rparr>)"
| recv_to: "i < length (workers J) \<Longrightarrow> workers J ! i = Blocked a \<Longrightarrow> sched (job J) \<noteq> Exited \<Longrightarrow>
    offered (master (job J)) (sched (job J)) = Some (f, pc) \<Longrightarrow>
    jstep A J (JRecv i args)
      (J\<lparr>job := (job J)\<lparr>sched := pc, getting := (args, f) # getting (job J)\<rparr>, workers := (workers J)[i := Fetched a args f]\<rparr>)"
| assign_to: "i < length (workers J) \<Longrightarrow> workers J ! i = Fetched a args f \<Longrightarrow> sched (job J) \<noteq> Exited \<Longrightarrow>
    (args, f) \<in> set (getting (job J)) \<Longrightarrow> assignTask now args f (master (job J)) = (m, Some t) \<Longrightarrow>
    jstep A J (JAssign i)
      (J\<lparr>job := (job J)\<lparr>master := m, getting := remove1 (args, f) (getting (job J))\<rparr>, workers := (workers J)[i := answered a t]\<rparr>)"
| no_task: "i < length (workers J) \<Longrightarrow> workers J ! i = Blocked a \<Longrightarrow> chanClosed (sched (job J)) \<Longrightarrow>
    jstep A J (JNoTask i) (J\<lparr>workers := (workers J)[i := Stopped]\<rparr>)"
| running: "i < length (workers J) \<Longrightarrow> workers J ! i = Got t \<Longrightarrow>
    mstep (job J) (SetStateEv \<lparr>arg_ID = TaskID t, arg_State = TaskStateRunning\<rparr>) s \<Longrightarrow>
    jstep A J (JRunning i) (J\<lparr>job := s, workers := (workers J)[i := Started t]\<rparr>)"
| begin_task: "i < length (workers J) \<Longrightarrow> workers J ! i = Started t \<Longrightarrow> taskOps A t (jdisk J) = Some ops \<Longrightarrow>
    jstep A J (JBegin i) (J\<lparr>workers := (workers J)[i := Writing t ops]\<rparr>)"
| panic: "i < length (workers J) \<Longrightarrow> workers J ! i = Started t \<Longrightarrow> taskOps A t (jdisk J) = None \<Longrightarrow>
    jstep A J (JPanic i) (J\<lparr>workers := (workers J)[i := Writing t []]\<rparr>)"
| fail_task: "i < length (workers J) \<Longrightarrow> workers J ! i = Started t \<Longrightarrow> taskOps A t (jdisk J) = None \<Longrightarrow>
    mstep (job J) (SetStateEv \<lparr>arg_ID = TaskID t, arg_State = TaskStateErr\<rparr>) s \<Longrightarrow>
    jstep A J (JFail i) (J\<lparr>job := s, workers := (workers J)[i := Stopped]\<rparr>)"
| write_op: "i < length (workers J) \<Longrightarrow> workers J ! i = Writing t (op # ops) \<Longrightarrow>
    jstep A J (JWrite i) (J\<lparr>jdisk := runOp op (jdisk J), workers := (workers J)[i := Writing t ops]\<rparr>)"
| finish: "i < length (workers J) \<Longrightarrow> workers J ! i = Writing t [] \<Longrightarrow>
    mstep (job J) (SetStateEv \<lparr>arg_ID = TaskID t, arg_State = TaskStateFinish\<rparr>) s \<Longrightarrow>
    jstep A J (JFinish i) (J\<lparr>job := s, workers := (workers J)[i := Asking True]\<rparr>)"
| unheard: "i < length (workers J) \<Longrightarrow> workers J ! i = Writing t [] \<Longrightarrow>
    jstep A J (JUnheard i) (J\<lparr>workers := (workers J)[i := Asking True]\<rparr>)"
| crash: "i < length (workers J) \<Longrightarrow> jstep A J (JCrash i) (J\<lparr>workers := (workers J)[i := died (workers J ! i)]\<rparr>)"

inductive_cases jstepE: "jstep A J e J'"

text \<open>
  A step is careful if the scheduler is timely, if no heartbeat with an older state of its task is being handled when the scheduler
  finds all tasks finished, and if a task is given to another worker only when the one that had it is gone and its heartbeats have been handled: the
  watch over the heartbeats has taken a dead worker for dead, not a slow one.
\<close>

fun careful :: "JobSys \<Rightarrow> jevent \<Rightarrow> JobSys \<Rightarrow> bool" where
  "careful J (JMaster e) J' \<longleftrightarrow>
     timely (job J) e \<and>
     (sched (job J') \<noteq> sched (job J) \<and> (sched (job J') = StartReduce \<or> sched (job J') = AllDone) \<longrightarrow>
      (\<forall>(k, v) \<in> set (beatsIn (job J)). task_State v = TaskStateFinish))"
| "careful J (JRetry i args t) J' \<longleftrightarrow>
     workers J ! i = Asking False \<or>
     unheld (workers J) (TaskID t) \<and> (\<forall>(k, v) \<in> set (beatsIn (job J)). k \<noteq> TaskID t)"
| "careful J e J' \<longleftrightarrow> True"

definition careful_step :: "App \<Rightarrow> JobSys \<Rightarrow> jevent \<Rightarrow> JobSys \<Rightarrow> bool" where
  "careful_step A J e J' \<longleftrightarrow> jstep A J e J' \<and> careful J e J'"

section \<open>What a step of the master does to the states of the tasks\<close>

abbreviation fin :: "MRTask \<Rightarrow> bool" where
  "fin t \<equiv> task_State t = TaskStateFinish"

lemma fin_mark: "fin (mark now t) = fin t"
  by (simp add: mark_def)

lemma same_task_mark: "same_task t (mark now t)"
  by (simp add: same_task_def mark_def)

lemma getRetry_some:
  assumes "keyed m" "getRetry now ks args m = (m', Some t)"
  obtains u where "tasks m (TaskID t) = Some u" "task_State u = TaskStateErr" "same_task u t"
    "task_State t = TaskStateSending" "m' = m\<lparr>tasks := (tasks m)(TaskID t \<mapsto> t)\<rparr>"
  using assms(1)
proof (cases rule: getRetry_cases [where now = now and ks = ks and args = args])
  case none
  with assms(2) show thesis by simp
next
  case (retry k u)
  with assms have "TaskID u = k" "t = retried now args u" by (auto simp: keyed_def)
  with retry assms(2) show thesis by (intro that [of u]) auto
qed

lemma assignTask_some:
  assumes "assignTask now args f m = (m', Some t)"
  shows "TaskID t = taskSeq m + 1" "task_State t = TaskStateSending" "Phase t = mrPhase m"
    "tasks m' = (tasks m)(TaskID t \<mapsto> t)"
  using assms by (auto simp: assignTask_def genTaskID_def Let_def)

lemma fresh_number:
  assumes inv: "tab_inv F N s" and live: "live_inv F N s" and g: "getting s \<noteq> []" and B: "length F + N < 2 ^ 32"
  shows "tasks (master s) (taskSeq (master s) + 1) = None"
proof -
  have "unat (taskSeq (master s)) + length (getting s) \<le> length F + N" using live by (auto simp: live_inv_def)
  with g B have "Suc (unat (taskSeq (master s))) < 2 ^ 32" by (cases "getting s") auto
  then have "unat (taskSeq (master s) + 1) = Suc (unat (taskSeq (master s)))" by (simp add: unat_word_ariths)
  with tab_invD(1) [OF inv, of "taskSeq (master s) + 1"] show ?thesis by auto
qed

text \<open>The states of the tasks after a step that is not a report of a worker.\<close>

definition status_step :: "Sys \<Rightarrow> Sys \<Rightarrow> bool" where
  "status_step s s' \<longleftrightarrow>
     (\<forall>k t. tasks (master s) k = Some t \<longrightarrow> (\<exists>u. tasks (master s') k = Some u \<and> same_task t u \<and>
        (fin u \<longrightarrow> fin t \<or> (\<exists>v. (k, v) \<in> set (beatsIn s) \<and> fin v)))) \<and>
     (\<forall>k u. tasks (master s') k = Some u \<longrightarrow> fin u \<longrightarrow>
        (\<exists>t. tasks (master s) k = Some t \<and> same_task t u \<and> fin t) \<or>
        (\<exists>v. (k, v) \<in> set (beatsIn s) \<and> same_task v u \<and> fin v)) \<and>
     (\<forall>k v. (k, v) \<in> set (beatsIn s') \<longrightarrow> (k, v) \<in> set (beatsIn s) \<or> tasks (master s) k = Some v) \<and>
     (\<forall>k u. tasks (master s') k = Some u \<longrightarrow> \<not> fin u \<longrightarrow>
        tasks (master s) k = None \<and> Phase u = mrPhase (master s) \<and> getting s \<noteq> [] \<or>
        (\<exists>t. tasks (master s) k = Some t \<and> same_task t u \<and> \<not> fin t) \<or>
        (\<exists>v. (k, v) \<in> set (beatsIn s) \<and> same_task v u \<and> \<not> fin v))"

lemma status_stepD:
  assumes "status_step s s'"
  shows "tasks (master s) k = Some t \<Longrightarrow> \<exists>u. tasks (master s') k = Some u \<and> same_task t u \<and>
        (fin u \<longrightarrow> fin t \<or> (\<exists>v. (k, v) \<in> set (beatsIn s) \<and> fin v))"
    "tasks (master s') k = Some u \<Longrightarrow> fin u \<Longrightarrow>
        (\<exists>t. tasks (master s) k = Some t \<and> same_task t u \<and> fin t) \<or>
        (\<exists>v. (k, v) \<in> set (beatsIn s) \<and> same_task v u \<and> fin v)"
    "(k, v) \<in> set (beatsIn s') \<Longrightarrow> (k, v) \<in> set (beatsIn s) \<or> tasks (master s) k = Some v"
    "tasks (master s') k = Some u \<Longrightarrow> \<not> fin u \<Longrightarrow>
        tasks (master s) k = None \<and> Phase u = mrPhase (master s) \<and> getting s \<noteq> [] \<or>
        (\<exists>t. tasks (master s) k = Some t \<and> same_task t u \<and> \<not> fin t) \<or>
        (\<exists>v. (k, v) \<in> set (beatsIn s) \<and> same_task v u \<and> \<not> fin v)"
  using assms unfolding status_step_def by (elim conjE; blast)+

lemma status_same:
  assumes "tasks (master s') = tasks (master s)" "set (beatsIn s') \<subseteq> set (beatsIn s)"
  shows "status_step s s'"
  unfolding status_step_def assms(1)
proof (intro conjI allI impI)
  fix k t assume "tasks (master s) k = Some t"
  then show "\<exists>u. tasks (master s) k = Some u \<and> same_task t u \<and> (fin u \<longrightarrow> fin t \<or> (\<exists>v. (k, v) \<in> set (beatsIn s) \<and> fin v))"
    by auto
qed (use assms(2) same_task_refl in blast)+

text \<open>One entry of the table is replaced, by the same task in a state that is not finished unless it was or a heartbeat says so.\<close>

lemma status_store:
  assumes "tasks (master s) k = Some t" "same_task t u" "tasks (master s') = (tasks (master s))(k \<mapsto> u)"
    and "set (beatsIn s') \<subseteq> set (beatsIn s)"
    and "\<exists>x. (x = t \<or> (k, x) \<in> set (beatsIn s)) \<and> fin x = fin u \<and> same_task x u"
  shows "status_step s s'"
proof -
  from assms(5) obtain x where x: "x = t \<or> (k, x) \<in> set (beatsIn s)" "fin x = fin u" "same_task x u" by blast
  show ?thesis
    unfolding status_step_def assms(3)
  proof (intro conjI allI impI)
    fix j a assume "tasks (master s) j = Some a"
    then show "\<exists>b. ((tasks (master s))(k \<mapsto> u)) j = Some b \<and> same_task a b \<and>
        (fin b \<longrightarrow> fin a \<or> (\<exists>v. (j, v) \<in> set (beatsIn s) \<and> fin v))"
      using assms(1,2) x by (cases "j = k") auto
  next
    fix j b assume "((tasks (master s))(k \<mapsto> u)) j = Some b" "fin b"
    then show "(\<exists>a. tasks (master s) j = Some a \<and> same_task a b \<and> fin a) \<or>
        (\<exists>v. (j, v) \<in> set (beatsIn s) \<and> same_task v b \<and> fin v)"
      using assms(1,2) x same_task_refl by (cases "j = k") auto
  next
    fix j v assume "(j, v) \<in> set (beatsIn s')"
    then show "(j, v) \<in> set (beatsIn s) \<or> tasks (master s) j = Some v" using assms(4) by blast
  next
    fix j b assume "((tasks (master s))(k \<mapsto> u)) j = Some b" "\<not> fin b"
    then show "tasks (master s) j = None \<and> Phase b = mrPhase (master s) \<and> getting s \<noteq> [] \<or>
        (\<exists>a. tasks (master s) j = Some a \<and> same_task a b \<and> \<not> fin a) \<or>
        (\<exists>v. (j, v) \<in> set (beatsIn s) \<and> same_task v b \<and> \<not> fin v)"
      using assms(1,2) x same_task_refl by (cases "j = k") auto
  qed
qed

text \<open>A new entry.\<close>

lemma status_new:
  assumes "tasks (master s) k = None" "\<not> fin u" "Phase u = mrPhase (master s)" "getting s \<noteq> []"
    and "tasks (master s') = (tasks (master s))(k \<mapsto> u)" "set (beatsIn s') \<subseteq> set (beatsIn s)"
  shows "status_step s s'"
  unfolding status_step_def assms(5)
proof (intro conjI allI impI)
  fix j a assume "tasks (master s) j = Some a"
  then show "\<exists>b. ((tasks (master s))(k \<mapsto> u)) j = Some b \<and> same_task a b \<and>
      (fin b \<longrightarrow> fin a \<or> (\<exists>v. (j, v) \<in> set (beatsIn s) \<and> fin v))"
    using assms(1) by (cases "j = k") auto
qed (use assms(1-4,6) same_task_refl in \<open>auto split: if_splits\<close>)

lemma status_monitor:
  assumes "keyed (master s)" "master s' = handleHeartbeat now ks (master s)" "beatsIn s' = beatsIn s"
  shows "status_step s s'"
proof -
  define f where "f k = (if k \<in> set ks then mark now else id)" for k
  have m: "tasks (master s') k = map_option (f k) (tasks (master s) k)" for k
    using handleHeartbeat_tasks [OF assms(1)] assms(2) by (cases "k \<in> set ks") (simp_all add: f_def option.map_id)
  have f: "fin (f k t) = fin t" "same_task t (f k t)" for k t
    by (simp_all add: f_def fin_mark same_task_mark)
  show ?thesis
    unfolding status_step_def m assms(3) by (intro conjI allI impI) (use f in auto)
qed

lemma mstep_status:
  assumes st: "mstep s e s'" and e: "\<And>args. e \<noteq> SetStateEv args"
    and inv: "tab_inv F N s" and live: "live_inv F N s" and B: "length F + N < 2 ^ 32"
  shows "status_step s s'"
proof -
  have k: "keyed (master s)" using live by (simp add: live_inv_def)
  from st show ?thesis
  proof cases
    case (beat_load tid v)
    then have v: "tasks (master s) tid = Some v" by (simp add: heartBeatLoad_def)
    show ?thesis unfolding status_step_def beat_load
      by (intro conjI allI impI) (use v same_task_refl in auto)
  next
    case (beat_store tid v now)
    then obtain u where u: "tasks (master s) tid = Some u" "same_task u v" using live unfolding live_inv_def by blast
    show ?thesis
    proof (rule status_store [OF u(1)])
      show "same_task u (v\<lparr>BeatTime := now\<rparr>)" using u(2) by (simp add: same_task_def)
      show "\<exists>x. (x = u \<or> (tid, x) \<in> set (beatsIn s)) \<and> fin x = fin (v\<lparr>BeatTime := now\<rparr>) \<and> same_task x (v\<lparr>BeatTime := now\<rparr>)"
        using beat_store by (intro exI [of _ v]) (simp add: same_task_def)
    qed (use beat_store set_remove1_subset in \<open>simp_all add: heartBeatStore_def\<close>)
  next
    case (monitor ks now)
    then show ?thesis by (intro status_monitor [OF k]) simp_all
  next
    case (retry ks now args m t)
    from getRetry_some [OF k retry(5)] obtain u where "tasks (master s) (TaskID t) = Some u" "task_State u = TaskStateErr"
      "same_task u t" "task_State t = TaskStateSending" "m = (master s)\<lparr>tasks := (tasks (master s))(TaskID t \<mapsto> t)\<rparr>" by blast
    then show ?thesis unfolding retry by (intro status_store [where u = t]) auto
  next
    case (assign args f now m t)
    from assign obtain u where u: "t = Some u" by (cases t) (auto simp: assignTask_def genTaskID_def Let_def)
    have g: "getting s \<noteq> []" using assign by auto
    note a = assignTask_some [OF assign(5) [unfolded u]]
    show ?thesis
      by (rule status_new [of _ "TaskID u" u]) (use a g fresh_number [OF inv live g B] in \<open>simp_all add: assign\<close>)
  next
    case (tick ks m pc)
    then have "tasks m = tasks (master s)" by (cases "sched s") (auto split: if_splits)
    with tick show ?thesis by (intro status_same) simp_all
  next
    case (set_state args now)
    with e show ?thesis by blast
  qed (auto intro!: status_same simp: RegWorker_def getWorkerID_def DeRegWorker_def putWorkerID_def AddReduceTask_def split: list.split)
qed

end
