(* ===== verification/MR_Correct.thy ===== *)
theory MR_Correct
  imports MR_System
begin

text \<open>
  The invariant of a careful run of the whole job (\<open>MR_System\<close>), and what it gives: when the master reports the job done, the output files hold what
  \<open>mrsequential\<close> computes.
\<close>

section \<open>Parts of the invariant\<close>

text \<open>A settled task: its phase is over, so it is finished and stays so.\<close>

definition settled :: "Sched \<Rightarrow> MRTask \<Rightarrow> bool" where
  "settled pc t \<longleftrightarrow> pc = AllDone \<or> Phase t = MapPhase \<and> (pc = StartReduce \<or> \<not> mapping_phase pc)"

definition settled_inv :: "Sys \<Rightarrow> bool" where
  "settled_inv s \<longleftrightarrow>
     (\<forall>k t. tasks (master s) k = Some t \<longrightarrow> settled (sched s) t \<longrightarrow> fin t) \<and>
     (\<forall>k v. (k, v) \<in> set (beatsIn s) \<longrightarrow> settled (sched s) v \<longrightarrow> fin v)"

text \<open>Only the files of the tasks change.\<close>

definition frame_inv :: "nat \<Rightarrow> WState \<Rightarrow> (32 word \<Rightarrow> MRTask option) \<Rightarrow> WState \<Rightarrow> bool" where
  "frame_inv N w0 T w \<longleftrightarrow>
     disk_ok w \<and> (\<forall>n. (\<forall>k t. T k = Some t \<longrightarrow> \<not> mine N t n) \<longrightarrow> map_of (w_disk w) n = map_of (w_disk w0) n)"

lemma settled_same: "same_task t u \<Longrightarrow> settled pc t = settled pc u"
  by (simp add: settled_def same_task_def)

lemma settled_invD:
  assumes "settled_inv s"
  shows "tasks (master s) k = Some t \<Longrightarrow> settled (sched s) t \<Longrightarrow> fin t"
    "(k, v) \<in> set (beatsIn s) \<Longrightarrow> settled (sched s) v \<Longrightarrow> fin v"
  using assms unfolding settled_inv_def by blast+

definition job_inv :: "App \<Rightarrow> string list \<Rightarrow> nat \<Rightarrow> WState \<Rightarrow> (string \<Rightarrow> KeyValue list)
    \<Rightarrow> (string \<Rightarrow> string list \<Rightarrow> string) \<Rightarrow> JobSys \<Rightarrow> bool" where
  "job_inv A F N w0 out g J \<longleftrightarrow>
     live_inv F N (job J) \<and> tab_inv F N (job J) \<and>
     work_inv (mine N) (complete A F N out g) (tasks (master (job J))) (beatsIn (job J)) (workers J) (jdisk J) \<and>
     frame_inv N w0 (tasks (master (job J))) (jdisk J) \<and> settled_inv (job J)"

lemma job_invD:
  assumes "job_inv A F N w0 out g J"
  shows "live_inv F N (job J)" "tab_inv F N (job J)"
    "work_inv (mine N) (complete A F N out g) (tasks (master (job J))) (beatsIn (job J)) (workers J) (jdisk J)"
    "frame_inv N w0 (tasks (master (job J))) (jdisk J)" "settled_inv (job J)"
  using assms by (simp_all add: job_inv_def)

section \<open>Steps that change the table\<close>

lemma frame_table:
  assumes "frame_inv N w0 T w" "\<And>k t. T k = Some t \<Longrightarrow> \<exists>u. T' k = Some u \<and> same_task t u"
  shows "frame_inv N w0 T' w"
  unfolding frame_inv_def
proof (intro conjI allI impI)
  fix n assume no: "\<forall>k t. T' k = Some t \<longrightarrow> \<not> mine N t n"
  have "\<not> mine N t n" if "T k = Some t" for k t using assms(2) [OF that] no mine_same by blast
  with assms(1) show "map_of (w_disk w) n = map_of (w_disk w0) n" unfolding frame_inv_def by blast
qed (use assms(1) in \<open>simp add: frame_inv_def\<close>)

text \<open>A phase becomes settled only when the scheduler has found all tasks finished.\<close>

lemma tick_settles:
  assumes "scheduleTick ks m0 p = (m, pc)" "settled pc u" "\<not> settled p u" "pc \<noteq> Exited"
  shows "pc \<noteq> p \<and> (pc = StartReduce \<or> pc = AllDone) \<and> isTasksDone ks m0 \<and> tasks m = tasks m0"
  using assms by (cases p) (auto simp: settled_def split: if_splits)

lemma offer_keeps_settled:
  assumes "offered m p = Some (f, pc)"
  shows "settled pc u = settled p u"
  using assms by (cases p) (auto simp: settled_def split: if_splits)

lemma newly_settled:
  assumes "mstep s e s'" "settled (sched s') u" "\<not> settled (sched s) u" "sched s' \<noteq> Exited"
  shows "sched s' \<noteq> sched s \<and> (sched s' = StartReduce \<or> sched s' = AllDone) \<and> beatsIn s' = beatsIn s \<and>
     tasks (master s') = tasks (master s) \<and> (\<forall>k t. tasks (master s) k = Some t \<longrightarrow> fin t)"
  using assms(1)
proof cases
  case (tick ks m pc)
  with tick_settles [OF tick(5), of u] assms(2-4)
  have "sched s' \<noteq> sched s" "sched s' = StartReduce \<or> sched s' = AllDone" "isTasksDone ks (master s)" "tasks m = tasks (master s)"
    by simp_all
  with tick isTasksDone_all [OF tick(4)] show ?thesis by auto
next
  case (recv f pc args)
  with assms(2,3) offer_keeps_settled [OF recv(4)] have False by simp
  then show ?thesis ..
qed (use assms(2,3) in auto)

text \<open>A new task is not settled.\<close>

lemma new_unsettled:
  assumes "live_inv F N s" "getting s \<noteq> []" "Phase u = mrPhase (master s)"
  shows "\<not> settled (sched s) u"
  using assms by (auto simp: live_inv_def settled_def)

lemma settled_step:
  assumes inv: "settled_inv s" and st: "mstep s e s'" and status: "status_step s s'" and live: "live_inv F N s"
    and x: "sched s' \<noteq> Exited"
    and quiet: "sched s' \<noteq> sched s \<Longrightarrow> sched s' = StartReduce \<or> sched s' = AllDone \<Longrightarrow>
      \<forall>(k, v) \<in> set (beatsIn s). fin v"
  shows "settled_inv s'"
  unfolding settled_inv_def
proof (intro conjI allI impI)
  fix k u assume u: "tasks (master s') k = Some u" "settled (sched s') u"
  show "fin u"
  proof (cases "settled (sched s) u")
    case False
    from newly_settled [OF st u(2) this x] u(1) show ?thesis by auto
  next
    case True
    show ?thesis
    proof (rule ccontr)
      assume "\<not> fin u"
      from status_stepD(4) [OF status u(1) this] consider "Phase u = mrPhase (master s)" "getting s \<noteq> []"
        | t where "tasks (master s) k = Some t" "same_task t u" "\<not> fin t"
        | v where "(k, v) \<in> set (beatsIn s)" "same_task v u" "\<not> fin v" by blast
      then show False
      proof cases
        case 1
        then show ?thesis using True new_unsettled [OF live] by blast
      next
        case 2
        then show ?thesis using True settled_invD(1) [OF inv] settled_same by blast
      next
        case 3
        then show ?thesis using True settled_invD(2) [OF inv] settled_same by blast
      qed
    qed
  qed
next
  fix k v assume v: "(k, v) \<in> set (beatsIn s')" "settled (sched s') v"
  show "fin v"
  proof (cases "settled (sched s) v")
    case False
    from newly_settled [OF st v(2) this x] v(1) quiet show ?thesis by auto
  next
    case True
    with status_stepD(3) [OF status v(1)] settled_invD [OF inv] show ?thesis by blast
  qed
qed

lemma work_status:
  assumes inv: "work_inv (mine N) (complete A F N out g) (tasks (master s)) (beatsIn s) W w" and status: "status_step s s'"
  shows "work_inv (mine N) (complete A F N out g) (tasks (master s')) (beatsIn s') W w"
proof (rule work_table [OF inv])
  fix k t assume t: "tasks (master s) k = Some t"
  from status_stepD(1) [OF status t] obtain u where u: "tasks (master s') k = Some u" "same_task t u"
    "fin u \<longrightarrow> fin t \<or> (\<exists>v. (k, v) \<in> set (beatsIn s) \<and> fin v)" by blast
  then have "fin u \<longrightarrow> fin t \<or> unheld W k" using work_invD(4) [OF inv] by blast
  with u show "\<exists>u. tasks (master s') k = Some u \<and> same_task t u \<and> (fin u \<longrightarrow> fin t \<or> unheld W k)" by blast
next
  fix k u assume "tasks (master s') k = Some u" "fin u"
  from status_stepD(2) [OF status this] show "complete A F N out g u w"
    using work_invD(3,5) [OF inv] complete_same by metis
next
  fix k v assume v: "(k, v) \<in> set (beatsIn s')" "fin v"
  from status_stepD(3) [OF status v(1)] v(2) show "complete A F N out g v w \<and> unheld W k"
    using work_invD(3-5) [OF inv] finished_unheld [OF inv] by blast
qed

lemma job_master:
  assumes inv: "job_inv A F N w0 out g J" and st: "mstep (job J) e s'" and e: "\<And>args. e \<noteq> SetStateEv args"
    and ok: "timely (job J) e" and x: "sched s' \<noteq> Exited" and B: "length F + N < 2 ^ 32"
    and quiet: "sched s' \<noteq> sched (job J) \<Longrightarrow> sched s' = StartReduce \<or> sched s' = AllDone \<Longrightarrow>
      \<forall>(k, v) \<in> set (beatsIn (job J)). fin v"
  shows "job_inv A F N w0 out g (J\<lparr>job := s'\<rparr>)"
proof -
  note I = job_invD [OF inv]
  have "sched (job J) \<noteq> Exited" using st by cases
  then have "sys_inv F N (job J)" using I(1) by (simp add: sys_inv_def)
  moreover have "timely_step (job J) e s'" using st ok by (simp add: timely_step_def)
  ultimately have "sys_inv F N s'" by (rule sys_inv_step)
  then have live: "live_inv F N s'" using x B by (simp add: sys_inv_def)
  have status: "status_step (job J) s'" by (rule mstep_status [OF st e I(2,1) B])
  have "frame_inv N w0 (tasks (master s')) (jdisk J)"
    by (rule frame_table [OF I(4)]) (use status_stepD(1) [OF status] in blast)
  moreover have "settled_inv s'" by (rule settled_step [OF I(5) st status I(1) x quiet])
  ultimately show ?thesis
    using live tab_inv_step [OF I(2,1) st x B] work_status [OF I(3) status] by (simp add: job_inv_def)
qed

section \<open>Steps of the workers\<close>

text \<open>No two tasks share a file.\<close>

lemma files_disjoint:
  assumes inv: "tab_inv F N s" and live: "live_inv F N s"
    and a: "tasks (master s) k = Some a" "mine N a n" and b: "tasks (master s) l = Some b" "mine N b n"
  shows "k = l"
proof -
  have key: "TaskID a = k" "TaskID b = l" using live a(1) b(1) by (auto simp: live_inv_def keyed_def)
  show ?thesis
  proof (cases "Phase a"; cases "Phase b")
    assume "Phase a = MapPhase" "Phase b = MapPhase"
    with a(2) b(2) key show ?thesis by (auto simp: mine_def)
  next
    assume p: "Phase a = ReducePhase" "Phase b = ReducePhase"
    with a(2) b(2) have "Filename b = Filename a" by (auto simp: mine_def)
    moreover have "inj reducePattern" by (simp add: inj_def)
    ultimately show ?thesis using reduce_once [OF inv live a(1) p(1) b(1) p(2)] by blast
  qed (use a(2) b(2) in \<open>auto simp: mine_def\<close>)
qed

lemma job_sep:
  assumes "job_inv A F N w0 out g J"
  shows "tasks (master (job J)) k = Some a \<Longrightarrow> tasks (master (job J)) l = Some b \<Longrightarrow> mine N a n \<Longrightarrow> mine N b n \<Longrightarrow> k = l"
  using files_disjoint [OF job_invD(2,1) [OF assms]] by blast

text \<open>A worker goes on, without a word to the master.\<close>

lemma job_move:
  assumes inv: "job_inv A F N w0 out g J" and i: "i < length (workers J)"
    and p: "holding p = None \<or> holding p = holding (workers J ! i)"
    and ops: "\<And>t ops. p = Writing t ops \<Longrightarrow> (\<forall>op\<in>set ops. mine N t (opName op)) \<and> complete A F N out g t (runOps ops (jdisk J))"
  shows "job_inv A F N w0 out g (J\<lparr>workers := (workers J)[i := p]\<rparr>)"
  using job_invD [OF inv] work_move [OF job_invD(3) [OF inv] i p ops] by (simp add: job_inv_def)

text \<open>What an execution reads is in place, so it can begin.\<close>

text \<open>Once the reduce phase has begun, the intermediate files are those of the map tasks, complete.\<close>

lemma frame_keep:
  assumes "job_inv A F N w0 out g J" "\<And>k v. tasks (master (job J)) k = Some v \<Longrightarrow> \<not> mine N v n"
  shows "map_of (w_disk (jdisk J)) n = map_of (w_disk w0) n"
  using job_invD(4) [OF assms(1)] assms(2) unfolding frame_inv_def by blast

lemma intermediate_owner:
  assumes G: "goodJob A F N w0 out g" and inv: "job_inv A F N w0 out g J"
    and n: "n \<in> dom (map_of (w_disk (jdisk J)))" "l < N" "matchName (reducePattern l) n"
  obtains k v where "tasks (master (job J)) k = Some v" "Phase v = MapPhase" "n = bucketName (TaskID v) l"
proof -
  have "\<exists>k v. tasks (master (job J)) k = Some v \<and> mine N v n"
  proof (rule ccontr)
    assume "\<not> (\<exists>k v. tasks (master (job J)) k = Some v \<and> mine N v n)"
    then have "map_of (w_disk (jdisk J)) n = map_of (w_disk w0) n" by (intro frame_keep [OF inv]) blast
    with n(1) have "n \<in> dom (map_of (w_disk w0))" by (simp add: domIff)
    with goodJobD(9) [OF G _ n(2)] n(3) show False by blast
  qed
  then obtain k v where v: "tasks (master (job J)) k = Some v" "mine N v n" by blast
  have "Phase v = MapPhase"
  proof (rule ccontr)
    assume "Phase v \<noteq> MapPhase"
    with v(2) obtain r where "n = outName r" by (auto simp: mine_def split: MRPhase.splits)
    with n(3) out_name_no_match [of l r] show False by (simp add: outName_def)
  qed
  with v n(3) have "n = bucketName (TaskID v) l" by (auto simp: mine_def)
  with v(1) \<open>Phase v = MapPhase\<close> show thesis by (rule that)
qed

lemma intermediate_ready:
  assumes G: "goodJob A F N w0 out g" and inv: "job_inv A F N w0 out g J" and ph: "\<not> mapping_phase (sched (job J))"
  shows "bucketsOnDisk (a_enc A) (mapBucket A N out) N (mapList (length F) (master (job J))) (jdisk J)"
  unfolding bucketsOnDisk_def
proof (intro conjI ballI allI impI)
  note I = job_invD [OF inv]
  note ml = mapList_props [OF I(2,1) ph]
  show "disk_ok (jdisk J)" using I(4) by (simp add: frame_inv_def)
  show "map_of (w_disk (jdisk J)) (bucketName (TaskID v) l) = Some (a_enc A (mapBucket A N out v l))"
    if v: "v \<in> set (mapList (length F) (master (job J)))" "l < N" for v l
  proof -
    obtain k where k: "tasks (master (job J)) k = Some v" "Phase v = MapPhase" using ml(3) v(1) by blast
    then have "fin v" using ph by (intro settled_invD(1) [OF I(5)]) (auto simp: settled_def)
    from work_invD(5) [OF I(3) k(1) this] v(2) k(2) show ?thesis by (simp add: complete_def)
  qed
  show "\<exists>v\<in>set (mapList (length F) (master (job J))). n = bucketName (TaskID v) l"
    if "n \<in> dom (map_of (w_disk (jdisk J)))" "l < N" "matchName (reducePattern l) n" for n l
    by (rule intermediate_owner [OF G inv that]) (use ml(3) in blast)
qed

lemma job_begin:
  assumes G: "goodJob A F N w0 out g" and inv: "job_inv A F N w0 out g J"
    and i: "i < length (workers J)" "workers J ! i = Started t"
  shows "\<exists>ops. taskOps A t (jdisk J) = Some ops \<and> (\<forall>op\<in>set ops. mine N t (opName op)) \<and>
     complete A F N out g t (runOps ops (jdisk J))"
proof -
  note I = job_invD [OF inv]
  have "holding (workers J ! i) = Some t" using i(2) by simp
  from work_invD(1) [OF I(3) i(1) this] obtain u where u: "tasks (master (job J)) (TaskID t) = Some u" "same_task u t" by blast
  have eq: "Phase u = Phase t" "Filename u = Filename t" "NReduce u = NReduce t" using u(2) by (auto simp: same_task_def)
  show ?thesis
  proof (cases "Phase t")
    case MapPhase
    with map_file [OF I(2) u(1)] eq have f: "Filename t \<in> set F" by simp
    then have "map_of (w_disk (jdisk J)) (Filename t) = map_of (w_disk w0) (Filename t)"
      by (intro frame_keep [OF inv] input_not_mine [OF G])
    moreover have "NReduce t = int N" using tab_invD(2) [OF I(2) u(1)] eq by simp
    ultimately show ?thesis using begin_map [OF G MapPhase _ f] by blast
  next
    case ReducePhase
    have ph: "\<not> mapping_phase (sched (job J))" using reduce_number(1) [OF I(2,1) u(1)] eq ReducePhase by simp
    obtain j where j: "j < N" "Filename t = reducePattern j"
      using reduce_file [OF I(2,1) u(1)] eq ReducePhase by auto
    from intermediate_ready [OF G inv ph] show ?thesis
      by (rule begin_reduce [OF G ReducePhase j(2,1) _ mapList_props(1,2) [OF I(2,1) ph]])
  qed
qed

text \<open>A report of a worker about its task.\<close>

lemma report_table:
  assumes "mstep s (SetStateEv \<lparr>arg_ID = k, arg_State = st\<rparr>) s'" "tasks (master s) k = Some e"
  obtains u where "s' = s\<lparr>master := (master s)\<lparr>tasks := (tasks (master s))(k \<mapsto> u)\<rparr>\<rparr>" "same_task e u" "task_State u = st"
  using assms(1)
proof cases
  case (set_state now)
  let ?u = "\<lparr>WorkerID = WorkerID e, TaskID = TaskID e, NReduce = NReduce e, Phase = Phase e, Filename = Filename e,
    task_State = st, BeatTime = now\<rparr>"
  have "fst (SetTaskState now \<lparr>arg_ID = k, arg_State = st\<rparr> (master s)) = (master s)\<lparr>tasks := (tasks (master s))(k \<mapsto> ?u)\<rparr>"
    using assms(2) by (simp add: SetTaskState_def Let_def)
  with set_state show thesis by (intro that [of ?u]) (simp_all add: same_task_def)
qed

lemma job_report:
  assumes inv: "job_inv A F N w0 out g J" and B: "length F + N < 2 ^ 32"
    and st: "mstep (job J) (SetStateEv \<lparr>arg_ID = k, arg_State = st\<rparr>) s'" and e: "tasks (master (job J)) k = Some e" "\<not> fin e"
    and fin: "st = TaskStateFinish \<Longrightarrow> complete A F N out g e (jdisk J) \<and> unheld (workers J) k"
  shows "job_inv A F N w0 out g (J\<lparr>job := s'\<rparr>)"
proof -
  note I = job_invD [OF inv]
  let ?T = "tasks (master (job J))"
  from report_table [OF st e(1)] obtain u where u: "same_task e u" "task_State u = st"
    and s': "s' = (job J)\<lparr>master := (master (job J))\<lparr>tasks := ?T(k \<mapsto> u)\<rparr>\<rparr>" by blast
  have "sched (job J) \<noteq> Exited" using st by cases
  then have x: "sched s' = sched (job J)" "sched s' \<noteq> Exited" by (simp_all add: s')
  have "sys_inv F N (job J)" using I(1) by (simp add: sys_inv_def)
  moreover have "timely_step (job J) (SetStateEv \<lparr>arg_ID = k, arg_State = st\<rparr>) s'" using st by (simp add: timely_step_def)
  ultimately have "sys_inv F N s'" by (rule sys_inv_step)
  then have live: "live_inv F N s'" using x(2) B by (simp add: sys_inv_def)
  have keep: "\<exists>v. (?T(k \<mapsto> u)) j = Some v \<and> same_task a v \<and> (fin v \<longrightarrow> fin a \<or> unheld (workers J) j)"
    if "?T j = Some a" for j a
    using that e u fin by (cases "j = k") auto
  have "work_inv (mine N) (complete A F N out g) (?T(k \<mapsto> u)) (beatsIn (job J)) (workers J) (jdisk J)"
  proof (rule work_table [OF I(3) keep])
    fix j v assume "(?T(k \<mapsto> u)) j = Some v" "fin v"
    then show "complete A F N out g v (jdisk J)"
      using fin u complete_same [OF u(1)] work_invD(5) [OF I(3)] by (cases "j = k") auto
  next
    fix j v assume v: "(j, v) \<in> set (beatsIn (job J))" "fin v"
    show "complete A F N out g v (jdisk J) \<and> unheld (workers J) j"
      using work_invD(3) [OF I(3) v] work_invD(4) [OF I(3) v] by (rule conjI)
  qed
  moreover have "frame_inv N w0 (?T(k \<mapsto> u)) (jdisk J)" by (rule frame_table [OF I(4)]) (use keep in blast)
  moreover have "settled_inv s'"
  proof -
    have "\<not> settled (sched (job J)) u" using settled_invD(1) [OF I(5) e(1)] e(2) settled_same [OF u(1)] by blast
    then show ?thesis using settled_invD [OF I(5)] x(1) unfolding settled_inv_def by (auto simp: s' split: if_splits)
  qed
  ultimately show ?thesis using live tab_inv_step [OF I(2,1) st x(2) B] by (simp add: job_inv_def s')
qed

text \<open>A write to the disk.\<close>

lemma job_write:
  assumes inv: "job_inv A F N w0 out g J" and i: "i < length (workers J)" "workers J ! i = Writing t (op # ops)"
  shows "job_inv A F N w0 out g (J\<lparr>jdisk := runOp op (jdisk J), workers := (workers J)[i := Writing t ops]\<rparr>)"
proof -
  note I = job_invD [OF inv]
  have beats: "\<exists>u. tasks (master (job J)) k = Some u \<and> same_task u v" if "(k, v) \<in> set (beatsIn (job J))" for k v
    using I(1) that unfolding live_inv_def by blast
  have "holding (workers J ! i) = Some t" using i(2) by simp
  from work_invD(1) [OF I(3) i(1) this] obtain u where u: "tasks (master (job J)) (TaskID t) = Some u" "same_task u t" by blast
  have own: "mine N u (opName op)" using work_invD(6) [OF I(3) i, of op] mine_same [OF u(2)] by simp
  have "frame_inv N w0 (tasks (master (job J))) (runOp op (jdisk J))"
    unfolding frame_inv_def
  proof (intro conjI allI impI)
    show "disk_ok (runOp op (jdisk J))" using I(4) by (simp add: frame_inv_def runOp_ok)
    fix n assume no: "\<forall>k v. tasks (master (job J)) k = Some v \<longrightarrow> \<not> mine N v n"
    then have "n \<noteq> opName op" using u(1) own by blast
    then have "map_of (w_disk (runOp op (jdisk J))) n = map_of (w_disk (jdisk J)) n" by (rule runOp_other)
    also have "\<dots> = map_of (w_disk w0) n" using I(4) no unfolding frame_inv_def by blast
    finally show "map_of (w_disk (runOp op (jdisk J))) n = map_of (w_disk w0) n" .
  qed
  moreover note job_files.work_write [OF I(3) i job_sep [OF inv] beats]
  ultimately show ?thesis using I(1,2,5) by (simp add: job_inv_def)
qed

text \<open>A worker receives a task.\<close>

lemma job_receive:
  assumes inv: "job_inv A F N w0 out g J" and i: "i < length (workers J)" "holding (workers J ! i) = None"
    and t: "tasks (master (job J)) (TaskID t) = Some t" "\<not> fin t" "unheld (workers J) (TaskID t)"
    and beats: "\<And>v. (TaskID t, v) \<in> set (beatsIn (job J)) \<Longrightarrow> \<not> fin v"
  shows "job_inv A F N w0 out g (J\<lparr>workers := (workers J)[i := Got t]\<rparr>)"
proof -
  from work_receive [OF job_invD(3) [OF inv] i t beats] job_invD [OF inv] show ?thesis by (simp add: job_inv_def)
qed

text \<open>The handler of a worker that is gone answers nobody.\<close>

lemma job_answered:
  assumes inv: "job_inv A F N w0 out g J" and i: "i < length (workers J)" "holding (workers J ! i) = None"
    and t: "a \<Longrightarrow> tasks (master (job J)) (TaskID t) = Some t \<and> \<not> fin t \<and> unheld (workers J) (TaskID t) \<and>
      (\<forall>v. (TaskID t, v) \<in> set (beatsIn (job J)) \<longrightarrow> \<not> fin v)"
  shows "job_inv A F N w0 out g (J\<lparr>workers := (workers J)[i := answered a t]\<rparr>)"
proof (cases a)
  case True
  with t job_receive [OF inv i] show ?thesis by (simp add: answered_def)
next
  case False
  then show ?thesis by (intro job_move [OF inv i(1)]) (simp_all add: answered_def)
qed

lemma job_retry:
  assumes inv: "job_inv A F N w0 out g J" and B: "length F + N < 2 ^ 32" and x: "sched (job J) \<noteq> Exited"
    and i: "i < length (workers J)" "workers J ! i = Asking a"
    and r: "covers ks (master (job J))" "getRetry now ks args (master (job J)) = (m, Some t)"
    and ok: "a \<Longrightarrow> unheld (workers J) (TaskID t) \<and> (\<forall>(k, v) \<in> set (beatsIn (job J)). k \<noteq> TaskID t)"
  shows "job_inv A F N w0 out g (J\<lparr>job := (job J)\<lparr>master := m\<rparr>, workers := (workers J)[i := answered a t]\<rparr>)"
proof -
  let ?J = "J\<lparr>job := (job J)\<lparr>master := m\<rparr>\<rparr>"
  have k: "keyed (master (job J))" using job_invD(1) [OF inv] by (simp add: live_inv_def)
  from getRetry_some [OF k r(2)] have t: "task_State t = TaskStateSending"
    "m = (master (job J))\<lparr>tasks := (tasks (master (job J)))(TaskID t \<mapsto> t)\<rparr>" by blast+
  have "mstep (job J) (RetryEv args) ((job J)\<lparr>master := m\<rparr>)" by (rule mstep.retry [OF x r])
  from job_master [OF inv this _ _ _ B] x have "job_inv A F N w0 out g ?J" by simp
  from job_answered [OF this, of i a t] i t ok show ?thesis by force
qed

lemma job_assign:
  assumes inv: "job_inv A F N w0 out g J" and B: "length F + N < 2 ^ 32" and x: "sched (job J) \<noteq> Exited"
    and i: "i < length (workers J)" "workers J ! i = Fetched a args f"
    and r: "(args, f) \<in> set (getting (job J))" "assignTask now args f (master (job J)) = (m, Some t)"
  shows "job_inv A F N w0 out g (J\<lparr>job := (job J)\<lparr>master := m, getting := remove1 (args, f) (getting (job J))\<rparr>,
     workers := (workers J)[i := answered a t]\<rparr>)"
proof -
  note I = job_invD [OF inv]
  let ?s = "(job J)\<lparr>master := m, getting := remove1 (args, f) (getting (job J))\<rparr>"
  let ?J = "J\<lparr>job := ?s\<rparr>"
  note new = assignTask_some [OF r(2)]
  have "getting (job J) \<noteq> []" using r(1) by auto
  then have free: "tasks (master (job J)) (TaskID t) = None" using fresh_number [OF I(2,1) _ B] new(1) by simp
  have un: "unheld (workers J) (TaskID t)"
  proof (rule unheldI)
    fix j u assume "j < length (workers J)" "holding (workers J ! j) = Some u"
    from work_invD(1) [OF I(3) this] free show "TaskID u \<noteq> TaskID t" by auto
  qed
  have b: "\<not> fin v" if "(TaskID t, v) \<in> set (beatsIn (job J))" for v
    using I(1) that free unfolding live_inv_def by fastforce
  have "mstep (job J) (AssignEv args f) ?s" by (rule mstep.assign [OF x r])
  from job_master [OF inv this _ _ _ B] x have "job_inv A F N w0 out g ?J" by simp
  from job_answered [OF this, of i a t] i new(2,4) un b show ?thesis by simp
qed

lemma job_workers_commute: "J\<lparr>workers := W, job := s\<rparr> = J\<lparr>job := s, workers := W\<rparr>"
  by (cases J) simp

text \<open>A worker finishes its task.\<close>

lemma job_finish:
  assumes inv: "job_inv A F N w0 out g J" and B: "length F + N < 2 ^ 32"
    and i: "i < length (workers J)" "workers J ! i = Writing t []"
    and st: "mstep (job J) (SetStateEv \<lparr>arg_ID = TaskID t, arg_State = TaskStateFinish\<rparr>) s"
  shows "job_inv A F N w0 out g (J\<lparr>job := s, workers := (workers J)[i := Asking True]\<rparr>)"
proof -
  note I = job_invD [OF inv]
  have h: "holding (workers J ! i) = Some t" using i(2) by simp
  from work_invD(1) [OF I(3) i(1) h] obtain e where e: "tasks (master (job J)) (TaskID t) = Some e" "same_task e t" "\<not> fin e" by blast
  have "complete A F N out g t (runOps [] (jdisk J))" by (rule work_invD(7) [OF I(3) i])
  then have c: "complete A F N out g e (jdisk J)" using complete_same [OF e(2)] by simp
  let ?J = "J\<lparr>workers := (workers J)[i := Asking True]\<rparr>"
  have un: "unheld (workers ?J) (TaskID t)"
  proof (rule unheldI)
    fix j u assume j: "j < length (workers ?J)" "holding (workers ?J ! j) = Some u"
    then have "j \<noteq> i" using i(1) by auto
    with j have "j \<noteq> i" "j < length (workers J)" "holding (workers J ! j) = Some u" by simp_all
    with work_invD(2) [OF I(3) _ i(1) _ h, of j u] show "TaskID u \<noteq> TaskID t" by blast
  qed
  have "job_inv A F N w0 out g ?J" by (rule job_move [OF inv i(1)]) simp_all
  from job_report [OF this B, of "TaskID t" TaskStateFinish s e] st e c un show ?thesis by (simp add: job_workers_commute)
qed

section \<open>The invariant\<close>

definition job_system_inv :: "App \<Rightarrow> string list \<Rightarrow> nat \<Rightarrow> WState \<Rightarrow> (string \<Rightarrow> KeyValue list)
    \<Rightarrow> (string \<Rightarrow> string list \<Rightarrow> string) \<Rightarrow> JobSys \<Rightarrow> bool" where
  "job_system_inv A F N w0 out g J \<longleftrightarrow>
     (goodJob A F N w0 out g \<and> length F + N < 2 ^ 32 \<and> sched (job J) \<noteq> Exited \<longrightarrow> job_inv A F N w0 out g J)"

lemma job_inv_step:
  assumes G: "goodJob A F N w0 out g" and B: "length F + N < 2 ^ 32" and inv: "job_inv A F N w0 out g J"
    and st: "jstep A J e J'" and ok: "careful J e J'" and x: "sched (job J') \<noteq> Exited"
  shows "job_inv A F N w0 out g J'"
  using st
proof cases
  case (master e s)
  then have "\<And>args. e \<noteq> SetStateEv args" by auto
  with master ok x show ?thesis by (simp add: job_master [OF inv _ _ _ _ B])
next
  case (join s wid)
  have "job_inv A F N w0 out g (J\<lparr>job := s\<rparr>)" by (rule job_master [OF inv join(3) _ _ _ B]) (use x join in \<open>auto elim: mstepE\<close>)
  from job_invD [OF this] work_join [OF job_invD(3) [OF this]] join show ?thesis by (simp add: job_inv_def)
next
  case (retry_to i a ks now args m t)
  with ok job_retry [OF inv B, of i a ks now args m t] show ?thesis by auto
next
  case (recv_to i a f pc args)
  let ?s = "(job J)\<lparr>sched := pc, getting := (args, f) # getting (job J)\<rparr>"
  have "mstep (job J) (RecvEv args) ?s" by (rule mstep.recv [OF recv_to(5,6)])
  moreover have "pc \<noteq> StartReduce" "pc \<noteq> AllDone" using recv_to(6) by (cases "sched (job J)"; auto split: if_splits)+
  ultimately have "job_inv A F N w0 out g (J\<lparr>job := ?s\<rparr>)"
    using x recv_to(2) by (intro job_master [OF inv _ _ _ _ B]) auto
  from job_move [OF this, of i "Fetched a args f"] recv_to show ?thesis by simp
next
  case (assign_to i a args f now m t)
  with job_assign [OF inv B, of i a args f now m t] show ?thesis by simp
next
  case (running i t s)
  then have h: "holding (workers J ! i) = Some t" by simp
  from work_invD(1) [OF job_invD(3) [OF inv] running(3) h] obtain u
    where u: "tasks (master (job J)) (TaskID t) = Some u" "\<not> fin u" by blast
  let ?J = "J\<lparr>workers := (workers J)[i := Started t]\<rparr>"
  have "job_inv A F N w0 out g ?J" by (rule job_move [OF inv running(3)]) (simp_all add: h)
  from job_report [OF this B, of "TaskID t" TaskStateRunning s u] running u show ?thesis by (simp add: job_workers_commute)
next
  case (begin_task i t ops)
  then have h: "holding (workers J ! i) = Some t" by simp
  from job_begin [OF G inv begin_task(3,4)] begin_task have ops: "(\<forall>op\<in>set ops. mine N t (opName op)) \<and>
      complete A F N out g t (runOps ops (jdisk J))" by simp
  show ?thesis unfolding begin_task by (rule job_move [OF inv begin_task(3)]) (use h ops in simp_all)
next
  case (panic i t)
  with job_begin [OF G inv panic(3,4)] show ?thesis by simp
next
  case (fail_task i t s)
  with job_begin [OF G inv fail_task(3,4)] show ?thesis by simp
next
  case (write_op i t op ops)
  with job_write [OF inv] show ?thesis by simp
next
  case (finish i t s)
  with job_finish [OF inv B] show ?thesis by simp
qed (auto intro!: job_move [OF inv])

lemma job_inv_init:
  assumes "job_init F n w0 J" "disk_ok w0"
  shows "job_inv A F (nat n) w0 out g J"
proof -
  have i: "mr_init F n (job J)" "jdisk J = w0" "workers J = []" using assms(1) by (simp_all add: job_init_def)
  then obtain m where m: "MakeMaster F n = Inr (Some m)" "master (job J) = fst (scheduleStart m)" "beatsIn (job J) = []"
    by (auto simp: mr_init_def prod_eq_iff)
  then have t: "tasks (master (job J)) = (\<lambda>_. None)"
    by (auto simp: MakeMaster_def Let_def scheduleStart_def split: if_splits)
  show ?thesis
    using live_inv_init(1) [OF i(1)] tab_inv_init [OF i(1)] i(2,3) m(3) t assms(2)
    by (simp add: job_inv_def work_inv_def frame_inv_def settled_inv_def)
qed

lemma jstep_not_exited: "jstep A J e J' \<Longrightarrow> sched (job J') \<noteq> Exited \<Longrightarrow> sched (job J) \<noteq> Exited"
  by (erule jstepE) (auto elim: mstepE)

interpretation whole_job: invariant_system "job_init F n w0" "careful_step A" "job_system_inv A F (nat n) w0 out g" for F n w0 A out g
proof unfold_locales
  fix J assume "job_init F n w0 J"
  then show "job_system_inv A F (nat n) w0 out g J"
    by (auto simp: job_system_inv_def goodJob_def intro!: job_inv_init)
next
  fix J e J' assume inv: "job_system_inv A F (nat n) w0 out g J" and st: "careful_step A J e J'"
  have "job_inv A F (nat n) w0 out g J'"
    if "goodJob A F (nat n) w0 out g" "length F + nat n < 2 ^ 32" "sched (job J') \<noteq> Exited"
    using that inv st jstep_not_exited [of A J e J']
    by (intro job_inv_step [of A F "nat n" w0 out g J e J']) (auto simp: job_system_inv_def careful_step_def)
  then show "job_system_inv A F (nat n) w0 out g J'" by (simp add: job_system_inv_def)
qed

end
