(* ===== verification/MR_Exec.thy ===== *)
theory MR_Exec
  imports MR_System
begin

text \<open>
  The steps of the whole job as a function, and concrete runs of it: one file, one reduce task.
\<close>

section \<open>Steps as a function\<close>

text \<open>The clock and the order in which the table is visited are given.\<close>

fun jexec :: "App \<Rightarrow> int \<Rightarrow> 32 word list \<Rightarrow> JobSys \<Rightarrow> jevent \<Rightarrow> JobSys option" where
  "jexec A now ks J (JMaster e) =
     (if masterOnly e then map_option (\<lambda>s. J\<lparr>job := s\<rparr>) (mexec now ks (job J) e) else None)"
| "jexec A now ks J JJoin =
     (case RegWorker (master (job J)) of
        (m, Inl err) \<Rightarrow> None
      | (m, Inr wid) \<Rightarrow> Some (J\<lparr>job := (job J)\<lparr>master := m\<rparr>, workers := workers J @ [Asking True]\<rparr>))"
| "jexec A now ks J (JRetry i args t) =
     (if i < length (workers J)
      then (case (workers J ! i, getRetry now ks args (master (job J))) of
              (Asking a, m, Some u) \<Rightarrow>
                if u = t then Some (J\<lparr>job := (job J)\<lparr>master := m\<rparr>, workers := (workers J)[i := answered a t]\<rparr>) else None
            | _ \<Rightarrow> None)
      else None)"
| "jexec A now ks J (JBlock i) =
     (if i < length (workers J)
      then (case (workers J ! i, getRetry now ks \<lparr>arg_ID = 0, arg_State = TaskStateQueue\<rparr> (master (job J))) of
              (Asking a, m, None) \<Rightarrow> Some (J\<lparr>workers := (workers J)[i := Blocked a]\<rparr>)
            | _ \<Rightarrow> None)
      else None)"
| "jexec A now ks J (JRecv i args) =
     (if i < length (workers J)
      then (case (workers J ! i, offered (master (job J)) (sched (job J))) of
              (Blocked a, Some (f, pc)) \<Rightarrow>
                Some (J\<lparr>job := (job J)\<lparr>sched := pc, getting := (args, f) # getting (job J)\<rparr>,
                        workers := (workers J)[i := Fetched a args f]\<rparr>)
            | _ \<Rightarrow> None)
      else None)"
| "jexec A now ks J (JAssign i) =
     (if i < length (workers J)
      then (case workers J ! i of
              Fetched a args f \<Rightarrow>
                if (args, f) \<in> set (getting (job J))
                then (case assignTask now args f (master (job J)) of
                        (m, None) \<Rightarrow> None
                      | (m, Some t) \<Rightarrow>
                          Some (J\<lparr>job := (job J)\<lparr>master := m, getting := remove1 (args, f) (getting (job J))\<rparr>,
                                  workers := (workers J)[i := answered a t]\<rparr>))
                else None
            | _ \<Rightarrow> None)
      else None)"
| "jexec A now ks J (JNoTask i) =
     (if i < length (workers J)
      then (case workers J ! i of
              Blocked a \<Rightarrow> if chanClosed (sched (job J)) then Some (J\<lparr>workers := (workers J)[i := Stopped]\<rparr>) else None
            | _ \<Rightarrow> None)
      else None)"
| "jexec A now ks J (JRunning i) =
     (if i < length (workers J)
      then (case workers J ! i of
              Got t \<Rightarrow> map_option (\<lambda>s. J\<lparr>job := s, workers := (workers J)[i := Started t]\<rparr>)
                (mexec now ks (job J) (SetStateEv \<lparr>arg_ID = TaskID t, arg_State = TaskStateRunning\<rparr>))
            | _ \<Rightarrow> None)
      else None)"
| "jexec A now ks J (JBegin i) =
     (if i < length (workers J)
      then (case workers J ! i of
              Started t \<Rightarrow> map_option (\<lambda>ops. J\<lparr>workers := (workers J)[i := Writing t ops]\<rparr>) (taskOps A t (jdisk J))
            | _ \<Rightarrow> None)
      else None)"
| "jexec A now ks J (JPanic i) =
     (if i < length (workers J)
      then (case workers J ! i of
              Started t \<Rightarrow> if taskOps A t (jdisk J) = None then Some (J\<lparr>workers := (workers J)[i := Writing t []]\<rparr>) else None
            | _ \<Rightarrow> None)
      else None)"
| "jexec A now ks J (JFail i) =
     (if i < length (workers J)
      then (case workers J ! i of
              Started t \<Rightarrow>
                if taskOps A t (jdisk J) = None
                then map_option (\<lambda>s. J\<lparr>job := s, workers := (workers J)[i := Stopped]\<rparr>)
                  (mexec now ks (job J) (SetStateEv \<lparr>arg_ID = TaskID t, arg_State = TaskStateErr\<rparr>))
                else None
            | _ \<Rightarrow> None)
      else None)"
| "jexec A now ks J (JWrite i) =
     (if i < length (workers J)
      then (case workers J ! i of
              Writing t (op # ops) \<Rightarrow> Some (J\<lparr>jdisk := runOp op (jdisk J), workers := (workers J)[i := Writing t ops]\<rparr>)
            | _ \<Rightarrow> None)
      else None)"
| "jexec A now ks J (JFinish i) =
     (if i < length (workers J)
      then (case workers J ! i of
              Writing t [] \<Rightarrow> map_option (\<lambda>s. J\<lparr>job := s, workers := (workers J)[i := Asking True]\<rparr>)
                (mexec now ks (job J) (SetStateEv \<lparr>arg_ID = TaskID t, arg_State = TaskStateFinish\<rparr>))
            | _ \<Rightarrow> None)
      else None)"
| "jexec A now ks J (JUnheard i) =
     (if i < length (workers J)
      then (case workers J ! i of Writing t [] \<Rightarrow> Some (J\<lparr>workers := (workers J)[i := Asking True]\<rparr>) | _ \<Rightarrow> None)
      else None)"
| "jexec A now ks J (JCrash i) =
     (if i < length (workers J) then Some (J\<lparr>workers := (workers J)[i := died (workers J ! i)]\<rparr>) else None)"

lemma jexec_sound:
  assumes run: "jexec A now ks J e = Some J'" and x: "sched (job J) \<noteq> Exited" "covers ks (master (job J))"
  shows "jstep A J e J'"
proof (cases e)
  case (JMaster ev)
  with run obtain s where s: "mexec now ks (job J) ev = Some s" "J' = J\<lparr>job := s\<rparr>" "masterOnly ev"
    by (auto split: if_splits)
  from mexec_sound [OF s(1) x] s JMaster show ?thesis by (simp add: jstep.master)
next
  case JJoin
  with run obtain m wid where m: "RegWorker (master (job J)) = (m, Inr wid)"
    "J' = J\<lparr>job := (job J)\<lparr>master := m\<rparr>, workers := workers J @ [Asking True]\<rparr>"
    by (auto split: prod.splits sum.splits)
  have "mstep (job J) RegEv ((job J)\<lparr>master := m\<rparr>)" using mstep.reg [OF x(1)] m(1) by simp
  then show ?thesis using m JJoin by (auto intro: jstep.join)
next
  case (JRetry i args t)
  with run x show ?thesis by (auto intro!: jstep.retry_to split: if_splits prod.splits option.splits wpc.splits)
next
  case (JBlock i)
  with run x show ?thesis by (auto intro: jstep.block split: if_splits prod.splits option.splits wpc.splits)
next
  case (JRecv i args)
  with run x show ?thesis by (auto intro!: jstep.recv_to split: if_splits prod.splits option.splits wpc.splits)
next
  case (JAssign i)
  with run x show ?thesis by (auto intro!: jstep.assign_to split: if_splits prod.splits option.splits wpc.splits)
next
  case (JNoTask i)
  with run show ?thesis by (auto intro!: jstep.no_task split: if_splits wpc.splits)
next
  case (JRunning i)
  with run mexec_sound [OF _ x] show ?thesis by (auto intro!: jstep.running split: if_splits wpc.splits simp del: mexec.simps)
next
  case (JBegin i)
  with run show ?thesis by (auto intro!: jstep.begin_task split: if_splits wpc.splits)
next
  case (JPanic i)
  with run show ?thesis by (auto intro!: jstep.panic split: if_splits wpc.splits)
next
  case (JFail i)
  with run mexec_sound [OF _ x] show ?thesis by (auto intro!: jstep.fail_task split: if_splits wpc.splits simp del: mexec.simps)
next
  case (JWrite i)
  with run show ?thesis by (auto intro!: jstep.write_op split: if_splits wpc.splits list.splits)
next
  case (JFinish i)
  with run mexec_sound [OF _ x] show ?thesis
    by (auto intro!: jstep.finish split: if_splits wpc.splits list.splits simp del: mexec.simps)
next
  case (JUnheard i)
  with run show ?thesis by (auto intro!: jstep.unheard split: if_splits wpc.splits list.splits)
next
  case (JCrash i)
  with run show ?thesis by (auto intro!: jstep.crash split: if_splits)
qed

text \<open>A run: events with the time. The flag asks for careful steps.\<close>

fun jrun :: "bool \<Rightarrow> App \<Rightarrow> 32 word list \<Rightarrow> (int \<times> jevent) list \<Rightarrow> JobSys \<Rightarrow> JobSys option" where
  "jrun c A ks [] J = Some J"
| "jrun c A ks ((now, e) # es) J =
     (if sched (job J) = Exited \<or> \<not> covers ks (master (job J)) then None
      else case jexec A now ks J e of
             None \<Rightarrow> None
           | Some J' \<Rightarrow> if c \<and> \<not> careful J e J' then None else jrun c A ks es J')"

lemma jrun_reach:
  assumes "reach init (jstep A) J" "jrun False A ks es J = Some J'"
  shows "reach init (jstep A) J'"
  using assms
proof (induction es arbitrary: J)
  case (Cons a es)
  obtain now e where a: "a = (now, e)" by (cases a)
  with Cons.prems(2) obtain K where K: "jexec A now ks J e = Some K" "jrun False A ks es K = Some J'"
    "sched (job J) \<noteq> Exited" "covers ks (master (job J))"
    by (auto split: if_splits option.splits)
  from Cons.prems(1) jexec_sound [OF K(1,3,4)] have "reach init (jstep A) K" by (rule reach.reach_step)
  then show ?case using K(2) by (rule Cons.IH)
qed simp

lemma jrun_careful:
  assumes "reach init (careful_step A) J" "jrun True A ks es J = Some J'"
  shows "reach init (careful_step A) J'"
  using assms
proof (induction es arbitrary: J)
  case (Cons a es)
  obtain now e where a: "a = (now, e)" by (cases a)
  with Cons.prems(2) obtain K where K: "jexec A now ks J e = Some K" "jrun True A ks es K = Some J'"
    "sched (job J) \<noteq> Exited" "covers ks (master (job J))" "careful J e K"
    by (auto split: if_splits option.splits)
  have "careful_step A J e K" using jexec_sound [OF K(1,3,4)] K(5) by (simp add: careful_step_def)
  with Cons.prems(1) have "reach init (careful_step A) K" by (rule reach.reach_step)
  then show ?case using K(2) by (rule Cons.IH)
qed simp

section \<open>A small job\<close>

definition smallApp :: App where
  "smallApp = \<lparr>a_os = sampleOS, a_srt = sort_key Key, a_enc = (\<lambda>kvs. replicate (length kvs) (CHR ''x'')),
     a_dec = (\<lambda>s. Some (replicate (length s) samplePair)), a_mapf = (\<lambda>f c. Inr [samplePair]),
     a_reducef = (\<lambda>k vs. Inr (itoa (length vs)))\<rparr>"

definition smallDisk :: WState where
  "smallDisk = \<lparr>w_disk = [(''f1'', ''a'')], reports = []\<rparr>"

definition smallStart :: JobSys where
  "smallStart = \<lparr>job = start [''f1''] 1, jdisk = smallDisk, workers = []\<rparr>"

definition asWorker :: "32 word \<Rightarrow> MRArgs" where
  "asWorker w = \<lparr>arg_ID = w, arg_State = TaskStateQueue\<rparr>"

text \<open>A worker carries out the map task; the reduce task is offered.\<close>

definition mapPart :: "(int \<times> jevent) list" where
  "mapPart = map (Pair 0)
     [JJoin, JBlock 0, JRecv 0 (asWorker 1), JAssign 0, JRunning 0, JBegin 0, JWrite 0, JWrite 0, JFinish 0,
      JBlock 0, JMaster TickEv, JMaster TickEv, JMaster TickEv, JRecv 0 (asWorker 1), JAssign 0, JRunning 0, JBegin 0]"

definition reducePart :: "(int \<times> jevent) list" where
  "reducePart = map (Pair 0) [JWrite 0, JWrite 0, JFinish 0, JMaster TickEv, JMaster TickEv]"

text \<open>The worker gets stuck before its first write; twenty seconds later its task is given to another worker, which carries it out.\<close>

definition slowPart :: "(int \<times> jevent) list" where
  "slowPart = map (Pair 20000000000)
     [JMaster MonitorEv, JJoin,
      JRetry 1 (asWorker 2) \<lparr>WorkerID = 2, TaskID = 2, NReduce = 1, Phase = ReducePhase, Filename = reducePattern 0,
        task_State = TaskStateSending, BeatTime = 20000000000\<rparr>,
      JRunning 1, JBegin 1, JWrite 1, JWrite 1, JFinish 1, JMaster TickEv, JMaster TickEv, JWrite 0]"

section \<open>Evaluation\<close>

lemma small_names: "reducePattern 0 = ''mr-*-0''" "itoa 0 = ''0''"
  by code_simp+

lemma small_map:
  "taskOps smallApp \<lparr>WorkerID = w, TaskID = 1, NReduce = 1, Phase = MapPhase, Filename = ''f1'', task_State = st, BeatTime = b\<rparr>
     \<lparr>w_disk = [(''f1'', ''a'')], reports = []\<rparr> = Some [CreateFile ''mr-1-0'', WriteAt ''mr-1-0'' 0 ''x'']"
  by code_simp

lemma small_reduce:
  "taskOps smallApp \<lparr>WorkerID = w, TaskID = 2, NReduce = 1, Phase = ReducePhase, Filename = ''mr-*-0'', task_State = st, BeatTime = b\<rparr>
     \<lparr>w_disk = [(''f1'', ''a''), (''mr-1-0'', ''x'')], reports = []\<rparr> =
   Some [CreateFile ''mr-out.0'', WriteAt ''mr-out.0'' 0 (''a 1'' @ [CHR 0x0A])]"
  by code_simp

lemmas job_run_defs = run_defs answered_def getRetry_def smallStart_def smallDisk_def asWorker_def small_names(1) small_map small_reduce putFile_def
  overwrite_def unheld_def Done_def

lemma whole_job_run:
  "\<exists>J. jrun True smallApp [1, 2] (mapPart @ reducePart) smallStart = Some J \<and> Done (master (job J))"
  by (simp add: mapPart_def reducePart_def job_run_defs)

lemma slow_job_run:
  "\<exists>J. jrun False smallApp [1, 2] (mapPart @ slowPart) smallStart = Some J \<and> Done (master (job J)) \<and>
     map_of (w_disk (jdisk J)) ''mr-out.0'' = Some []"
  by (simp add: mapPart_def slowPart_def job_run_defs handleHeartbeat_def)

lemma smallStart_reach: "reach (job_init [''f1''] 1 smallDisk) step smallStart"
  by (rule reach.reach_init) (simp add: job_init_def smallStart_def start_init)

end
