(* ===== verification/MR_Output.thy ===== *)
theory MR_Output
  imports MR_Correct MR_Exec
begin

text \<open>
  The output of a distributed job. The runs of the whole job project to runs of the master; a careful run gives the lines of the sequential
  program; without the care a slow worker can spoil the output of a job that has been reported done.
\<close>

section \<open>The master within the job\<close>

lemma jstep_job:
  assumes "jstep A J e J'"
  shows "job J' = job J \<or> (\<exists>e. mstep (job J) e (job J'))"
  using assms
proof cases
  case (retry_to i a ks now args m t)
  then show ?thesis using mstep.retry [of "job J" ks now args m t] by auto
next
  case (recv_to i a f pc args)
  then show ?thesis using mstep.recv [of "job J" f pc args] by auto
next
  case (assign_to i a args f now m t)
  then show ?thesis using mstep.assign [of "job J" args f now m "Some t"] by auto
qed auto

lemma job_projects:
  assumes "reach (job_init F n w0) (jstep A) J"
  shows "reach (mr_init F n) mstep (job J)"
  using assms
proof (induction rule: reach.induct)
  case (reach_init J)
  then show ?case by (simp add: job_init_def reach.reach_init)
next
  case (reach_step J e J')
  from jstep_job [OF reach_step.hyps(2)] show ?case
  proof
    assume "job J' = job J"
    with reach_step.IH show ?thesis by simp
  next
    assume "\<exists>e. mstep (job J) e (job J')"
    then obtain e where "mstep (job J) e (job J')" ..
    with reach_step.IH show ?thesis by (rule reach.reach_step)
  qed
qed

lemma careful_reach:
  assumes "reach (job_init F n w0) (careful_step A) J"
  shows "reach (job_init F n w0) (jstep A) J"
  using assms by (rule reach_mono) (simp add: careful_step_def)

lemma m_done_tick:
  "scheduleTick ks m p = (m', pc) \<Longrightarrow> m_done m' \<Longrightarrow> (m_done m \<longrightarrow> p = AllDone) \<Longrightarrow> pc = AllDone"
  by (cases p) (auto split: if_splits)

interpretation done_flag: invariant_system "mr_init F n" mstep
    "\<lambda>s. F \<noteq> [] \<longrightarrow> m_done (master s) \<longrightarrow> sched s = AllDone" for F n
proof unfold_locales
  fix s assume "mr_init F n s"
  then obtain m where "MakeMaster F n = Inr (Some m)" "master s = fst (scheduleStart m)"
    by (auto simp: mr_init_def prod_eq_iff)
  then show "F \<noteq> [] \<longrightarrow> m_done (master s) \<longrightarrow> sched s = AllDone"
    by (auto simp: MakeMaster_def scheduleStart_def Let_def split: if_splits)
next
  fix s e t assume inv: "F \<noteq> [] \<longrightarrow> m_done (master s) \<longrightarrow> sched s = AllDone" and "mstep s e t"
  from this(2) show "F \<noteq> [] \<longrightarrow> m_done (master t) \<longrightarrow> sched t = AllDone"
  proof cases
    case (retry ks now args m v)
    then show ?thesis using inv m_done_getRetry by auto
  next
    case (recv f pc args)
    then show ?thesis using inv by auto
  next
    case (assign args f now m v)
    then show ?thesis using inv by (auto simp: assignTask_def genTaskID_def Let_def)
  next
    case (tick ks m pc)
    then show ?thesis using inv m_done_tick [OF tick(5)] by auto
  qed (use inv in \<open>auto simp: m_done_keeps m_done_handleHeartbeat\<close>)
qed

section \<open>The output\<close>

lemma output_complete:
  assumes inv: "job_inv A F N w0 out g J" and d: "sched (job J) = AllDone" and i: "i < N"
  shows "map_of (w_disk (jdisk J)) (outName i) = Some (concat (outLines g N (concat (map out F)) i))"
proof -
  note I = job_invD [OF inv]
  have "placed F (job J) (length F + i)" "getting (job J) = []" using I(1) d i by (auto simp: live_inv_def)
  then obtain k t where t: "tasks (master (job J)) k = Some t" "Filename t = reducePattern i" "Phase t = ReducePhase"
    by (auto simp: placed_def item_def item_phase_def)
  have "fin t" by (rule settled_invD(1) [OF I(5) t(1)]) (simp add: settled_def d)
  from work_invD(5) [OF I(3) t(1) this] t i show ?thesis by (simp add: complete_def)
qed

lemma sequential_lines:
  assumes G: "goodJob A F N w0 out g" and ne: "F \<noteq> []"
  shows "mrsequential (a_os A) (a_srt A) (a_mapf A) (a_reducef A) F w0 =
    Inr (putFile ''mr-out-0'' (concat (map (mergedLine g (concat (map out F))) (keysOf (concat (map out F))))) w0)"
proof -
  have "seqMap (a_os A) (a_mapf A) w0 F [] = Inr (concat (map out F))"
    using seqMap_ok [OF goodJobD(1) [OF G], of F w0 "a_mapf A" out "[]"] goodJobD(4) [OF G] by auto
  then show ?thesis
    by (rule key_sorter.sequential_output [OF goodJobD(2) [OF G] goodJobD(1) [OF G] ne goodJobD(7) [OF G] goodJobD(6) [OF G]])
qed

lemma goodJob_intro:
  assumes os: "good_os (a_os A)" and sort: "go_sort (a_srt A)" and n: "0 < N"
    and codec: "\<And>kvs. \<forall>kv \<in> set kvs. V kv \<Longrightarrow> a_dec A (a_enc A kvs) = Some kvs"
    and input: "\<And>f. f \<in> set F \<Longrightarrow> \<exists>c. map_of (w_disk w0) f = Some c \<and> a_mapf A f c = Inr (out f)"
    and V: "\<And>f kv. f \<in> set F \<Longrightarrow> kv \<in> set (out f) \<Longrightarrow> V kv"
    and rf: "\<And>k vs. a_reducef A k vs = Inr (g k vs)" "perm_invariant g"
    and disk: "disk_ok w0" "\<And>name i. name \<in> dom (map_of (w_disk w0)) \<Longrightarrow> i < N \<Longrightarrow> \<not> matchName (reducePattern i) name"
    and names: "\<And>f i. f \<in> set F \<Longrightarrow> i < N \<Longrightarrow> f \<noteq> ''mr-out.'' @ itoa i"
  shows "goodJob A F N w0 out g"
proof -
  have srt: "key_sorter (a_srt A)" by (rule go_sort.sorts_by_key [OF sort])
  have set_srt: "set (a_srt A xs) = set xs" for xs
    using key_sorter.perm [OF srt, of xs] by (metis set_mset_mset)
  have dec: "a_dec A (a_enc A (mapBucket A N out t i)) = Some (mapBucket A N out t i)" if "Filename t \<in> set F" for t i
    using V [OF that] by (intro codec) (auto simp: mapBucket_def bucket_def set_srt)
  show ?thesis unfolding goodJob_def using os srt n input dec rf disk names by (auto simp: outName_def)
qed

text \<open>A job that is done has reached the end of the schedule.\<close>

lemma done_reached:
  assumes "goodJob A F (nat n) w0 out g" "F \<noteq> []" "length F + nat n < 2 ^ 32"
    and "reach (job_init F n w0) (careful_step A) J" "Done (master (job J))"
  shows "sched (job J) = AllDone" "job_inv A F (nat n) w0 out g J"
proof -
  show d: "sched (job J) = AllDone"
    using done_flag.reach_inv [OF job_projects [OF careful_reach [OF assms(4)]]] assms(2,5) by (simp add: Done_def)
  show "job_inv A F (nat n) w0 out g J"
    using whole_job.reach_inv [OF assms(4), of out g] assms(1,3) d by (simp add: job_system_inv_def)
qed

lemma done_output:
  assumes G: "goodJob A F N w0 out g" and ne: "F \<noteq> []" and inv: "job_inv A F N w0 out g J" and d: "sched (job J) = AllDone"
  shows "\<exists>lines part.
     mrsequential (a_os A) (a_srt A) (a_mapf A) (a_reducef A) F w0 = Inr (putFile ''mr-out-0'' (concat lines) w0) \<and>
     (\<forall>i < N. map_of (w_disk (jdisk J)) (''mr-out.'' @ itoa i) = Some (concat (part i))) \<and>
     mset (concat (map part [0..<N])) = mset lines"
proof -
  let ?all = "concat (map out F)"
  have "\<forall>i < N. map_of (w_disk (jdisk J)) (''mr-out.'' @ itoa i) = Some (concat (outLines g N ?all i))"
    using output_complete [OF inv d] by (simp add: outName_def)
  moreover have "mset (concat (map (outLines g N ?all) [0..<N])) = mset (map (mergedLine g ?all) (keysOf ?all))"
    using mset_lines_buckets [OF goodJobD(3) [OF G], of g ?all] by (simp add: outLines_def [abs_def] Let_def)
  ultimately show ?thesis using sequential_lines [OF G ne] by blast
qed

text \<open>
  C4: a distributed job that is done has computed what the sequential program computes. Any number of workers register, receive, carry out and
  report tasks; they die, also in the middle of a write, and their tasks are given out again; heartbeats come and go; the steps interleave in
  any order. If the steps are careful, whenever \<open>Done\<close> is true the files \<open>mr-out.0\<close>, \<dots> on the disk
  together hold exactly the lines that \<open>mrsequential\<close> writes. The assumptions on the file system, the
  sort, JSON and the application are those of a single worker; in addition no input file is named like an output file.
\<close>

theorem job_output:
  assumes os: "good_os (a_os A)" and sort: "go_sort (a_srt A)" and F: "F \<noteq> []" "0 < n" "length F + nat n < 2 ^ 32"
    and codec: "\<And>kvs. \<forall>kv \<in> set kvs. V kv \<Longrightarrow> a_dec A (a_enc A kvs) = Some kvs"
    and input: "\<And>f. f \<in> set F \<Longrightarrow> \<exists>c. map_of (w_disk w0) f = Some c \<and> a_mapf A f c = Inr (out f)"
    and V: "\<And>f kv. f \<in> set F \<Longrightarrow> kv \<in> set (out f) \<Longrightarrow> V kv"
    and rf: "\<And>k vs. a_reducef A k vs = Inr (g k vs)" "perm_invariant g"
    and disk: "disk_ok w0" "\<And>name i. name \<in> dom (map_of (w_disk w0)) \<Longrightarrow> i < nat n \<Longrightarrow> \<not> matchName (reducePattern i) name"
    and names: "\<And>f i. f \<in> set F \<Longrightarrow> i < nat n \<Longrightarrow> f \<noteq> ''mr-out.'' @ itoa i"
    and run: "reach (job_init F n w0) (careful_step A) J" "Done (master (job J))"
  shows "\<exists>lines part.
     mrsequential (a_os A) (a_srt A) (a_mapf A) (a_reducef A) F w0 = Inr (putFile ''mr-out-0'' (concat lines) w0) \<and>
     (\<forall>i < nat n. map_of (w_disk (jdisk J)) (''mr-out.'' @ itoa i) = Some (concat (part i))) \<and>
     mset (concat (map part [0..<nat n])) = mset lines"
proof -
  have G: "goodJob A F (nat n) w0 out g"
    by (rule goodJob_intro [where V = V]) (use assms in \<open>(simp; fail) | blast\<close>)+
  show ?thesis by (rule done_output [OF G F(1) done_reached(2,1) [OF G F(1,3) run]])
qed

theorem job_output_witness:
  "\<exists>J lines (part :: nat \<Rightarrow> string list). jrun True smallApp [1, 2] (mapPart @ reducePart) smallStart = Some J \<and>
     mrsequential (a_os smallApp) (a_srt smallApp) (a_mapf smallApp) (a_reducef smallApp) [''f1''] smallDisk =
       Inr (putFile ''mr-out-0'' (concat lines) smallDisk) \<and>
     map_of (w_disk (jdisk J)) ''mr-out.0'' = Some (concat (part 0)) \<and> mset (part 0) = mset lines"
proof -
  obtain J where J: "jrun True smallApp [1, 2] (mapPart @ reducePart) smallStart = Some J" "Done (master (job J))"
    using whole_job_run by blast
  have r: "reach (job_init [''f1''] 1 smallDisk) (careful_step smallApp) J"
    by (rule jrun_careful [OF smallStart_reach J(1)])
  have rep: "kvs = replicate (length kvs) samplePair" if "\<forall>kv \<in> set kvs. kv = samplePair" for kvs
    using that by (simp add: replicate_length_same)
  have perm: "perm_invariant (\<lambda>k vs. itoa (length vs))"
    by (auto simp: perm_invariant_def dest: mset_eq_length)
  have srt: "go_sort (a_srt smallApp)" using key_sort.go_sort_axioms by (simp add: smallApp_def)
  have "\<exists>lines (part :: nat \<Rightarrow> string list).
     mrsequential (a_os smallApp) (a_srt smallApp) (a_mapf smallApp) (a_reducef smallApp) [''f1''] smallDisk =
       Inr (putFile ''mr-out-0'' (concat lines) smallDisk) \<and>
     (\<forall>i < nat 1. map_of (w_disk (jdisk J)) (''mr-out.'' @ itoa i) = Some (concat (part i))) \<and>
     mset (concat (map part [0..<nat 1])) = mset lines"
    by (rule job_output [OF _ srt _ _ _ _ _ _ _ perm _ _ _ r J(2), where V = "\<lambda>kv. kv = samplePair" and out = "\<lambda>_. [samplePair]"])
       (use rep in \<open>auto simp: smallApp_def sampleOS_def good_os_def smallDisk_def disk_ok_def matchName_reducePattern\<close>)
  with J(1) show ?thesis by (auto simp: small_names(2))
qed

text \<open>
  C36: without the care. A worker that is slow, not dead, has its reduce task taken away after ten seconds without a heartbeat. Another worker carries the task
  out and the job is reported done; then the slow one wakes up and creates the output file anew, which empties it. The worker
  writes to the final name and not to a temporary file that it renames.
\<close>

theorem slow_worker_spoils_output:
  "\<exists>J. reach (job_init [''f1''] 1 smallDisk) (jstep smallApp) J \<and> Done (master (job J)) \<and>
     map_of (w_disk (jdisk J)) (''mr-out.'' @ itoa 0) = Some []"
proof -
  obtain J where J: "jrun False smallApp [1, 2] (mapPart @ slowPart) smallStart = Some J" "Done (master (job J))"
    "map_of (w_disk (jdisk J)) ''mr-out.0'' = Some []"
    using slow_job_run by blast
  from jrun_reach [OF smallStart_reach J(1)] J(2,3) show ?thesis by (auto simp: small_names(2))
qed

end
