(* ===== verification/MR_Progress.thy ===== *)
theory MR_Progress
  imports MR_Output
begin

text \<open>
  A distributed job gets done. From every state that a careful run reaches, with workers dead in the middle of their work or not, the steps that
  bring the job forward lead to its end: there is always such a step, and there are no endless runs of them. A new worker is started when all that is left
  waits for one: a worker that waits in \<open>GetTask\<close> at the channel never gets a task marked for a retry, since the table is searched before.
\<close>

section \<open>Steps that bring the job forward\<close>

text \<open>A task that nobody works on and that is not marked for a retry.\<close>

definition lostTask :: "JobSys \<Rightarrow> 32 word \<Rightarrow> bool" where
  "lostTask J k \<longleftrightarrow> unheld (workers J) k \<and>
     (\<exists>t. tasks (master (job J)) k = Some t \<and> task_State t \<noteq> TaskStateFinish \<and> task_State t \<noteq> TaskStateErr)"

fun stagesLeft :: "Sched \<Rightarrow> nat" where
  "stagesLeft (SendFile k) = 5"
| "stagesLeft (WaitMap i) = 4"
| "stagesLeft StartReduce = 3"
| "stagesLeft (SendReduce i) = 2"
| "stagesLeft (WaitReduce i) = 1"
| "stagesLeft AllDone = 0"
| "stagesLeft Exited = 0"

text \<open>
  A new worker is needed if nobody has a task and either a task waits for a retry and no handler is about to look for one, or a file is offered and no handler is there to
  receive it.
\<close>

definition need :: "JobSys \<Rightarrow> bool" where
  "need J \<longleftrightarrow> (\<forall>k. unheld (workers J) k) \<and> (\<forall>a. Asking a \<notin> set (workers J)) \<and>
     ((\<exists>k t. tasks (master (job J)) k = Some t \<and> task_State t = TaskStateErr) \<or>
      offered (master (job J)) (sched (job J)) \<noteq> None \<and> (\<forall>a. Blocked a \<notin> set (workers J)))"

text \<open>
  Everything that a living worker does with its task; every step of a handler of \<open>GetTask\<close>; the end of a heartbeat; a round of the watch that finds a lost
  task, or that gives back a number when a new worker needs one and all have been taken; a new worker when one is needed; the scheduler going on. Not among them: deaths, failures, lost reports,
  new heartbeats, and the waiting of the scheduler, which ends the process after 300 rounds.
\<close>

fun productive :: "JobSys \<Rightarrow> jevent \<Rightarrow> JobSys \<Rightarrow> bool" where
  "productive J (JMaster e) J' \<longleftrightarrow>
     (case e of
        BeatStoreEv k t \<Rightarrow> True
      | MonitorEv \<Rightarrow> (\<exists>k. lostTask J k \<and> \<not> lostTask J' k) \<or>
          need J \<and> workerIDs (master (job J)) = [] \<and> workerIDs (master (job J')) \<noteq> []
      | TickEv \<Rightarrow> stagesLeft (sched (job J')) < stagesLeft (sched (job J)) \<and> sched (job J') \<noteq> Exited
      | _ \<Rightarrow> False)"
| "productive J JJoin J' \<longleftrightarrow> need J"
| "productive J (JPanic i) J' \<longleftrightarrow> False"
| "productive J (JFail i) J' \<longleftrightarrow> False"
| "productive J (JUnheard i) J' \<longleftrightarrow> False"
| "productive J (JCrash i) J' \<longleftrightarrow> False"
| "productive J _ J' \<longleftrightarrow> True"

definition productive_step :: "App \<Rightarrow> JobSys \<Rightarrow> jevent \<Rightarrow> JobSys \<Rightarrow> bool" where
  "productive_step A J e J' \<longleftrightarrow> careful_step A J e J' \<and> productive J e J'"

section \<open>What is left to do\<close>

fun toil :: "wpc \<Rightarrow> nat" where
  "toil (Asking a) = (if a then 0 else 2)"
| "toil (Got t) = 3"
| "toil (Started t) = 2"
| "toil (Writing t ops) = 1"
| "toil _ = 0"

fun waiting :: "wpc \<Rightarrow> nat" where
  "waiting (Asking a) = 2"
| "waiting (Blocked a) = 1"
| "waiting _ = 0"

fun opsLeft :: "wpc \<Rightarrow> nat" where
  "opsLeft (Writing t ops) = length ops"
| "opsLeft _ = 0"

definition idle :: "wpc list \<Rightarrow> (32 word \<Rightarrow> MRTask option) \<Rightarrow> 32 word \<Rightarrow> nat" where
  "idle W T k =
     (case T k of
        None \<Rightarrow> 0
      | Some t \<Rightarrow> if fin t \<or> \<not> unheld W k then 0 else if task_State t = TaskStateErr then 4 else 5)"

definition work :: "string list \<Rightarrow> nat \<Rightarrow> JobSys \<Rightarrow> nat" where
  "work F N J =
     sum_list (map toil (workers J)) + (\<Sum>k\<in>UNIV. idle (workers J) (tasks (master (job J))) k) +
     6 * length (beatsIn (job J)) + 6 * length (getting (job J)) + 7 * (length F + N - sent F N (sched (job J))) +
     stagesLeft (sched (job J))"

text \<open>
  The steps that only prepare for work come second: handlers that have to look and to wait, the worker to be started, the number for it. The writes come last: how many
  a task has is known only when it begins.
\<close>

definition prep :: "JobSys \<Rightarrow> nat" where
  "prep J = sum_list (map waiting (workers J)) + (if need J then 4 else 0) + (if workerIDs (master (job J)) = [] then 1 else 0)"

definition left :: "string list \<Rightarrow> nat \<Rightarrow> JobSys \<Rightarrow> nat \<times> nat \<times> nat" where
  "left F N J = (work F N J, prep J, sum_list (map opsLeft (workers J)))"

lemma idle_le: "idle W T k \<le> 5"
  by (simp add: idle_def split: option.split)

lemma idle_held: "\<not> unheld W k \<Longrightarrow> idle W T k = 0"
  by (simp add: idle_def split: option.split)

lemma idle_cong: "T k = T' k \<Longrightarrow> unheld W k = unheld W' k \<Longrightarrow> idle W T k = idle W' T' k"
  by (simp add: idle_def split: option.split)

lemma not_unheld: "i < length W \<Longrightarrow> holding (W ! i) = Some t \<Longrightarrow> \<not> unheld W (TaskID t)"
  using unheldD by blast

lemma sum_one:
  fixes f g :: "'a :: finite \<Rightarrow> nat"
  assumes "\<And>k. k \<noteq> a \<Longrightarrow> f k = g k"
  shows "sum f UNIV + g a = sum g UNIV + f a"
proof -
  have "sum f (UNIV - {a}) = sum g (UNIV - {a})" using assms by (intro sum.cong) auto
  then show ?thesis by (simp add: sum.remove [of UNIV a])
qed

lemma sum_list_update_add:
  fixes f :: "'a \<Rightarrow> 'b :: comm_monoid_add"
  shows "i < length xs \<Longrightarrow> sum_list (map f (xs[i := y])) + f (xs ! i) = sum_list (map f xs) + f y"
proof (induction xs arbitrary: i)
  case (Cons x xs)
  show ?case
  proof (cases i)
    case 0
    then show ?thesis by (simp add: ac_simps)
  next
    case (Suc j)
    with Cons.IH [of j] Cons.prems show ?thesis by (simp add: add.assoc)
  qed
qed simp

text \<open>Whether a task is held changes only with the worker that moves.\<close>

lemma unheld_other:
  assumes "i < length W" "\<And>t. holding p = Some t \<Longrightarrow> TaskID t \<noteq> k" "\<And>t. holding (W ! i) = Some t \<Longrightarrow> TaskID t \<noteq> k"
  shows "unheld (W[i := p]) k = unheld W k"
proof
  assume "unheld W k"
  then show "unheld (W[i := p]) k" by (rule unheld_update) (use assms(2) in \<open>cases "holding p"; auto\<close>)
next
  assume "unheld (W[i := p]) k"
  then have "unheld ((W[i := p])[i := W ! i]) k"
    by (rule unheld_update) (use assms(3) in \<open>cases "holding (W ! i)"; auto\<close>)
  then show "unheld W k" by simp
qed

lemma unheld_same_holding:
  assumes "i < length W" "holding p = holding (W ! i)"
  shows "unheld (W[i := p]) k = unheld W k"
proof (cases "\<exists>t. holding p = Some t \<and> TaskID t = k")
  case True
  then have "\<not> unheld W k" using not_unheld [of i W] assms by auto
  moreover have "\<not> unheld (W[i := p]) k" using not_unheld [of i "W[i := p]"] assms(1) True by auto
  ultimately show ?thesis by simp
next
  case False
  then show ?thesis by (intro unheld_other [OF assms(1)]) (use assms(2) in auto)
qed

section \<open>Every such step leaves less to do\<close>

abbreviation lexless :: "((nat \<times> nat \<times> nat) \<times> (nat \<times> nat \<times> nat)) set" where
  "lexless \<equiv> less_than <*lex*> less_than <*lex*> less_than"

lemma left_work: "work F N J' < work F N J \<Longrightarrow> (left F N J', left F N J) \<in> lexless"
  by (simp add: left_def)

lemma left_prep: "work F N J' \<le> work F N J \<Longrightarrow> prep J' < prep J \<Longrightarrow> (left F N J', left F N J) \<in> lexless"
  by (auto simp: left_def)

text \<open>Worker \<open>i\<close> moves to \<open>p\<close>; at most the task \<open>a\<close> changes in the table.\<close>

lemma toil_idle:
  assumes "i < length W" "\<And>k. k \<noteq> a \<Longrightarrow> T' k = T k"
    and "\<And>t. holding p = Some t \<Longrightarrow> TaskID t = a" "\<And>t. holding (W ! i) = Some t \<Longrightarrow> TaskID t = a"
  shows "sum_list (map toil (W[i := p])) + (\<Sum>k\<in>UNIV. idle (W[i := p]) T' k) + toil (W ! i) + idle W T a =
    sum_list (map toil W) + (\<Sum>k\<in>UNIV. idle W T k) + toil p + idle (W[i := p]) T' a"
proof -
  have "idle (W[i := p]) T' k = idle W T k" if "k \<noteq> a" for k
    using that assms by (intro idle_cong unheld_other) auto
  then have "(\<Sum>k\<in>UNIV. idle (W[i := p]) T' k) + idle W T a = (\<Sum>k\<in>UNIV. idle W T k) + idle (W[i := p]) T' a"
    by (rule sum_one)
  then show ?thesis using sum_list_update_add [OF assms(1), of toil p] by linarith
qed

text \<open>A move that changes neither the table nor who holds what.\<close>

lemma still_left:
  assumes "i < length W" "holding p = holding (W ! i)"
  shows "sum_list (map toil (W[i := p])) + toil (W ! i) = sum_list (map toil W) + toil p"
    "idle (W[i := p]) T = idle W T"
  using sum_list_update_add [OF assms(1), of toil p] unheld_same_holding [OF assms] by (auto intro!: ext idle_cong)

text \<open>The steps of the master.\<close>

lemma sched_left:
  assumes "files m0 = F" "nReduce m0 = int N" "mapping_phase p \<longrightarrow> sent F N p \<le> length F" "sent F N p \<le> length F + N"
  shows "scheduleTick ks m0 p = (m, pc) \<Longrightarrow> stagesLeft pc < stagesLeft p \<Longrightarrow> pc \<noteq> Exited \<Longrightarrow>
      tasks m = tasks m0 \<and> sent F N p \<le> sent F N pc"
    and "offered m0 p = Some (f, pc) \<Longrightarrow>
      sent F N pc = Suc (sent F N p) \<and> sent F N pc \<le> length F + N \<and> stagesLeft pc = stagesLeft p"
  using assms by (cases p; auto split: if_splits)+

lemma live_sched:
  assumes "live_inv F N s"
  shows "files (master s) = F" "nReduce (master s) = int N" "mapping_phase (sched s) \<longrightarrow> sent F N (sched s) \<le> length F"
    "sent F N (sched s) \<le> length F + N"
  using assms by (simp_all add: live_inv_def)

lemma monitor_left:
  assumes "keyed m" "covers ks m" "\<And>k. tasks m' k = tasks (handleHeartbeat now ks m) k"
  shows "idle W (tasks m') k \<le> idle W (tasks m) k"
proof -
  have "tasks m' k = map_option (mark now) (tasks m k)"
    using assms by (cases "tasks m k") (auto simp: handleHeartbeat_tasks covers_def)
  then show ?thesis by (auto simp: idle_def mark_def split: option.split)
qed

lemma lost_idle: "lostTask J k \<longleftrightarrow> idle (workers J) (tasks (master (job J))) k = 5"
  by (auto simp: lostTask_def idle_def split: option.split)

lemma master_left:
  assumes inv: "live_inv F N (job J)" and st: "mstep (job J) e s'" and ok: "productive J (JMaster e) (J\<lparr>job := s'\<rparr>)"
  shows "(left F N (J\<lparr>job := s'\<rparr>), left F N J) \<in> lexless"
  using st
proof cases
  case (beat_store k t now)
  let ?T = "tasks (master (job J))" and ?T' = "tasks (master s')"
  have "\<And>j. j \<noteq> k \<Longrightarrow> idle (workers J) ?T' j = idle (workers J) ?T j"
    by (intro idle_cong) (simp_all add: beat_store heartBeatStore_def)
  then have "sum (idle (workers J) ?T') UNIV + idle (workers J) ?T k = sum (idle (workers J) ?T) UNIV + idle (workers J) ?T' k"
    by (rule sum_one)
  moreover have "length (beatsIn (job J)) = Suc (length (beatsIn s'))"
    using beat_store length_pos_if_in_set [OF beat_store(4)] by (simp add: length_remove1)
  moreover have "sched s' = sched (job J)" "getting s' = getting (job J)" using beat_store by simp_all
  moreover note idle_le [of "workers J" ?T' k]
  ultimately show ?thesis by (intro left_work) (simp add: work_def)
next
  case (monitor ks now)
  have m: "idle (workers J) (tasks (master s')) k \<le> idle (workers J) (tasks (master (job J))) k" for k
    by (rule monitor_left [of _ ks _ now]) (use inv monitor in \<open>simp_all add: live_inv_def\<close>)
  have le: "sum (idle (workers J) (tasks (master s'))) UNIV \<le> sum (idle (workers J) (tasks (master (job J)))) UNIV"
    using m by (intro sum_mono)
  from ok monitor consider (found) k where "lostTask J k" "\<not> lostTask (J\<lparr>job := s'\<rparr>) k"
    | (number) "need J" "workerIDs (master (job J)) = []" "workerIDs (master s') \<noteq> []" by auto
  then show ?thesis
  proof cases
    case found
    then have "idle (workers J) (tasks (master s')) k < idle (workers J) (tasks (master (job J))) k"
      using m [of k] idle_le [of "workers J" "tasks (master s')" k] by (simp add: lost_idle)
    then have "sum (idle (workers J) (tasks (master s'))) UNIV < sum (idle (workers J) (tasks (master (job J)))) UNIV"
      using m by (intro sum_strict_mono_ex1) auto
    with monitor show ?thesis by (intro left_work) (simp add: work_def)
  next
    case number
    with monitor le show ?thesis by (intro left_prep) (simp_all add: work_def prep_def)
  qed
next
  case (tick ks m pc)
  with ok sched_left(1) [OF live_sched [OF inv] tick(5)]
  have t: "tasks m = tasks (master (job J))" "sent F N (sched (job J)) \<le> sent F N pc" "stagesLeft pc < stagesLeft (sched (job J))" by simp_all
  have "length F + N - sent F N pc \<le> length F + N - sent F N (sched (job J))" using t(2) by simp
  with tick t(1,3) show ?thesis by (intro left_work) (simp add: work_def)
qed (use ok in simp_all)

text \<open>The steps of a worker.\<close>

lemma work_worker:
  assumes "i < length (workers J)" "\<And>k. k \<noteq> a \<Longrightarrow> tasks (master s) k = tasks (master (job J)) k"
    and "\<And>t. holding p = Some t \<Longrightarrow> TaskID t = a" "\<And>t. holding (workers J ! i) = Some t \<Longrightarrow> TaskID t = a"
    and "sched s = sched (job J)" "beatsIn s = beatsIn (job J)"
    and "toil p + idle ((workers J)[i := p]) (tasks (master s)) a + 6 * length (getting s) <
      toil (workers J ! i) + idle (workers J) (tasks (master (job J))) a + 6 * length (getting (job J))"
  shows "work F N (J\<lparr>job := s, workers := (workers J)[i := p]\<rparr>) < work F N J"
proof -
  have "sum_list (map toil ((workers J)[i := p])) + sum (idle ((workers J)[i := p]) (tasks (master s))) UNIV +
      toil (workers J ! i) + idle (workers J) (tasks (master (job J))) a =
    sum_list (map toil (workers J)) + sum (idle (workers J) (tasks (master (job J)))) UNIV + toil p +
      idle ((workers J)[i := p]) (tasks (master s)) a"
    by (rule toil_idle) (use assms(1-4) in simp_all)
  with assms(5-7) show ?thesis by (simp add: work_def)
qed

lemma report_left:
  assumes inv: "job_inv A F N w0 out g J" and i: "i < length (workers J)" "holding (workers J ! i) = Some t"
    and st: "mstep (job J) (SetStateEv \<lparr>arg_ID = TaskID t, arg_State = x\<rparr>) s"
    and p: "toil p < toil (workers J ! i)" "holding p = Some t \<or> holding p = None \<and> x = TaskStateFinish"
  shows "work F N (J\<lparr>job := s, workers := (workers J)[i := p]\<rparr>) < work F N J"
proof -
  from work_invD(1) [OF job_invD(3) [OF inv] i] obtain e where e: "tasks (master (job J)) (TaskID t) = Some e" by blast
  from report_table [OF st e] obtain u where u: "task_State u = x"
    "s = (job J)\<lparr>master := (master (job J))\<lparr>tasks := (tasks (master (job J)))(TaskID t \<mapsto> u)\<rparr>\<rparr>" by blast
  have "idle ((workers J)[i := p]) (tasks (master s)) (TaskID t) = 0"
  proof (cases "holding p")
    case None
    with p(2) u show ?thesis by (simp add: idle_def)
  next
    case (Some v)
    with p(2) i(1) show ?thesis by (intro idle_held not_unheld [of i]) auto
  qed
  then show ?thesis using i p by (intro work_worker [where a = "TaskID t"]) (auto simp: u(2))
qed

lemma retry_left:
  assumes "keyed (master (job J))" and i: "i < length (workers J)" "workers J ! i = Asking a"
    and r: "getRetry now ks args (master (job J)) = (m, Some t)" and un: "a \<Longrightarrow> unheld (workers J) (TaskID t)"
  shows "work F N (J\<lparr>job := (job J)\<lparr>master := m\<rparr>, workers := (workers J)[i := answered a t]\<rparr>) < work F N J"
proof -
  from getRetry_some [OF assms(1) r] obtain u where u: "tasks (master (job J)) (TaskID t) = Some u" "task_State u = TaskStateErr"
    "m = (master (job J))\<lparr>tasks := (tasks (master (job J)))(TaskID t \<mapsto> t)\<rparr>" by blast
  have "toil (answered a t) + idle ((workers J)[i := answered a t]) (tasks m) (TaskID t) <
      toil (Asking a) + idle (workers J) (tasks (master (job J))) (TaskID t)"
  proof (cases a)
    case True
    then have "idle (workers J) (tasks (master (job J))) (TaskID t) = 4" using u un by (simp add: idle_def)
    moreover have "idle ((workers J)[i := Got t]) (tasks m) (TaskID t) = 0"
      by (intro idle_held not_unheld [of i]) (use i in simp_all)
    ultimately show ?thesis using True by (simp add: answered_def)
  next
    case False
    have "unheld ((workers J)[i := Stopped]) (TaskID t) = unheld (workers J) (TaskID t)"
      using i by (intro unheld_same_holding) simp_all
    then show ?thesis
      using False u idle_le [of "(workers J)[i := Stopped]" "tasks m" "TaskID t"] by (simp add: answered_def idle_def)
  qed
  then show ?thesis using i
    by (intro work_worker [where a = "TaskID t"]) (auto simp: u(3) answered_def split: if_splits)
qed

lemma assign_left:
  assumes i: "i < length (workers J)" "workers J ! i = Fetched a args f" and mem: "(args, f) \<in> set (getting (job J))"
    and a: "assignTask now args f (master (job J)) = (m, Some t)"
  shows "work F N (J\<lparr>job := (job J)\<lparr>master := m, getting := remove1 (args, f) (getting (job J))\<rparr>,
     workers := (workers J)[i := answered a t]\<rparr>) < work F N J"
proof -
  have "length (getting (job J)) = Suc (length (remove1 (args, f) (getting (job J))))"
    using mem length_pos_if_in_set [OF mem] by (simp add: length_remove1)
  moreover have "toil (answered a t) + idle ((workers J)[i := answered a t]) (tasks m) (TaskID t) < 6"
  proof (cases a)
    case True
    have "idle ((workers J)[i := Got t]) (tasks m) (TaskID t) = 0"
      by (intro idle_held not_unheld [of i]) (use i in simp_all)
    with True show ?thesis by (simp add: answered_def)
  next
    case False
    with idle_le [of "(workers J)[i := Stopped]" "tasks m" "TaskID t"] show ?thesis by (simp add: answered_def)
  qed
  ultimately show ?thesis
    using i assignTask_some(4) [OF a] by (intro work_worker [where a = "TaskID t"]) (auto simp: answered_def split: if_splits)
qed

lemma recv_left:
  assumes inv: "live_inv F N (job J)" and i: "i < length (workers J)" "workers J ! i = Blocked a"
    and o: "offered (master (job J)) (sched (job J)) = Some (f, pc)"
  shows "work F N (J\<lparr>job := (job J)\<lparr>sched := pc, getting := (args, f) # getting (job J)\<rparr>,
     workers := (workers J)[i := Fetched a args f]\<rparr>) < work F N J"
proof -
  from sched_left(2) [OF live_sched [OF inv] o]
  have pc: "sent F N pc = Suc (sent F N (sched (job J)))" "sent F N pc \<le> length F + N" "stagesLeft pc = stagesLeft (sched (job J))" by auto
  then have "7 * (length F + N - sent F N pc) + 7 = 7 * (length F + N - sent F N (sched (job J)))" by simp
  moreover note still_left [OF i(1), where p = "Fetched a args f"]
  ultimately show ?thesis using i pc(3) by (simp add: work_def)
qed

text \<open>A handler waits. It has found no task to retry.\<close>

lemma block_left:
  assumes k: "keyed (master (job J))" and i: "i < length (workers J)" "workers J ! i = Asking a"
    and g: "covers ks (master (job J))" "getRetry now ks args (master (job J)) = (m, None)"
  shows "(left F N (J\<lparr>workers := (workers J)[i := Blocked a]\<rparr>), left F N J) \<in> lexless"
proof -
  let ?J = "J\<lparr>workers := (workers J)[i := Blocked a]\<rparr>"
  have "\<forall>k t. tasks (master (job J)) k = Some t \<longrightarrow> task_State t \<noteq> TaskStateErr"
    using k
  proof (cases rule: getRetry_cases [where now = now and ks = ks and args = args])
    case none
    with g(1) show ?thesis by (auto simp: covers_def)
  qed (use g(2) in simp)
  moreover have "Blocked a \<in> set (workers ?J)" using i(1) by (simp add: set_update_memI)
  ultimately have "\<not> need ?J" by (auto simp: need_def)
  moreover have "sum_list (map waiting (workers ?J)) + 2 = sum_list (map waiting (workers J)) + 1"
    using sum_list_update_add [OF i(1), of waiting "Blocked a"] i(2) by simp
  ultimately have "prep ?J < prep J" by (simp add: prep_def)
  moreover have "work F N ?J \<le> work F N J"
    using still_left [OF i(1), of "Blocked a"] i(2) by (simp add: work_def)
  ultimately show ?thesis by (intro left_prep)
qed

lemma set_update_other: "i < length xs \<Longrightarrow> x \<noteq> xs ! i \<Longrightarrow> x \<noteq> y \<Longrightarrow> x \<in> set (xs[i := y]) \<longleftrightarrow> x \<in> set xs"
  by (induction xs arbitrary: i) (auto split: nat.splits)

lemma no_task_left:
  assumes i: "i < length (workers J)" "workers J ! i = Blocked a" and c: "chanClosed (sched (job J))"
  shows "(left F N (J\<lparr>workers := (workers J)[i := Stopped]\<rparr>), left F N J) \<in> lexless"
proof -
  let ?J = "J\<lparr>workers := (workers J)[i := Stopped]\<rparr>"
  have "unheld (workers ?J) k = unheld (workers J) k" for k using i by (simp add: unheld_same_holding)
  moreover have "Asking b \<in> set (workers ?J) \<longleftrightarrow> Asking b \<in> set (workers J)" for b
    using i set_update_other [of i "workers J" "Asking b" Stopped] by simp
  moreover have "offered (master (job J)) (sched (job J)) = None" using c by (cases "sched (job J)") simp_all
  ultimately have "need ?J = need J" by (simp add: need_def)
  moreover have "sum_list (map waiting (workers ?J)) + 1 = sum_list (map waiting (workers J))"
    using sum_list_update_add [OF i(1), of waiting Stopped] i(2) by simp
  ultimately have "prep ?J < prep J" by (simp add: prep_def)
  moreover have "work F N ?J \<le> work F N J"
    using still_left [OF i(1), of Stopped] i(2) by (simp add: work_def)
  ultimately show ?thesis by (intro left_prep)
qed

lemma join_left:
  assumes r: "RegWorker (master (job J)) = (m, Inr wid)" and n: "need J"
  shows "(left F N (J\<lparr>job := (job J)\<lparr>master := m\<rparr>, workers := workers J @ [Asking True]\<rparr>), left F N J) \<in> lexless"
proof -
  let ?J = "J\<lparr>job := (job J)\<lparr>master := m\<rparr>, workers := workers J @ [Asking True]\<rparr>"
  have m: "tasks m = tasks (master (job J))" "workerIDs (master (job J)) \<noteq> []"
    using r by (auto simp: RegWorker_def getWorkerID_def split: list.splits)
  have "\<not> need ?J" by (auto simp: need_def)
  then have "prep ?J < prep J" using n m(2) by (simp add: prep_def)
  moreover have "idle (workers ?J) T k = idle (workers J) T k" for T k
    by (rule idle_cong) (simp_all add: unheld_def)
  then have "work F N ?J \<le> work F N J" by (simp add: work_def m(1))
  ultimately show ?thesis by (intro left_prep)
qed

lemma write_left:
  assumes i: "i < length (workers J)" "workers J ! i = Writing t (op # ops)"
  shows "(left F N (J\<lparr>jdisk := w, workers := (workers J)[i := Writing t ops]\<rparr>), left F N J) \<in> lexless"
proof -
  let ?J = "J\<lparr>jdisk := w, workers := (workers J)[i := Writing t ops]\<rparr>"
  have "\<not> unheld (workers J) (TaskID t)" "\<not> unheld (workers ?J) (TaskID t)"
    using i not_unheld [of i "workers J" t] not_unheld [of i "workers ?J" t] by simp_all
  then have "\<not> need J" "\<not> need ?J" unfolding need_def by blast+
  moreover have "sum_list (map waiting (workers ?J)) = sum_list (map waiting (workers J))"
    "sum_list (map opsLeft (workers ?J)) < sum_list (map opsLeft (workers J))"
    using i sum_list_update_add [of i "workers J" waiting "Writing t ops"]
      sum_list_update_add [of i "workers J" opsLeft "Writing t ops"] by simp_all
  moreover have "work F N ?J = work F N J"
    using still_left [OF i(1), of "Writing t ops"] i(2) by (simp add: work_def)
  ultimately show ?thesis by (simp add: left_def prep_def)
qed

lemma productive_descends:
  assumes inv: "job_inv A F N w0 out g J" and st: "productive_step A J e J'"
  shows "(left F N J', left F N J) \<in> lexless"
proof -
  have live: "live_inv F N (job J)" and k: "keyed (master (job J))" using job_invD(1) [OF inv] by (simp_all add: live_inv_def)
  have ok: "careful J e J'" "productive J e J'" and "jstep A J e J'"
    using st by (simp_all add: productive_step_def careful_step_def)
  from this(3) show ?thesis
  proof cases
    case (master ev s)
    with ok(2) show ?thesis by (auto intro!: master_left [OF live])
  next
    case (join s wid)
    obtain m where m: "RegWorker (master (job J)) = (m, Inr wid)" using join(4) by (cases "RegWorker (master (job J))") auto
    have "s = (job J)\<lparr>master := m\<rparr>" using join(3) m by (auto elim: mstepE)
    with join_left [OF m] ok(2) join show ?thesis by simp
  next
    case (retry_to i a ks now args m t)
    with retry_left [OF k retry_to(3,4,7)] ok(1) show ?thesis by (simp add: left_work)
  next
    case (block i a ks now args m)
    with block_left [OF k block(3,4,6,7)] show ?thesis by simp
  next
    case (recv_to i a f pc args)
    with recv_left [OF live recv_to(3,4,6)] show ?thesis by (simp add: left_work)
  next
    case (assign_to i a args f now m t)
    with assign_left [OF assign_to(3,4,6,7)] show ?thesis by (simp add: left_work)
  next
    case (no_task i a)
    with no_task_left [OF no_task(3-5)] show ?thesis by simp
  next
    case (running i t s)
    with report_left [OF inv running(3) _ running(5), of "Started t"] show ?thesis by (simp add: left_work)
  next
    case (begin_task i t ops)
    have "work F N (J\<lparr>job := job J, workers := (workers J)[i := Writing t ops]\<rparr>) < work F N J"
      using begin_task not_unheld [of i "workers J" t] not_unheld [of i "(workers J)[i := Writing t ops]" t]
      by (intro work_worker [where a = "TaskID t"]) (auto simp: idle_held)
    with begin_task show ?thesis by (simp add: left_work)
  next
    case (write_op i t op ops)
    with write_left [OF write_op(3,4)] show ?thesis by simp
  next
    case (finish i t s)
    with report_left [OF inv finish(3) _ finish(5), of "Asking True"] show ?thesis by (simp add: left_work)
  qed (use ok(2) in simp_all)
qed

section \<open>There is always such a step\<close>

lemma covering: "\<exists>ks. covers ks m"
  using finite_list [of "dom (tasks m)"] by (auto simp: covers_def)

lemma productiveI: "jstep A J e J' \<Longrightarrow> careful J e J' \<Longrightarrow> productive J e J' \<Longrightarrow> \<exists>e J'. productive_step A J e J'"
  by (auto simp: productive_step_def careful_step_def)

text \<open>A worker with a task can go on with it.\<close>

lemma busy_goes_on:
  assumes G: "goodJob A F N w0 out g" and inv: "job_inv A F N w0 out g J" and x: "sched (job J) \<noteq> Exited"
    and i: "i < length (workers J)" "holding (workers J ! i) \<noteq> None"
  shows "\<exists>e J'. productive_step A J e J'"
proof (cases "workers J ! i")
  case (Got t)
  from jstep.running [OF i(1) Got mstep.set_state [OF x]] show ?thesis by (rule productiveI) simp_all
next
  case (Started t)
  from job_begin [OF G inv i(1) Started] obtain ops where "taskOps A t (jdisk J) = Some ops" by blast
  from jstep.begin_task [OF i(1) Started this] show ?thesis by (rule productiveI) simp_all
next
  case (Writing t ops)
  show ?thesis
  proof (cases ops)
    case Nil
    with Writing have "workers J ! i = Writing t []" by simp
    from jstep.finish [OF i(1) this mstep.set_state [OF x]] show ?thesis by (rule productiveI) simp_all
  next
    case (Cons op rest)
    with Writing have "workers J ! i = Writing t (op # rest)" by simp
    from jstep.write_op [OF i(1) this] show ?thesis by (rule productiveI) simp_all
  qed
qed (use i(2) in simp_all)

lemma master_goes_on:
  assumes "mstep (job J) e s" "masterOnly e" "careful J (JMaster e) (J\<lparr>job := s\<rparr>)" "productive J (JMaster e) (J\<lparr>job := s\<rparr>)"
  shows "\<exists>e J'. productive_step A J e J'"
  using jstep.master [OF assms(1,2)] assms(3,4) by (rule productiveI)

text \<open>A lost task is found when its heartbeats have been missing for long enough.\<close>

lemma lost_found:
  assumes "keyed (master (job J))" "sched (job J) \<noteq> Exited" "lostTask J k"
  shows "\<exists>e J'. productive_step A J e J'"
proof -
  from assms(3) obtain t where t: "tasks (master (job J)) k = Some t" "\<not> fin t" by (auto simp: lostTask_def)
  obtain ks where ks: "covers ks (master (job J))" using covering by blast
  then have k: "k \<in> set ks" using t(1) by (auto simp: covers_def)
  let ?now = "BeatTime t + 20000000000"
  let ?s = "(job J)\<lparr>master := handleHeartbeat ?now ks (master (job J))\<rparr>"
  have "task_State (mark ?now t) = TaskStateErr" using t(2) by (simp add: mark_def stale_def)
  then have "\<not> lostTask (J\<lparr>job := ?s\<rparr>) k"
    using t(1) k handleHeartbeat_tasks [OF assms(1), of ?now ks] by (auto simp: lostTask_def)
  then show ?thesis
    by (intro master_goes_on [OF mstep.monitor [OF assms(2) ks]]) (use assms(3) in auto)
qed

text \<open>
  A new worker is needed: it registers, or all numbers have been taken and the watch gives one back, that of a task whose heartbeat is old.
\<close>

lemma need_goes_on:
  assumes k: "keyed (master (job J))" and x: "sched (job J) \<noteq> Exited" and n: "need J"
    and hope: "workerIDs (master (job J)) \<noteq> [] \<or> tasks (master (job J)) a = Some t"
  shows "\<exists>e J'. productive_step A J e J'"
proof (cases "workerIDs (master (job J))")
  case (Cons w ws)
  then have "snd (RegWorker (master (job J))) = Inr w" by (simp add: RegWorker_def getWorkerID_def)
  from jstep.join [OF mstep.reg [OF x] this] show ?thesis by (rule productiveI) (simp_all add: n)
next
  case Nil
  with hope have t: "tasks (master (job J)) a = Some t" by simp
  obtain ks where ks: "covers ks (master (job J))" using covering by blast
  let ?now = "BeatTime t + 20000000000"
  have "a \<in> set ks" "stale ?now t" using ks t by (auto simp: covers_def stale_def)
  with t handleHeartbeat_workerIDs [OF k, of ?now ks] have "WorkerID t \<in> set (workerIDs (handleHeartbeat ?now ks (master (job J))))" by auto
  then have "workerIDs (handleHeartbeat ?now ks (master (job J))) \<noteq> []" by auto
  then show ?thesis by (intro master_goes_on [OF mstep.monitor [OF x ks, of ?now]]) (use n Nil in simp_all)
qed

text \<open>Nobody works, nothing is lost, and a task is marked for a retry.\<close>

lemma retry_goes_on:
  assumes k: "keyed (master (job J))" and x: "sched (job J) \<noteq> Exited"
    and un: "\<And>k. unheld (workers J) k" and b: "beatsIn (job J) = []"
    and t: "tasks (master (job J)) a = Some t" "task_State t = TaskStateErr"
  shows "\<exists>e J'. productive_step A J e J'"
proof (cases "\<exists>i<length (workers J). \<exists>a. workers J ! i = Asking a")
  case True
  then obtain i c where i: "i < length (workers J)" "workers J ! i = Asking c" by blast
  obtain ks where ks: "covers ks (master (job J))" using covering by blast
  then have a: "a \<in> set ks" using t(1) by (auto simp: covers_def)
  obtain args :: MRArgs where True by simp
  from k show ?thesis
  proof (cases rule: getRetry_cases [where now = 0 and ks = ks and args = args])
    case none
    with a t show ?thesis by blast
  next
    case (retry k u)
    from jstep.retry_to [OF i x ks retry(4)] show ?thesis by (rule productiveI) (simp_all add: un b)
  qed
next
  case False
  then have "need J" using un t by (auto simp: need_def in_set_conv_nth)
  then show ?thesis by (rule need_goes_on [OF k x]) (use t in blast)
qed

text \<open>What a handler has received and not yet entered into the table is in the list of the master.\<close>

fun fetchedOf :: "wpc \<Rightarrow> (MRArgs \<times> string) multiset" where
  "fetchedOf (Fetched a args f) = {#(args, f)#}"
| "fetchedOf _ = {#}"

definition fetched_inv :: "JobSys \<Rightarrow> bool" where
  "fetched_inv J \<longleftrightarrow> mset (getting (job J)) = sum_list (map fetchedOf (workers J))"

lemma fetched_move:
  assumes "fetched_inv J" "i < length (workers J)"
    and "mset (getting s) + fetchedOf (workers J ! i) = mset (getting (job J)) + fetchedOf p"
  shows "fetched_inv (J\<lparr>job := s, workers := (workers J)[i := p]\<rparr>)"
proof -
  have "mset (getting s) + fetchedOf (workers J ! i) = sum_list (map fetchedOf ((workers J)[i := p])) + fetchedOf (workers J ! i)"
    using assms sum_list_update_add [OF assms(2), of fetchedOf p] by (simp add: fetched_inv_def)
  then show ?thesis by (simp add: fetched_inv_def del: union_iff)
qed

lemma mstep_getting: "mstep s e t \<Longrightarrow> masterOnly e \<or> (\<exists>args. e = SetStateEv args) \<Longrightarrow> getting t = getting s"
  by (auto elim!: mstepE)

lemma fetchedOf_died: "fetchedOf (died p) = fetchedOf p"
  by (cases p) simp_all

lemma fetched_step:
  assumes inv: "fetched_inv J" and "jstep A J e J'"
  shows "fetched_inv J'"
proof -
  note move = fetched_move [OF inv]
  have still: "fetched_inv (J\<lparr>workers := (workers J)[i := p]\<rparr>)" if "i < length (workers J)" "fetchedOf (workers J ! i) = fetchedOf p" for i p
    using move [OF that(1), of "job J" p] that(2) by simp
  from assms(2) show ?thesis
  proof cases
    case (master e s)
    with inv mstep_getting [OF master(3)] show ?thesis by (simp add: fetched_inv_def)
  next
    case (join s wid)
    with inv mstep_getting [OF join(3)] show ?thesis by (simp add: fetched_inv_def)
  next
    case (retry_to i a ks now args m t)
    then show ?thesis by (auto intro!: move simp: answered_def)
  next
    case (recv_to i a f pc args)
    then show ?thesis by (auto intro!: move)
  next
    case (assign_to i a args f now m t)
    then show ?thesis by (auto intro!: move simp: answered_def)
  next
    case (running i t s)
    with mstep_getting [OF running(5)] show ?thesis by (auto intro!: move)
  next
    case (fail_task i t s)
    with mstep_getting [OF fail_task(6)] show ?thesis by (auto intro!: move)
  next
    case (finish i t s)
    with mstep_getting [OF finish(5)] show ?thesis by (auto intro!: move)
  next
    case (write_op i t op ops)
    with still [of i "Writing t ops"] show ?thesis by (simp add: fetched_inv_def)
  qed (auto intro!: still simp: fetchedOf_died)
qed

interpretation fetched: invariant_system "job_init F n w0" "jstep A" fetched_inv for F n w0 A
proof unfold_locales
  fix J assume "job_init F n w0 J"
  then show "fetched_inv J" by (auto simp: job_init_def mr_init_def fetched_inv_def)
qed (rule fetched_step)

lemma fetched_empty: "sum_list (map fetchedOf W) = {#} \<longleftrightarrow> (\<forall>p\<in>set W. fetchedOf p = {#})"
  by (induction W) auto

lemma fetched_mem: "x \<in># sum_list (map fetchedOf W) \<longleftrightarrow> (\<exists>p\<in>set W. x \<in># fetchedOf p)"
  by (induction W) auto

lemma fetched_somewhere:
  assumes "fetched_inv J" "getting (job J) \<noteq> []"
  obtains i a args f where "i < length (workers J)" "workers J ! i = Fetched a args f" "(args, f) \<in> set (getting (job J))"
proof -
  have "sum_list (map fetchedOf (workers J)) \<noteq> {#}" using assms by (simp add: fetched_inv_def flip: assms(1) [unfolded fetched_inv_def])
  then obtain p where p: "p \<in> set (workers J)" "fetchedOf p \<noteq> {#}" by (auto simp: fetched_empty)
  from p(2) obtain a args f where q: "p = Fetched a args f" by (cases p) auto
  from p(1) obtain i where i: "i < length (workers J)" "workers J ! i = p" by (auto simp: in_set_conv_nth)
  have "(args, f) \<in># sum_list (map fetchedOf (workers J))"
    using p(1) q fetched_mem [of "(args, f)"] by fastforce
  then have "(args, f) \<in> set (getting (job J))" using assms(1) by (simp add: fetched_inv_def flip: set_mset_mset)
  with i q show thesis by (intro that) simp_all
qed

lemma idle_worker:
  assumes "p \<in> set W" "\<And>k. unheld W k" "\<forall>a. Asking a \<notin> set W" "\<forall>a. Blocked a \<notin> set W" "{#} = sum_list (map fetchedOf W)"
  shows "p = Stopped"
proof -
  have h: "holding p = None"
  proof (cases "holding p")
    case (Some t)
    with assms(1) assms(2) [of "TaskID t"] show ?thesis by (fastforce simp: unheld_def)
  qed
  have "fetchedOf p = {#}" using assms(1) assms(5) [symmetric] by (simp add: fetched_empty)
  with h assms(1,3,4) show ?thesis by (cases p) auto
qed

text \<open>There may be a worker again: a number is free, or a task's worker can be given up, or there is a handler or a worker. In the end nobody is needed.\<close>

definition hope :: "JobSys \<Rightarrow> bool" where
  "hope J \<longleftrightarrow> workerIDs (master (job J)) \<noteq> [] \<or> (\<exists>k. tasks (master (job J)) k \<noteq> None) \<or>
     (\<exists>p \<in> set (workers J). p \<noteq> Stopped) \<or> chanClosed (sched (job J))"

text \<open>All tasks of the table are finished: the next one goes out, or the scheduler goes on.\<close>

lemma offer_goes_on:
  assumes k: "keyed (master (job J))" and x: "sched (job J) \<noteq> Exited"
    and un: "\<And>k. unheld (workers J) k" and g: "fetched_inv J" "getting (job J) = []" and h: "hope J"
    and f: "\<And>k t. tasks (master (job J)) k = Some t \<Longrightarrow> fin t"
    and o: "offered (master (job J)) (sched (job J)) = Some (f, pc)"
  shows "\<exists>e J'. productive_step A J e J'"
proof -
  obtain ks where ks: "covers ks (master (job J))" using covering by blast
  obtain args :: MRArgs where True by simp
  consider (blocked) i a where "i < length (workers J)" "workers J ! i = Blocked a"
    | (asking) i a where "i < length (workers J)" "workers J ! i = Asking a"
    | (nobody) "\<forall>a. Blocked a \<notin> set (workers J)" "\<forall>a. Asking a \<notin> set (workers J)"
    by (auto simp: in_set_conv_nth)
  then show ?thesis
  proof cases
    case blocked
    from jstep.recv_to [OF blocked x o] show ?thesis by (rule productiveI) simp_all
  next
    case asking
    from k have "\<exists>m. getRetry 0 ks args (master (job J)) = (m, None)"
      by (cases rule: getRetry_cases [where now = 0 and ks = ks and args = args]) (use f in fastforce)+
    then obtain m where "getRetry 0 ks args (master (job J)) = (m, None)" ..
    from jstep.block [OF asking x ks this] show ?thesis by (rule productiveI) simp_all
  next
    case nobody
    then have "need J" using un o by (simp add: need_def)
    moreover have "p = Stopped" if "p \<in> set (workers J)" for p
      by (rule idle_worker [OF that]) (use nobody g un in \<open>simp_all add: fetched_inv_def\<close>)
    moreover have "\<not> chanClosed (sched (job J))" using o by (cases "sched (job J)") auto
    ultimately show ?thesis using h need_goes_on [OF k x] unfolding hope_def by blast
  qed
qed

lemma sched_goes_on:
  assumes inv: "live_inv F N (job J)" and x: "sched (job J) \<noteq> Exited" "sched (job J) \<noteq> AllDone"
    and un: "\<And>k. unheld (workers J) k" and g: "fetched_inv J" and h: "hope J" and b: "beatsIn (job J) = []"
    and f: "\<And>k t. tasks (master (job J)) k = Some t \<Longrightarrow> fin t"
  shows "\<exists>e J'. productive_step A J e J'"
proof (cases "getting (job J) = []")
  case False
  from fetched_somewhere [OF g this] obtain i c args f
    where i: "i < length (workers J)" "workers J ! i = Fetched c args f" "(args, f) \<in> set (getting (job J))" .
  obtain m t where a: "assignTask 0 args f (master (job J)) = (m, Some t)"
    by (auto simp: assignTask_def genTaskID_def Let_def)
  from jstep.assign_to [OF i(1,2) x(1) i(3) a] show ?thesis by (rule productiveI) simp_all
next
  case True
  have k: "keyed (master (job J))" using inv by (simp add: live_inv_def)
  obtain ks where ks: "covers ks (master (job J))" using covering by blast
  have d: "isTasksDone ks (master (job J))" using isTasksDone_all [OF ks] f by simp
  show ?thesis
  proof (cases "offered (master (job J)) (sched (job J))")
    case (Some p)
    obtain f' pc where "p = (f', pc)" by fastforce
    with Some have "offered (master (job J)) (sched (job J)) = Some (f', pc)" by simp
    from offer_goes_on [OF k x(1) un g True h f this] show ?thesis .
  next
    case None
    obtain m pc where t: "scheduleTick ks (master (job J)) (sched (job J)) = (m, pc)" by fastforce
    then have pc: "stagesLeft pc < stagesLeft (sched (job J))" "pc \<noteq> Exited"
      using None x d by (cases "sched (job J)"; auto split: if_splits)+
    show ?thesis
      by (rule master_goes_on [OF mstep.tick [OF x(1) ks t]]) (use pc b True in \<open>simp_all split: Sched.split\<close>)
  qed
qed

lemma productive_goes_on:
  assumes G: "goodJob A F N w0 out g" and inv: "job_inv A F N w0 out g J"
    and x: "sched (job J) \<noteq> Exited" "sched (job J) \<noteq> AllDone" and g: "fetched_inv J" and h: "hope J"
  shows "\<exists>e J'. productive_step A J e J'"
proof (cases "\<exists>i<length (workers J). holding (workers J ! i) \<noteq> None")
  case True
  then show ?thesis using busy_goes_on [OF G inv x(1)] by blast
next
  case False
  have live: "live_inv F N (job J)" and k: "keyed (master (job J))" using job_invD(1) [OF inv] by (simp_all add: live_inv_def)
  have un: "unheld (workers J) k" for k using False by (intro unheldI) auto
  consider (beat) "beatsIn (job J) \<noteq> []" | (lost) k where "lostTask J k"
    | (err) k t where "beatsIn (job J) = []" "tasks (master (job J)) k = Some t" "task_State t = TaskStateErr"
    | (fin) "beatsIn (job J) = []" "\<And>k t. tasks (master (job J)) k = Some t \<Longrightarrow> fin t"
    using un unfolding lostTask_def by blast
  then show ?thesis
  proof cases
    case beat
    then obtain k t where "(k, t) \<in> set (beatsIn (job J))" by (cases "beatsIn (job J)") auto
    from mstep.beat_store [OF x(1) this] show ?thesis by (rule master_goes_on) simp_all
  next
    case lost
    then show ?thesis by (rule lost_found [OF k x(1)])
  next
    case err
    then show ?thesis by (rule retry_goes_on [OF k x(1) un])
  next
    case fin
    then show ?thesis by (rule sched_goes_on [OF live x un g h])
  qed
qed

section \<open>The end\<close>

interpretation flag_done: invariant_system "mr_init F n" mstep "\<lambda>s. sched s = AllDone \<longrightarrow> m_done (master s)" for F n
proof unfold_locales
  fix s assume "mr_init F n s"
  then show "sched s = AllDone \<longrightarrow> m_done (master s)" by (auto simp: mr_init_def scheduleStart_def prod_eq_iff)
next
  fix s e t assume inv: "sched s = AllDone \<longrightarrow> m_done (master s)" and "mstep s e t"
  from this(2) show "sched t = AllDone \<longrightarrow> m_done (master t)"
  proof cases
    case (retry ks now args m v)
    then show ?thesis using inv m_done_getRetry by auto
  next
    case (recv f pc args)
    then show ?thesis by (cases "sched s") (auto split: if_splits)
  next
    case (assign args f now m v)
    then show ?thesis using inv by (auto simp: assignTask_def genTaskID_def Let_def)
  next
    case (tick ks m pc)
    then show ?thesis using inv by (cases "sched s") (auto split: if_splits)
  qed (use inv in \<open>auto simp: m_done_keeps m_done_handleHeartbeat\<close>)
qed

text \<open>The job goes on: the process of the master runs and there is hope for a worker.\<close>

definition under_way :: "App \<Rightarrow> string list \<Rightarrow> nat \<Rightarrow> WState \<Rightarrow> (string \<Rightarrow> KeyValue list)
    \<Rightarrow> (string \<Rightarrow> string list \<Rightarrow> string) \<Rightarrow> JobSys \<Rightarrow> bool" where
  "under_way A F N w0 out g J \<longleftrightarrow>
     goodJob A F N w0 out g \<and> length F + N < 2 ^ 32 \<and> job_inv A F N w0 out g J \<and> sched (job J) \<noteq> Exited \<and>
     fetched_inv J \<and> hope J \<and> (sched (job J) = AllDone \<longrightarrow> m_done (master (job J)))"

lemma offered_not_exited: "offered m p = Some (f, pc) \<Longrightarrow> pc \<noteq> Exited"
  by (cases p) (auto split: if_splits)

lemma productive_not_exited:
  assumes "productive_step A J e J'" "sched (job J) \<noteq> Exited"
  shows "sched (job J') \<noteq> Exited"
proof -
  have ok: "productive J e J'" and "jstep A J e J'" using assms(1) by (simp_all add: productive_step_def careful_step_def)
  from this(2) show ?thesis
  proof cases
    case (master ev s)
    from master(3) show ?thesis by cases (use ok master assms(2) in auto)
  next
    case (recv_to i a f pc args)
    then show ?thesis by (auto dest: offered_not_exited)
  qed (use ok assms(2) in \<open>auto elim: mstepE\<close>)
qed

lemma alive_update: "i < length W \<Longrightarrow> p \<noteq> Stopped \<Longrightarrow> \<exists>q \<in> set (W[i := p]). q \<noteq> Stopped"
  using set_update_memI by fastforce

lemma hope_moved: "i < length (workers J) \<Longrightarrow> p \<noteq> Stopped \<Longrightarrow> hope (J\<lparr>job := s, workers := (workers J)[i := p]\<rparr>)"
  using alive_update [of i "workers J" p] by (simp add: hope_def)

lemma hope_answered:
  "i < length (workers J) \<Longrightarrow> tasks (master s) k \<noteq> None \<Longrightarrow> hope (J\<lparr>job := s, workers := W\<rparr>)"
  unfolding hope_def by auto

lemma hope_master:
  assumes h: "hope J" and st: "mstep (job J) e s" and ok: "productive J (JMaster e) (J\<lparr>job := s\<rparr>)" and k: "keyed (master (job J))"
  shows "hope (J\<lparr>job := s\<rparr>)"
proof -
  have "set (workerIDs (master (job J))) \<subseteq> set (workerIDs (master s)) \<and> (chanClosed (sched (job J)) \<longrightarrow> chanClosed (sched s))"
    using st
  proof cases
    case (monitor ks now)
    with handleHeartbeat_workerIDs [OF k] show ?thesis by auto
  next
    case (tick ks m pc)
    with ok show ?thesis by (cases "sched (job J)") (auto split: if_splits)
  qed (use ok in \<open>auto simp: heartBeatStore_def\<close>)
  moreover have "tasks (master (job J)) k \<noteq> None \<Longrightarrow> tasks (master s) k \<noteq> None" for k by (rule mstep_keeps_tasks [OF st])
  ultimately show ?thesis using h unfolding hope_def by fastforce
qed

lemma productive_hope:
  assumes st: "productive_step A J e J'" and h: "hope J" and k: "keyed (master (job J))"
  shows "hope J'"
proof -
  have ok: "productive J e J'" and "jstep A J e J'" using st by (simp_all add: productive_step_def careful_step_def)
  from this(2) show ?thesis
  proof cases
    case (master ev s)
    with hope_master [OF h master(3) _ k] ok show ?thesis by simp
  next
    case (retry_to i a ks now args m t)
    have "tasks m (TaskID t) \<noteq> None" by (rule getRetry_some [OF k retry_to(7)]) simp
    with hope_answered [of i J "(job J)\<lparr>master := m\<rparr>" "TaskID t"] retry_to show ?thesis by simp
  next
    case (assign_to i a args f now m t)
    from assignTask_some(4) [OF assign_to(7)] have "tasks m (TaskID t) \<noteq> None" by simp
    with hope_answered [of i J "(job J)\<lparr>master := m, getting := remove1 (args, f) (getting (job J))\<rparr>" "TaskID t"] assign_to show ?thesis by simp
  next
    case (block i a ks now args m)
    with hope_moved [of i J "Blocked a" "job J"] show ?thesis by simp
  next
    case (begin_task i t ops)
    with hope_moved [of i J "Writing t ops" "job J"] show ?thesis by simp
  next
    case (write_op i t op ops)
    with hope_moved [of i J "Writing t ops" "job J"] show ?thesis by (simp add: hope_def)
  next
    case (no_task i a)
    then show ?thesis by (simp add: hope_def)
  next
    case (join s wid)
    then show ?thesis by (simp add: hope_def)
  qed (use ok in \<open>auto intro!: hope_moved\<close>)
qed

interpretation job_progress: progress_system "productive_step A" "under_way A F N w0 out g"
    "\<lambda>J. sched (job J) = AllDone \<and> m_done (master (job J))" "left F N" lexless for A F N w0 out g
proof unfold_locales
  show "wf lexless" by (simp add: wf_lex_prod)
next
  fix J e J' assume u: "under_way A F N w0 out g J" and st: "productive_step A J e J'"
  have js: "jstep A J e J'" "careful J e J'" using st by (simp_all add: productive_step_def careful_step_def)
  have "sched (job J') = AllDone \<longrightarrow> m_done (master (job J'))"
    using jstep_job [OF js(1)] u flag_done.inv_step unfolding under_way_def by metis
  moreover have "keyed (master (job J))" using u job_invD(1) by (auto simp: under_way_def live_inv_def)
  ultimately show "under_way A F N w0 out g J'"
    using u job_inv_step [OF _ _ _ js] productive_not_exited [OF st] productive_hope [OF st] fetched_step [OF _ js(1)]
    by (auto simp: under_way_def)
  show "(left F N J', left F N J) \<in> lexless" using u productive_descends [OF _ st] by (auto simp: under_way_def)
next
  fix J assume "under_way A F N w0 out g J" "\<not> (sched (job J) = AllDone \<and> m_done (master (job J)))"
  then show "\<exists>e J'. productive_step A J e J'" using productive_goes_on by (auto simp: under_way_def)
qed

lemma reached_under_way:
  assumes "goodJob A F (nat n) w0 out g" "length F + nat n < 2 ^ 32" "reach (job_init F n w0) (careful_step A) J"
    "sched (job J) \<noteq> Exited"
    "workerIDs (master (job J)) \<noteq> [] \<or> (\<exists>k. tasks (master (job J)) k \<noteq> None) \<or> (\<exists>p \<in> set (workers J). p \<noteq> Stopped)"
  shows "under_way A F (nat n) w0 out g J"
  using assms whole_job.reach_inv [OF assms(3), of out g] flag_done.reach_inv [OF job_projects [OF careful_reach [OF assms(3)]]]
    fetched.reach_inv [OF careful_reach [OF assms(3)]]
  by (auto simp: under_way_def job_system_inv_def hope_def)

text \<open>
  C5: a distributed job gets done if workers are started when they are needed. Take any state of a careful run, whatever has happened until then: workers may have died in the middle of a write or
  timed out at the channel, their tasks may be lost, their handlers may still wait, heartbeats may be on their way. If the master's process has not ended, and a number for a new worker is left or a task
  is in the table or a worker or handler is there, then there are no endless runs of productive steps; a run that cannot
  go on with a productive step has ended with \<open>Done\<close>, and with the lines of \<open>mrsequential\<close> in the output files; and there is such a run. The order of the
  steps does not matter. Productive steps are careful, no worker dies in them, and a new worker registers when nobody works and what is left waits for a handler that is not there.
\<close>

theorem job_completes:
  assumes "goodJob A F (nat n) w0 out g" "F \<noteq> []" "length F + nat n < 2 ^ 32"
    and "reach (job_init F n w0) (careful_step A) J" "sched (job J) \<noteq> Exited"
    and "workerIDs (master (job J)) \<noteq> [] \<or> (\<exists>k. tasks (master (job J)) k \<noteq> None) \<or> (\<exists>p \<in> set (workers J). p \<noteq> Stopped)"
  shows "(\<forall>f. f 0 = J \<longrightarrow> \<not> (\<forall>i. \<exists>e. productive_step A (f i) e (f (Suc i)))) \<and>
    (\<forall>K. reach (\<lambda>K. K = J) (productive_step A) K \<and> (\<forall>e K'. \<not> productive_step A K e K') \<longrightarrow>
       Done (master (job K)) \<and>
       (\<exists>lines part.
          mrsequential (a_os A) (a_srt A) (a_mapf A) (a_reducef A) F w0 = Inr (putFile ''mr-out-0'' (concat lines) w0) \<and>
          (\<forall>i < nat n. map_of (w_disk (jdisk K)) (''mr-out.'' @ itoa i) = Some (concat (part i))) \<and>
          mset (concat (map part [0..<nat n])) = mset lines)) \<and>
    (\<exists>K. reach (\<lambda>K. K = J) (productive_step A) K \<and> Done (master (job K)))"
proof (intro conjI allI impI)
  have u: "under_way A F (nat n) w0 out g J" by (rule reached_under_way [OF assms(1,3-6)])
  show "\<not> (\<forall>i. \<exists>e. productive_step A (f i) e (f (Suc i)))" if "f 0 = J" for f
    using job_progress.no_endless_run [of A F "nat n" w0 out g f] u that by blast
  fix K assume K: "reach (\<lambda>K. K = J) (productive_step A) K \<and> (\<forall>e K'. \<not> productive_step A K e K')"
  then have d: "sched (job K) = AllDone" "m_done (master (job K))" using job_progress.ends_at_goal [OF u] by blast+
  then show "Done (master (job K))" by (simp add: Done_def)
  have "under_way A F (nat n) w0 out g K" using job_progress.run_inv u K by blast
  then show "\<exists>lines part.
      mrsequential (a_os A) (a_srt A) (a_mapf A) (a_reducef A) F w0 = Inr (putFile ''mr-out-0'' (concat lines) w0) \<and>
      (\<forall>i < nat n. map_of (w_disk (jdisk K)) (''mr-out.'' @ itoa i) = Some (concat (part i))) \<and>
      mset (concat (map part [0..<nat n])) = mset lines"
    by (intro done_output [OF assms(1,2) _ d(1)]) (simp add: under_way_def)
next
  have u: "under_way A F (nat n) w0 out g J" by (rule reached_under_way [OF assms(1,3-6)])
  then show "\<exists>K. reach (\<lambda>K. K = J) (productive_step A) K \<and> Done (master (job K))"
    using job_progress.goal_reachable by (fastforce simp: Done_def)
qed

text \<open>
  A worker dies after the first of the two writes of its map task; another registers, finds nothing to retry, waits at the channel and gives up: only its handler is left.
\<close>

definition deathPart :: "(int \<times> jevent) list" where
  "deathPart = map (Pair 0)
     [JJoin, JBlock 0, JRecv 0 (asWorker 1), JAssign 0, JRunning 0, JBegin 0, JWrite 0, JCrash 0, JJoin, JBlock 1, JCrash 1]"

lemma death_run:
  "\<exists>J. jrun True smallApp [1, 2] deathPart smallStart = Some J \<and> sched (job J) = SendFile 1 \<and> workers J = [Stopped, Blocked False]"
  by (simp add: deathPart_def job_run_defs)

lemma small_goodJob: "goodJob smallApp [''f1''] 1 smallDisk (\<lambda>_. [samplePair]) (\<lambda>k vs. itoa (length vs))"
proof -
  have dec: "a_dec smallApp (a_enc smallApp (mapBucket smallApp 1 (\<lambda>_. [samplePair]) t i)) =
      Some (mapBucket smallApp 1 (\<lambda>_. [samplePair]) t i)" for t i
    by (simp add: smallApp_def mapBucket_def bucket_def)
  have perm: "perm_invariant (\<lambda>k vs. itoa (length vs))" by (auto simp: perm_invariant_def dest: mset_eq_length)
  have srt: "key_sorter (a_srt smallApp)"
    using go_sort.sorts_by_key [OF key_sort.go_sort_axioms] by (simp add: smallApp_def)
  have out: "''f1'' \<noteq> outName i" for i by (simp add: outName_def)
  show ?thesis
    unfolding goodJob_def using dec perm srt out
    by (auto simp: smallApp_def sampleOS_def good_os_def smallDisk_def disk_ok_def matchName_reducePattern)
qed

theorem job_completes_witness:
  "\<exists>J. jrun True smallApp [1, 2] deathPart smallStart = Some J \<and> workers J = [Stopped, Blocked False] \<and>
     (\<exists>K. reach (\<lambda>K. K = J) (productive_step smallApp) K \<and> Done (master (job K)))"
proof -
  obtain J where J: "jrun True smallApp [1, 2] deathPart smallStart = Some J" "sched (job J) = SendFile 1" "workers J = [Stopped, Blocked False]"
    using death_run by blast
  have r: "reach (job_init [''f1''] 1 smallDisk) (careful_step smallApp) J"
    by (rule jrun_careful [OF smallStart_reach J(1)])
  have G: "goodJob smallApp [''f1''] (nat 1) smallDisk (\<lambda>_. [samplePair]) (\<lambda>k vs. itoa (length vs))"
    using small_goodJob by simp
  have "\<exists>K. reach (\<lambda>K. K = J) (productive_step smallApp) K \<and> Done (master (job K))"
    using job_completes [OF G _ _ r] J(2,3) by simp
  with J show ?thesis by blast
qed

end
