(* ===== verification/MR_Apps.thy ===== *)
theory MR_Apps
  imports MR_Job Utf8
begin

text \<open>
  The applications of \<open>mrapps/\<close>: word count (\<open>wc.go\<close>), the inverted index (\<open>indexer.go\<close>) and the
  functions of \<open>nocrash.go\<close>, which those of \<open>crash.go\<close> equal when they do not end the process. Words
  are found as \<open>strings.FieldsFunc\<close> finds them, on the runes of the text; which runes are letters
  (\<open>unicode.IsLetter\<close>, a table) is an argument.
\<close>

section \<open>Words\<close>

text \<open>
  \<open>strings.FieldsFunc\<close>: the fields between the runes for which \<open>f\<close> holds. \<open>field\<close> is the one that has
  begun, if any.
\<close>

fun fieldsLoop :: "(nat \<Rightarrow> bool) \<Rightarrow> (nat \<times> string) list \<Rightarrow> string option \<Rightarrow> string list \<Rightarrow> string list" where
  "fieldsLoop f [] field acc = (case field of None \<Rightarrow> acc | Some w \<Rightarrow> acc @ [w])"
| "fieldsLoop f ((r, bs) # rs) field acc =
     (if f r
      then (case field of None \<Rightarrow> fieldsLoop f rs None acc
            | Some w \<Rightarrow> fieldsLoop f rs None (acc @ [w]))
      else (case field of None \<Rightarrow> fieldsLoop f rs (Some bs) acc
            | Some w \<Rightarrow> fieldsLoop f rs (Some (w @ bs)) acc))"

definition FieldsFunc :: "(nat \<Rightarrow> bool) \<Rightarrow> string \<Rightarrow> string list" where
  "FieldsFunc f s = fieldsLoop f (runes s) None []"

section \<open>The applications\<close>

definition wc_Map :: "(nat \<Rightarrow> bool) \<Rightarrow> string \<Rightarrow> string \<Rightarrow> KeyValue list res" where
  "wc_Map isLetter filename contents =
     (let ff = (\<lambda>r. \<not> isLetter r);
          wds = FieldsFunc ff contents
      in Inr (map (\<lambda>w. \<lparr>Key = w, Value = ''1''\<rparr>) wds))"

definition wc_Reduce :: "string \<Rightarrow> string list \<Rightarrow> string res" where
  "wc_Reduce key vals = Inr (itoa (length vals))"

text \<open>\<open>strings.Join\<close>.\<close>

fun Join :: "string list \<Rightarrow> string \<Rightarrow> string" where
  "Join [] sep = []"
| "Join [s] sep = s"
| "Join (s # ss) sep = s @ sep @ Join ss sep"

text \<open>The index. The iteration over the set of words comes in an order \<open>ord\<close> that Go leaves open.\<close>

definition indexer_Map :: "(nat \<Rightarrow> bool) \<Rightarrow> (string list \<Rightarrow> string list) \<Rightarrow> string \<Rightarrow> string
    \<Rightarrow> KeyValue list res" where
  "indexer_Map isLetter ord document val =
     (let wds = FieldsFunc (\<lambda>x. \<not> isLetter x) val;
          m = remdups wds
      in Inr (map (\<lambda>w. \<lparr>Key = w, Value = document\<rparr>) (ord m)))"

definition indexer_Reduce :: "string \<Rightarrow> string list \<Rightarrow> string res" where
  "indexer_Reduce key vals =
     (let vals = sort vals in Inr (itoa (length vals) @ '' '' @ Join vals '',''))"

definition nocrash_Map :: "string \<Rightarrow> string \<Rightarrow> KeyValue list res" where
  "nocrash_Map filename contents =
     Inr [\<lparr>Key = ''a'', Value = filename\<rparr>,
          \<lparr>Key = ''b'', Value = itoa (length filename)\<rparr>,
          \<lparr>Key = ''c'', Value = itoa (length contents)\<rparr>,
          \<lparr>Key = ''d'', Value = ''xyzzy''\<rparr>]"

definition nocrash_Reduce :: "string \<Rightarrow> string list \<Rightarrow> string res" where
  "nocrash_Reduce key vals = (let vv = sort vals in Inr (Join vv '' ''))"

text \<open>The results as functions, for applications that do not panic.\<close>

definition wc_count :: "string \<Rightarrow> string list \<Rightarrow> string" where
  "wc_count key vals = itoa (length vals)"

lemma perm_invariant_sort: "perm_invariant (\<lambda>k vs. h (sort vs))"
  unfolding perm_invariant_def
proof (intro allI impI)
  fix vs vs' :: "string list"
  assume "mset vs = mset vs'"
  then have "sort vs = sort vs'" by (metis properties_for_sort mset_sort sorted_sort)
  then show "h (sort vs) = h (sort vs')" by simp
qed

section \<open>Words as maximal runs\<close>

text \<open>The reference: cut the runes into the maximal runs of runes that are not separators.\<close>

definition sep :: "(nat \<Rightarrow> bool) \<Rightarrow> nat \<times> string \<Rightarrow> bool" where
  "sep f x = f (fst x)"

function maximalRuns :: "(nat \<Rightarrow> bool) \<Rightarrow> (nat \<times> string) list \<Rightarrow> (nat \<times> string) list list" where
  "maximalRuns f [] = []"
| "maximalRuns f (x # xs) =
     (if sep f x then maximalRuns f xs
      else (x # takeWhile (\<lambda>y. \<not> sep f y) xs) # maximalRuns f (dropWhile (\<lambda>y. \<not> sep f y) xs))"
  by pat_completeness auto
termination
  by (relation "measure (\<lambda>(f, xs). length xs)") (auto simp: less_Suc_eq_le length_dropWhile_le)

definition bytesOf :: "(nat \<times> string) list \<Rightarrow> string" where
  "bytesOf rs = concat (map snd rs)"

lemma bytesOf_simps [simp]: "bytesOf [] = []" "bytesOf (x # xs) = snd x @ bytesOf xs"
  by (simp_all add: bytesOf_def)

lemma fieldsLoop_acc: "fieldsLoop f rs field acc = acc @ fieldsLoop f rs field []"
proof (induction rs arbitrary: field acc)
  case Nil
  then show ?case by (cases field) simp_all
next
  case (Cons x rs)
  obtain r b where x: "x = (r, b)" by fastforce
  show ?case
  proof (cases "f r")
    case True
    show ?thesis
    proof (cases field)
      case None
      with True x Cons.IH [of None acc] show ?thesis by simp
    next
      case (Some w)
      with True x Cons.IH [of None "acc @ [w]"] Cons.IH [of None "[w]"] show ?thesis by simp
    qed
  next
    case False
    with x Cons.IH [of _ acc] show ?thesis by (cases field) simp_all
  qed
qed

lemma fieldsLoop_runs:
  "fieldsLoop f rs None [] = map bytesOf (maximalRuns f rs)"
  "fieldsLoop f rs (Some w) [] =
     (w @ bytesOf (takeWhile (\<lambda>y. \<not> sep f y) rs)) #
     map bytesOf (maximalRuns f (dropWhile (\<lambda>y. \<not> sep f y) rs))"
proof (induction rs arbitrary: w)
  case Nil
  { case 1 then show ?case by simp }
  { case 2 then show ?case by simp }
next
  case (Cons x rs)
  obtain r b where x: "x = (r, b)" by fastforce
  { case 1
    show ?case using Cons x by (simp add: sep_def) }
  { case 2
    show ?case
      using Cons.IH(1) Cons.IH(2) [of "w @ b"] x fieldsLoop_acc [of f rs None "[w]"]
      by (simp add: sep_def) }
qed

section \<open>Properties\<close>

text \<open>
  C33: words. \<open>wc\<close> emits one pair for every maximal run of letters of the text, in order, with the bytes of the
  run as key; \<open>indexer\<close> emits one pair for every different run, with the document as value, in whatever order the iteration over its
  Go map has. The runes are a partition of the text, valid UTF-8 or not, so no byte of a word is lost.
\<close>

theorem Map_emits_words:
  assumes "\<And>xs. mset (ord xs) = mset xs"
  shows "concat (map snd (runes s)) = s \<and>
     wc_Map isLetter d s =
       Inr (map (\<lambda>us. \<lparr>Key = bytesOf us, Value = ''1''\<rparr>) (maximalRuns (\<lambda>r. \<not> isLetter r) (runes s))) \<and>
     (\<exists>kvs. indexer_Map isLetter ord d s = Inr kvs \<and> distinct (map Key kvs) \<and>
        set kvs = (\<lambda>us. \<lparr>Key = bytesOf us, Value = d\<rparr>) ` set (maximalRuns (\<lambda>r. \<not> isLetter r) (runes s)))"
proof -
  have words: "FieldsFunc (\<lambda>r. \<not> isLetter r) s = map bytesOf (maximalRuns (\<lambda>r. \<not> isLetter r) (runes s))"
    by (simp add: FieldsFunc_def fieldsLoop_runs)
  have ord: "set (ord xs) = set xs" "distinct (ord xs) = distinct xs" for xs
    using assms [of xs] by (auto dest: mset_eq_setD mset_eq_imp_distinct_iff)
  show ?thesis
    by (auto simp: concat_runes wc_Map_def indexer_Map_def Let_def words o_def ord)
qed

theorem Map_emits_words_witness:
  "\<exists>kvs. indexer_Map (\<lambda>r. r = 97) rev ''doc'' ''a'' = Inr kvs \<and> distinct (map Key kvs)"
  using Map_emits_words [of rev "''a''" "\<lambda>r. r = 97" "''doc''"] by auto

text \<open>
  Word count counts words. For the word-count application on files that can be read, the sequential program writes one line for each word that occurs
  in some file, in ascending order, with the number of its occurrences in all files.
\<close>

theorem wc_counts_words:
  assumes "good_os os" "key_sorter srt" "fs \<noteq> []"
    and "\<And>f. f \<in> set fs \<Longrightarrow> map_of (w_disk w) f = Some (content f)"
  shows "mrsequential os srt (wc_Map isLetter) wc_Reduce fs w =
    (let wds = concat (map (\<lambda>f. FieldsFunc (\<lambda>r. \<not> isLetter r) (content f)) fs)
     in Inr (putFile ''mr-out-0''
          (concat (map (\<lambda>k. outputLine k (itoa (count_list wds k))) (sorted_list_of_set (set wds)))) w))"
proof -
  let ?wds = "concat (map (\<lambda>f. FieldsFunc (\<lambda>r. \<not> isLetter r) (content f)) fs)"
  let ?out = "\<lambda>f. map (\<lambda>w. \<lparr>Key = w, Value = ''1''\<rparr>) (FieldsFunc (\<lambda>r. \<not> isLetter r) (content f))"
  let ?kvs = "map (\<lambda>w. \<lparr>Key = w, Value = ''1''\<rparr>) ?wds"
  have "seqMap os (wc_Map isLetter) w fs [] = Inr (concat (map ?out fs))"
    using seqMap_ok [of os fs w "wc_Map isLetter" ?out "[]"] assms(1,4) by (simp add: wc_Map_def)
  then have seq: "seqMap os (wc_Map isLetter) w fs [] = Inr ?kvs"
    by (simp add: map_concat o_def)
  have perm: "perm_invariant wc_count"
    by (auto simp: perm_invariant_def wc_count_def dest: mset_eq_length)
  have keys: "keysOf ?kvs = sorted_list_of_set (set ?wds)"
    by (simp add: keysOf_def image_image del: set_concat)
  have line: "mergedLine wc_count ?kvs = (\<lambda>k. outputLine k (itoa (count_list ?wds k)))"
  proof
    fix k :: string
    have "(\<lambda>x. x = k) = (=) k" by auto
    then show "mergedLine wc_count ?kvs k = outputLine k (itoa (count_list ?wds k))"
      by (simp add: mergedLine_def wc_count_def valuesOf_def filter_map o_def count_list_eq_length_filter)
  qed
  show ?thesis
    using key_sorter.sequential_output [OF assms(2,1,3) perm _ seq, of wc_Reduce]
    by (simp only: keys line Let_def) (simp add: wc_Reduce_def wc_count_def)
qed

theorem wc_counts_words_witness:
  "mrsequential sampleOS (sort_key Key) (wc_Map (\<lambda>r. r = 97)) wc_Reduce [''f1'', ''f2''] sampleDisk =
   Inr (putFile ''mr-out-0'' (outputLine ''a'' (itoa 2)) sampleDisk)"
proof -
  have nil: "runes [] = []" by (simp add: runes.simps)
  have r: "runes ''a'' = [(97, ''a'')]" by (subst runes.simps) (simp add: byte_of_def nil)
  have F: "FieldsFunc (\<lambda>r. r \<noteq> 97) ''a'' = [''a'']" by (simp add: FieldsFunc_def r)
  have files: "map_of (w_disk sampleDisk) f = Some ''a''" if "f \<in> set [''f1'', ''f2'']" for f
    using that by (auto simp: sampleDisk_def)
  have os: "good_os sampleOS" by (simp add: good_os_def sampleOS_def)
  have count: "count_list [''a'', ''a''] ''a'' = 2" by simp
  have keys: "sorted_list_of_set (set [''a'', ''a'']) = [''a'']" by simp
  have ne: "[''f1'', ''f2''] \<noteq> []" by simp
  have tail: "[''a''] @ [''a''] = [''a'', ''a'']" by simp
  show ?thesis
    by (rule wc_counts_words [OF os key_sort.key_sorter_axioms ne, of sampleDisk "\<lambda>_. ''a''" "\<lambda>r. r = 97",
        OF files, unfolded Let_def list.map concat.simps append_Nil2 F tail keys count])
qed

text \<open>
  The applications fit the framework. The \<open>Reduce\<close> functions of the three applications never panic and give the same result for every
  order of the values, which is what the framework needs to be deterministic.
\<close>

theorem apps_order_insensitive:
  assumes "mset vs = mset vs'"
  shows "wc_Reduce k vs = wc_Reduce k vs' \<and> indexer_Reduce k vs = indexer_Reduce k vs' \<and>
     nocrash_Reduce k vs = nocrash_Reduce k vs' \<and>
     returns (wc_Reduce k vs) \<and> returns (indexer_Reduce k vs) \<and> returns (nocrash_Reduce k vs)"
proof -
  have "sort vs = sort vs'" using assms by (metis properties_for_sort mset_sort sorted_sort)
  moreover have "length vs = length vs'" using assms by (rule mset_eq_length)
  ultimately show ?thesis
    by (simp add: wc_Reduce_def indexer_Reduce_def nocrash_Reduce_def)
qed

theorem apps_order_insensitive_witness:
  "indexer_Reduce ''k'' [''b'', ''a''] = indexer_Reduce ''k'' [''a'', ''b'']"
  using apps_order_insensitive [of "[''b'', ''a'']" "[''a'', ''b'']" "''k''"]
  by (simp add: add_mset_commute)

end
