(* ===== verification/MR_Apps_Job.thy ===== *)
theory MR_Apps_Job
  imports MR_Progress MR_Apps
begin

text \<open>
  Word count and the index, distributed: the applications of \<open>MR_Apps\<close> on the whole of \<open>MR_Output\<close>, and what is in the output files at the end, to the byte.
\<close>

section \<open>Any application\<close>

text \<open>
  The assumptions that do not depend on the application: the file system works, \<open>sort\<close> keeps its promise, JSON is lossless on the pairs in \<open>V\<close>, the
  input files are there, and no file on the disk looks like an intermediate file or an output file of the job.
\<close>

definition inputsReady :: "App \<Rightarrow> string list \<Rightarrow> int \<Rightarrow> WState \<Rightarrow> (string \<Rightarrow> string) \<Rightarrow> (KeyValue \<Rightarrow> bool) \<Rightarrow> bool" where
  "inputsReady A F n w0 content V \<longleftrightarrow>
     good_os (a_os A) \<and> go_sort (a_srt A) \<and> F \<noteq> [] \<and> 0 < n \<and> length F + nat n < 2 ^ 32 \<and>
     (\<forall>kvs. (\<forall>kv \<in> set kvs. V kv) \<longrightarrow> a_dec A (a_enc A kvs) = Some kvs) \<and>
     (\<forall>f \<in> set F. map_of (w_disk w0) f = Some (content f)) \<and> disk_ok w0 \<and>
     (\<forall>name \<in> dom (map_of (w_disk w0)). \<forall>i < nat n. \<not> matchName (reducePattern i) name) \<and>
     (\<forall>f \<in> set F. \<forall>i < nat n. f \<noteq> ''mr-out.'' @ itoa i)"

lemma job_result:
  assumes I: "inputsReady A F n w0 content V"
    and app: "\<And>f. f \<in> set F \<Longrightarrow> a_mapf A f (content f) = Inr (out f)" "\<And>f kv. f \<in> set F \<Longrightarrow> kv \<in> set (out f) \<Longrightarrow> V kv"
      "\<And>k vs. a_reducef A k vs = Inr (g k vs)" "perm_invariant g"
    and run: "reach (job_init F n w0) (careful_step A) J" "Done (master (job J))" and i: "i < nat n"
  shows "map_of (w_disk (jdisk J)) (''mr-out.'' @ itoa i) =
    Some (concat (map (mergedLine g (concat (map out F))) (filter (\<lambda>k. ihash k mod n = int i) (keysOf (concat (map out F))))))"
proof -
  have F: "F \<noteq> []" "0 < n" "length F + nat n < 2 ^ 32" using I by (simp_all add: inputsReady_def)
  have G: "goodJob A F (nat n) w0 out g"
    by (rule goodJob_intro [where V = V]) (use I app in \<open>auto simp: inputsReady_def\<close>)
  have "outLines g (nat n) kvs i = map (mergedLine g kvs) (filter (\<lambda>k. ihash k mod n = int i) (keysOf kvs))" for kvs
    using F(2) by (simp add: outLines_def Let_def lines_bucket)
  then show ?thesis
    using output_complete [OF done_reached(2,1) [OF G F(1,3) run] i] by (simp add: outName_def)
qed

section \<open>Word count\<close>

lemma wc_lines:
  assumes "kvs = map (\<lambda>w. \<lparr>Key = w, Value = ''1''\<rparr>) wds"
  shows "keysOf kvs = sorted_list_of_set (set wds)" "mergedLine wc_count kvs k = outputLine k (itoa (count_list wds k))"
proof -
  show "keysOf kvs = sorted_list_of_set (set wds)" by (simp add: keysOf_def assms image_image)
  have "(\<lambda>x. x = k) = (=) k" by auto
  then show "mergedLine wc_count kvs k = outputLine k (itoa (count_list wds k))"
    by (simp add: mergedLine_def wc_count_def valuesOf_def assms filter_map o_def count_list_eq_length_filter)
qed

text \<open>
  C30: a distributed word count counts words. Workers with the application \<open>wc\<close> register, crash, are replaced and finish a job on the files \<open>F\<close>, in a careful run: the scheduler is timely, and a task is given to another worker only
  when the one that had it is gone. When the job is done,
  \<open>mr-out.i\<close> has one line for every word of the input files whose hash is \<open>i\<close> modulo the number of reduce tasks, in ascending order, with the number of
  its occurrences in all files, and nothing else.
\<close>

theorem job_counts_words:
  assumes "inputsReady A F n w0 content V" "a_mapf A = wc_Map isLetter" "a_reducef A = wc_Reduce"
    and "\<And>f w. f \<in> set F \<Longrightarrow> w \<in> set (FieldsFunc (\<lambda>r. \<not> isLetter r) (content f)) \<Longrightarrow> V \<lparr>Key = w, Value = ''1''\<rparr>"
    and "reach (job_init F n w0) (careful_step A) J" "Done (master (job J))" "i < nat n"
  shows "map_of (w_disk (jdisk J)) (''mr-out.'' @ itoa i) =
    (let wds = concat (map (\<lambda>f. FieldsFunc (\<lambda>r. \<not> isLetter r) (content f)) F)
     in Some (concat (map (\<lambda>k. outputLine k (itoa (count_list wds k)))
          (filter (\<lambda>k. ihash k mod n = int i) (sorted_list_of_set (set wds))))))"
proof -
  let ?out = "\<lambda>f. map (\<lambda>w. \<lparr>Key = w, Value = ''1''\<rparr>) (FieldsFunc (\<lambda>r. \<not> isLetter r) (content f))"
  have perm: "perm_invariant wc_count" by (auto simp: perm_invariant_def wc_count_def dest: mset_eq_length)
  let ?wds = "concat (map (\<lambda>f. FieldsFunc (\<lambda>r. \<not> isLetter r) (content f)) F)"
  have kvs: "concat (map ?out F) = map (\<lambda>w. \<lparr>Key = w, Value = ''1''\<rparr>) ?wds" by (simp add: map_concat o_def)
  have "map_of (w_disk (jdisk J)) (''mr-out.'' @ itoa i) = Some (concat (map (mergedLine wc_count (concat (map ?out F)))
      (filter (\<lambda>k. ihash k mod n = int i) (keysOf (concat (map ?out F))))))"
    by (rule job_result [OF assms(1) _ _ _ perm assms(5-7)])
       (use assms(2-4) in \<open>auto simp: wc_Map_def wc_Reduce_def wc_count_def\<close>)
  then show ?thesis unfolding wc_lines [OF kvs] Let_def by (simp add: wc_lines(2) [OF kvs])
qed

text \<open>One file with the text \<open>a\<close>, one reduce task.\<close>

definition wcApp :: App where
  "wcApp = smallApp\<lparr>a_mapf := wc_Map (\<lambda>r. r = 97), a_reducef := wc_Reduce\<rparr>"

lemma small_words: "FieldsFunc (\<lambda>r. r \<noteq> 97) ''a'' = [''a'']"
proof -
  have "runes [] = []" by (simp add: runes.simps)
  then have "runes ''a'' = [(97, ''a'')]" by (subst runes.simps) (simp add: byte_of_def)
  then show ?thesis by (simp add: FieldsFunc_def)
qed

text \<open>The operations of a map task depend on the pairs that the application returns for its file.\<close>

lemma mapOps_pairs:
  assumes "Phase t = MapPhase" "readFile (a_os A) (Filename t) w = Some c" "a_mapf A (Filename t) c = h (Filename t) c"
  shows "taskOps A t w = taskOps (A\<lparr>a_mapf := h\<rparr>) t w"
  using assms by (simp add: taskOps_def mapOps_def cong: sum.case_cong)

lemma small_read: "readFile sampleOS ''f1'' \<lparr>w_disk = [(''f1'', ''a'')], reports = []\<rparr> = Some ''a''"
  by code_simp

lemma wcApp_map:
  "taskOps wcApp \<lparr>WorkerID = w, TaskID = 1, NReduce = 1, Phase = MapPhase, Filename = ''f1'', task_State = st, BeatTime = b\<rparr>
     \<lparr>w_disk = [(''f1'', ''a'')], reports = []\<rparr> = Some [CreateFile ''mr-1-0'', WriteAt ''mr-1-0'' 0 ''x'']"
proof -
  have same: "taskOps (wcApp\<lparr>a_mapf := \<lambda>f c. Inr [samplePair]\<rparr>) t w = taskOps smallApp t w" if "Phase t = MapPhase" for t w
    using that by (simp add: taskOps_def mapOps_def wcApp_def smallApp_def cong: option.case_cong sum.case_cong)
  show ?thesis
    by (subst mapOps_pairs [where c = "''a''" and h = "\<lambda>f c. Inr [samplePair]"])
       (simp_all add: same small_map, simp_all add: wcApp_def smallApp_def small_read wc_Map_def small_words samplePair_def)
qed

lemma wcApp_reduce:
  "taskOps wcApp \<lparr>WorkerID = w, TaskID = 2, NReduce = 1, Phase = ReducePhase, Filename = ''mr-*-0'', task_State = st, BeatTime = b\<rparr>
     \<lparr>w_disk = [(''f1'', ''a''), (''mr-1-0'', ''x'')], reports = []\<rparr> =
   Some [CreateFile ''mr-out.0'', WriteAt ''mr-out.0'' 0 (''a 1'' @ [CHR 0x0A])]"
proof -
  have "wc_Reduce = (\<lambda>k vs. Inr (itoa (length vs)))" by (intro ext) (simp add: wc_Reduce_def)
  then have "taskOps wcApp t d = taskOps smallApp t d" if "Phase t = ReducePhase" for t d
    using that by (simp add: taskOps_def reduceOps_def wcApp_def smallApp_def cong: option.case_cong)
  then show ?thesis by (simp add: small_reduce)
qed

lemma wcApp_run:
  "\<exists>J. jrun True wcApp [1, 2] (mapPart @ reducePart) smallStart = Some J \<and> Done (master (job J))"
  by (simp add: mapPart_def reducePart_def job_run_defs wcApp_map wcApp_reduce)

lemma small_inputs:
  assumes "a_os A = sampleOS" "a_srt A = sort_key Key" "\<And>kvs. \<forall>kv \<in> set kvs. kv = p \<Longrightarrow> a_dec A (a_enc A kvs) = Some kvs"
  shows "inputsReady A [''f1''] 1 smallDisk (\<lambda>_. ''a'') (\<lambda>kv. kv = p)"
  using assms key_sort.go_sort_axioms
  by (auto simp: inputsReady_def sampleOS_def good_os_def smallDisk_def disk_ok_def matchName_reducePattern)

lemma all_same: "\<forall>kv \<in> set kvs. kv = p \<Longrightarrow> replicate (length kvs) p = kvs"
  by (simp add: replicate_length_same)

theorem job_counts_words_witness:
  "\<exists>J. jrun True wcApp [1, 2] (mapPart @ reducePart) smallStart = Some J \<and>
     map_of (w_disk (jdisk J)) (''mr-out.'' @ itoa 0) = Some (outputLine ''a'' (itoa 1))"
proof -
  obtain J where J: "jrun True wcApp [1, 2] (mapPart @ reducePart) smallStart = Some J" "Done (master (job J))"
    using wcApp_run by blast
  have I: "inputsReady wcApp [''f1''] 1 smallDisk (\<lambda>_. ''a'') (\<lambda>kv. kv = samplePair)"
    by (rule small_inputs) (simp_all add: wcApp_def smallApp_def all_same)
  have "map_of (w_disk (jdisk J)) (''mr-out.'' @ itoa 0) = Some (outputLine ''a'' (itoa 1))"
    using job_counts_words [OF I, of "\<lambda>r. r = 97" J 0] jrun_careful [OF smallStart_reach J(1)] J(2)
    by (simp add: wcApp_def small_words samplePair_def)
  with J(1) show ?thesis by blast
qed

section \<open>The index\<close>

definition index_line :: "string \<Rightarrow> string list \<Rightarrow> string" where
  "index_line key vals = itoa (length vals) @ '' '' @ Join (sort vals) '',''"

lemma one_of_distinct: "distinct ws \<Longrightarrow> filter (\<lambda>w. w = k) ws = (if k \<in> set ws then [k] else [])"
  by (induction ws) auto

lemma valuesOf_append: "valuesOf k (xs @ ys) = valuesOf k xs @ valuesOf k ys"
  by (simp add: valuesOf_def)

lemma index_values:
  assumes "\<And>f. f \<in> set F \<Longrightarrow> distinct (ws f)"
  shows "valuesOf k (concat (map (\<lambda>f. map (\<lambda>w. \<lparr>Key = w, Value = f\<rparr>) (ws f)) F)) = filter (\<lambda>f. k \<in> set (ws f)) F"
  using assms
proof (induction F)
  case (Cons f F)
  have "valuesOf k (map (\<lambda>w. \<lparr>Key = w, Value = f\<rparr>) (ws f)) = (if k \<in> set (ws f) then [f] else [])"
    using one_of_distinct [of "ws f" k] Cons.prems by (simp add: valuesOf_def filter_map o_def)
  with Cons show ?case by (simp add: valuesOf_append)
qed (simp add: valuesOf_def)

text \<open>
  C31: a distributed index is complete. When a job with the application \<open>indexer\<close> is done in a careful run (the scheduler is timely, and a task is given to another worker only when the one that had it is gone), \<open>mr-out.i\<close> has one line for every word of the input files whose hash is \<open>i\<close> modulo
  the number of reduce tasks, with the number of files it occurs in and their names, sorted, whatever the order is in which Go visits its maps.
\<close>

theorem job_indexes_files:
  assumes "inputsReady A F n w0 content V" "a_mapf A = indexer_Map isLetter ord" "a_reducef A = indexer_Reduce"
    and "\<And>xs. mset (ord xs) = mset xs"
    and "\<And>f w. f \<in> set F \<Longrightarrow> w \<in> set (FieldsFunc (\<lambda>r. \<not> isLetter r) (content f)) \<Longrightarrow> V \<lparr>Key = w, Value = f\<rparr>"
    and "reach (job_init F n w0) (careful_step A) J" "Done (master (job J))" "i < nat n"
  shows "map_of (w_disk (jdisk J)) (''mr-out.'' @ itoa i) =
    (let wds = (\<lambda>f. set (FieldsFunc (\<lambda>r. \<not> isLetter r) (content f)));
         hits = (\<lambda>k. filter (\<lambda>f. k \<in> wds f) F)
     in Some (concat (map (\<lambda>k. outputLine k (itoa (length (hits k)) @ '' '' @ Join (sort (hits k)) '',''))
          (filter (\<lambda>k. ihash k mod n = int i) (sorted_list_of_set (\<Union>f \<in> set F. wds f))))))"
proof -
  let ?ws = "\<lambda>f. ord (remdups (FieldsFunc (\<lambda>r. \<not> isLetter r) (content f)))"
  let ?out = "\<lambda>f. map (\<lambda>w. \<lparr>Key = w, Value = f\<rparr>) (?ws f)"
  let ?kvs = "concat (map ?out F)"
  have ord: "set (ord xs) = set xs" "distinct (ord xs) = distinct xs" for xs :: "string list"
    using assms(4) [of xs] by (auto dest: mset_eq_setD mset_eq_imp_distinct_iff)
  have perm: "perm_invariant index_line"
    unfolding index_line_def perm_invariant_def by (metis mset_eq_length properties_for_sort mset_sort sorted_sort)
  have "map_of (w_disk (jdisk J)) (''mr-out.'' @ itoa i) = Some (concat (map (mergedLine index_line ?kvs)
      (filter (\<lambda>k. ihash k mod n = int i) (keysOf ?kvs))))"
    by (rule job_result [OF assms(1) _ _ _ perm assms(6-8)])
       (use assms(2,3,5) in \<open>auto simp: indexer_Map_def indexer_Reduce_def index_line_def Let_def ord\<close>)
  moreover have "Key ` set ?kvs = (\<Union>f \<in> set F. set (FieldsFunc (\<lambda>r. \<not> isLetter r) (content f)))"
    by (auto simp: ord image_iff)
  moreover have "valuesOf k ?kvs = filter (\<lambda>f. k \<in> set (FieldsFunc (\<lambda>r. \<not> isLetter r) (content f))) F" for k
    using index_values [of F ?ws k] by (simp add: ord)
  ultimately show ?thesis by (simp add: keysOf_def mergedLine_def [abs_def] index_line_def)
qed

definition indexPair :: KeyValue where
  "indexPair = \<lparr>Key = ''a'', Value = ''f1''\<rparr>"

definition indexApp :: App where
  "indexApp = smallApp\<lparr>a_dec := (\<lambda>s. Some (replicate (length s) indexPair)), a_mapf := indexer_Map (\<lambda>r. r = 97) rev,
     a_reducef := indexer_Reduce\<rparr>"

lemma indexApp_pairs:
  "taskOps (indexApp\<lparr>a_mapf := \<lambda>f c. Inr [indexPair]\<rparr>)
     \<lparr>WorkerID = w, TaskID = 1, NReduce = 1, Phase = MapPhase, Filename = ''f1'', task_State = st, BeatTime = b\<rparr>
     \<lparr>w_disk = [(''f1'', ''a'')], reports = []\<rparr> = Some [CreateFile ''mr-1-0'', WriteAt ''mr-1-0'' 0 ''x'']"
  unfolding indexApp_def smallApp_def App.simps by code_simp

lemma indexApp_map:
  "taskOps indexApp \<lparr>WorkerID = w, TaskID = 1, NReduce = 1, Phase = MapPhase, Filename = ''f1'', task_State = st, BeatTime = b\<rparr>
     \<lparr>w_disk = [(''f1'', ''a'')], reports = []\<rparr> = Some [CreateFile ''mr-1-0'', WriteAt ''mr-1-0'' 0 ''x'']"
  by (subst mapOps_pairs [where c = "''a''" and h = "\<lambda>f c. Inr [indexPair]"])
     (simp_all add: indexApp_pairs, simp_all add: indexApp_def smallApp_def small_read indexer_Map_def small_words indexPair_def)

lemma indexApp_reduce:
  "taskOps indexApp \<lparr>WorkerID = w, TaskID = 2, NReduce = 1, Phase = ReducePhase, Filename = ''mr-*-0'', task_State = st, BeatTime = b\<rparr>
     \<lparr>w_disk = [(''f1'', ''a''), (''mr-1-0'', ''x'')], reports = []\<rparr> =
   Some [CreateFile ''mr-out.0'', WriteAt ''mr-out.0'' 0 (''a 1 f1'' @ [CHR 0x0A])]"
  by code_simp

lemma indexApp_run:
  "\<exists>J. jrun True indexApp [1, 2] (mapPart @ reducePart) smallStart = Some J \<and> Done (master (job J))"
  by (simp add: mapPart_def reducePart_def job_run_defs indexApp_map indexApp_reduce)

theorem job_indexes_files_witness:
  "\<exists>J. jrun True indexApp [1, 2] (mapPart @ reducePart) smallStart = Some J \<and>
     map_of (w_disk (jdisk J)) (''mr-out.'' @ itoa 0) = Some (outputLine ''a'' (itoa 1 @ '' f1''))"
proof -
  obtain J where J: "jrun True indexApp [1, 2] (mapPart @ reducePart) smallStart = Some J" "Done (master (job J))"
    using indexApp_run by blast
  have I: "inputsReady indexApp [''f1''] 1 smallDisk (\<lambda>_. ''a'') (\<lambda>kv. kv = indexPair)"
    by (rule small_inputs) (simp_all add: indexApp_def smallApp_def all_same)
  have "map_of (w_disk (jdisk J)) (''mr-out.'' @ itoa 0) = Some (outputLine ''a'' (itoa 1 @ '' f1''))"
  proof -
    have "a_mapf indexApp = indexer_Map (\<lambda>r. r = 97) rev" "a_reducef indexApp = indexer_Reduce" by (simp_all add: indexApp_def)
    note job = job_indexes_files [OF I this _ _ jrun_careful [OF smallStart_reach J(1)] J(2), of 0]
    show ?thesis by (rule trans [OF job]) (simp_all add: small_words indexPair_def)
  qed
  with J(1) show ?thesis by blast
qed

end
