(* ===== verification/MR_Process.thy ===== *)
theory MR_Process
  imports MR_Steps MR_Schedule
begin

text \<open>
  The processes of \<open>mr/worker.go\<close> and \<open>main/mrmaster.go\<close> around their work: registration, heartbeats, calls that fail or time out, and the end of a process. A computation
  that may end the process has type \<open>int + 'a\<close>; \<open>Inl\<close> is the exit code.
\<close>

section \<open>Calls\<close>

text \<open>The socket of the user with number \<open>uid\<close>.\<close>

definition masterSock :: "nat \<Rightarrow> string" where
  "masterSock uid = ''/var/tmp/824-mr-'' @ itoa uid"

lemma masterSock_inj: "masterSock u = masterSock v \<longleftrightarrow> u = v"
  by (simp add: masterSock_def)

text \<open>
  What comes of an RPC: an answer, an error returned by the handler, no answer within ten seconds, or no socket to dial.
\<close>

datatype 'a outcome = Reply 'a | RpcError | Timeout | NoMaster

definition call :: "'a outcome \<Rightarrow> 'a \<Rightarrow> int + bool \<times> 'a" where
  "call r zero =
     (case r of
        NoMaster \<Rightarrow> Inl 1
      | Reply v \<Rightarrow> Inr (True, v)
      | RpcError \<Rightarrow> Inr (False, zero)
      | Timeout \<Rightarrow> Inr (False, zero))"

section \<open>The worker\<close>

record worker =
  worker_id :: "32 word"
  worker_Task :: "MRTask option"

definition regWorker :: "32 word outcome \<Rightarrow> int + 32 word" where
  "regWorker r = (case call r 0 of Inl code \<Rightarrow> Inl code | Inr (ok, reply) \<Rightarrow> if \<not> ok then Inl 0 else Inr reply)"

definition deRegWorker :: "32 word outcome \<Rightarrow> int + 32 word" where
  "deRegWorker r = (case call r 0 of Inl code \<Rightarrow> Inl code | Inr (ok, reply) \<Rightarrow> if \<not> ok then Inl 1 else Inr reply)"

definition closeWorker :: "32 word outcome \<Rightarrow> int + unit" where
  "closeWorker r = (case deRegWorker r of Inl code \<Rightarrow> Inl code | Inr reply \<Rightarrow> Inr ())"

definition putReduceTask :: "bool outcome \<Rightarrow> int + bool" where
  "putReduceTask r = (case call r False of Inl code \<Rightarrow> Inl code | Inr (ok, reply) \<Rightarrow> if \<not> ok then Inl 1 else Inr reply)"

definition heartbeat :: "worker \<Rightarrow> (MRTask \<Rightarrow> bool outcome) \<Rightarrow> int + bool" where
  "heartbeat w rpc =
     (case worker_Task w of
        None \<Rightarrow> Inr False
      | Some args \<Rightarrow>
          (case call (rpc args) False of Inl code \<Rightarrow> Inl code | Inr (ok, reply) \<Rightarrow> if \<not> ok then Inl 1 else Inr reply))"

definition getTask :: "worker \<Rightarrow> MRTask option outcome \<Rightarrow> int + worker \<times> MRTask option" where
  "getTask w r =
     (case call r None of
        Inl code \<Rightarrow> Inl code
      | Inr (ok, task) \<Rightarrow> if \<not> ok then Inl 1 else Inr (w\<lparr>worker_Task := task\<rparr>, task))"

definition zeroTask :: MRTask where
  "zeroTask = \<lparr>WorkerID = 0, TaskID = 0, NReduce = 0, Phase = MapPhase, Filename = [], task_State = TaskStateQueue, BeatTime = 0\<rparr>"

definition startWorker :: "32 word outcome \<Rightarrow> int + worker" where
  "startWorker r =
     (case regWorker r of
        Inl code \<Rightarrow> Inl code
      | Inr wid \<Rightarrow> if wid = 0 then Inl 0 else Inr \<lparr>worker_id = wid, worker_Task = Some (zeroTask\<lparr>WorkerID := wid\<rparr>)\<rparr>)"

text \<open>The requests of a worker, heartbeats apart.\<close>

datatype workerReq = ReqReg | ReqGetTask "32 word" | ReqSetState "32 word" TaskState | ReqDeReg "32 word"

text \<open>
  \<open>rs\<close> is what its calls of \<open>GetTask\<close> come to, \<open>dr\<close> the call of \<open>DeRegWorker\<close>. The result has the requests made, the disk and the exit code if the
  process has ended.
\<close>

fun workerLoop :: "App \<Rightarrow> worker \<Rightarrow> MRTask option outcome list \<Rightarrow> 32 word outcome \<Rightarrow> WState \<Rightarrow> workerReq list
    \<Rightarrow> workerReq list \<times> WState \<times> int option" where
  "workerLoop A w [] dr d reqs = (reqs, d, None)"
| "workerLoop A w (r # rs) dr d reqs =
     (let reqs = reqs @ [ReqGetTask (worker_id w)] in
      case getTask w r of
        Inl code \<Rightarrow> (reqs, d, Some code)
      | Inr (w, None) \<Rightarrow>
          (reqs @ [ReqDeReg (worker_id w)], d, Some (case closeWorker dr of Inl code \<Rightarrow> code | Inr _ \<Rightarrow> 0))
      | Inr (w, Some task) \<Rightarrow>
          (let (d', go) = workOn (a_os A) (a_srt A) (a_enc A) (a_dec A) (a_mapf A) (a_reducef A) task d;
               reqs = reqs @ map (\<lambda>(k, st). ReqSetState k st) (drop (length (reports d)) (reports d'))
           in if go then workerLoop A w rs dr d' reqs else (reqs, d', Some 1)))"

definition Worker :: "App \<Rightarrow> 32 word outcome \<Rightarrow> MRTask option outcome list \<Rightarrow> 32 word outcome \<Rightarrow> WState
    \<Rightarrow> workerReq list \<times> WState \<times> int option" where
  "Worker A reg rs dr d =
     (case startWorker reg of
        Inl code \<Rightarrow> ([ReqReg], d, Some code)
      | Inr w \<Rightarrow> workerLoop A w rs dr d [ReqReg])"

section \<open>What the master answers\<close>

text \<open>
  \<open>WorkerHeartBeat\<close> assigns to its parameter \<open>reply\<close>, not to what it points to: the caller sees the zero value. A master that has exited has no socket.
\<close>

definition answerReg :: "Master \<Rightarrow> Master \<times> 32 word outcome" where
  "answerReg m = (case RegWorker m of (m, Inl err) \<Rightarrow> (m, RpcError) | (m, Inr wid) \<Rightarrow> (m, Reply wid))"

definition answerBeat :: "int \<Rightarrow> MRTask \<Rightarrow> Sys \<Rightarrow> Sys \<times> bool outcome" where
  "answerBeat now args s =
     (if sched s = Exited then (s, NoMaster)
      else case WorkerHeartBeat now args (master s) of
        (m, Some err) \<Rightarrow> (s\<lparr>master := m\<rparr>, RpcError) | (m, None) \<Rightarrow> (s\<lparr>master := m\<rparr>, Reply False))"

section \<open>The master's process\<close>

text \<open>\<open>main\<close> of \<open>mrmaster.go\<close>: the states of the master at the moments when \<open>Done\<close> is called. The result is the exit code, if the process has ended.\<close>

fun pollDone :: "Master list \<Rightarrow> int option" where
  "pollDone [] = None"
| "pollDone (m # ms) = (if Done m then Some 0 else pollDone ms)"

definition mrmaster :: "string list \<Rightarrow> (Master \<Rightarrow> Master list) \<Rightarrow> int option res" where
  "mrmaster args polls =
     (if args = [] then Inr (Some 1)
      else rbind (MakeMaster args 3) (\<lambda>m. case m of None \<Rightarrow> Inl NilDereference | Some m \<Rightarrow> Inr (pollDone (polls m))))"

section \<open>Properties\<close>

text \<open>The disk after a list of tasks that could all be carried out; the disk when a worker is told that there are no more tasks.\<close>

fun carryOut :: "App \<Rightarrow> MRTask list \<Rightarrow> WState \<Rightarrow> WState option" where
  "carryOut A [] d = Some d"
| "carryOut A (t # ts) d =
     (let (d', go) = workOn (a_os A) (a_srt A) (a_enc A) (a_dec A) (a_mapf A) (a_reducef A) t d
      in if go then carryOut A ts d' else None)"

fun dismissed :: "App \<Rightarrow> MRTask option outcome list \<Rightarrow> WState \<Rightarrow> WState option" where
  "dismissed A (Reply None # rs) d = Some d"
| "dismissed A (Reply (Some t) # rs) d =
     (let (d', go) = workOn (a_os A) (a_srt A) (a_enc A) (a_dec A) (a_mapf A) (a_reducef A) t d
      in if go then dismissed A rs d' else None)"
| "dismissed A _ d = None"

lemma dismissed_iff:
  "dismissed A rs d = Some d1 \<longleftrightarrow>
   (\<exists>ts rest. rs = map (\<lambda>t. Reply (Some t)) ts @ Reply None # rest \<and> carryOut A ts d = Some d1)"
proof (induction A rs d rule: dismissed.induct)
  case (2 A t rs d)
  obtain d' go where go: "workOn (a_os A) (a_srt A) (a_enc A) (a_dec A) (a_mapf A) (a_reducef A) t d = (d', go)" by fastforce
  have "(\<exists>ts rest. Reply (Some t) # rs = map (\<lambda>t. Reply (Some t)) ts @ Reply None # rest \<and> carryOut A ts d = Some d1) \<longleftrightarrow>
      (\<exists>ts rest. rs = map (\<lambda>t. Reply (Some t)) ts @ Reply None # rest \<and> carryOut A (t # ts) d = Some d1)"
  proof (intro iffI; elim exE conjE)
    fix ts rest assume "Reply (Some t) # rs = map (\<lambda>t. Reply (Some t)) ts @ Reply None # rest" "carryOut A ts d = Some d1"
    then show "\<exists>ts rest. rs = map (\<lambda>t. Reply (Some t)) ts @ Reply None # rest \<and> carryOut A (t # ts) d = Some d1"
      by (cases ts) auto
  next
    fix ts rest assume "rs = map (\<lambda>t. Reply (Some t)) ts @ Reply None # rest" "carryOut A (t # ts) d = Some d1"
    then show "\<exists>ts rest. Reply (Some t) # rs = map (\<lambda>t. Reply (Some t)) ts @ Reply None # rest \<and> carryOut A ts d = Some d1"
      by (intro exI [of _ "t # ts"] exI [of _ rest]) simp
  qed
  with 2 [OF go [symmetric] refl] go show ?case by auto
qed (auto simp: Cons_eq_append_conv Cons_eq_map_conv)

text \<open>The loop, with no deregistration among the requests so far.\<close>

lemma workerLoop_spec:
  assumes "workerLoop A w rs dr d reqs = (reqs', d', e)" "\<And>k. ReqDeReg k \<notin> set reqs"
  shows "case dismissed A rs d of
     Some d1 \<Rightarrow> d' = d1 \<and> (\<exists>before. reqs' = before @ [ReqDeReg (worker_id w)] \<and> (\<forall>k. ReqDeReg k \<notin> set before)) \<and>
       e = Some (case dr of Reply _ \<Rightarrow> 0 | _ \<Rightarrow> 1)
   | None \<Rightarrow> (\<forall>k. ReqDeReg k \<notin> set reqs') \<and> e \<noteq> Some 0"
  using assms
proof (induction rs arbitrary: w d reqs)
  case (Cons r rs)
  show ?case
  proof (cases "getTask w r")
    case (Inl code)
    then have "code = 1" "dismissed A (r # rs) d = None" by (auto simp: getTask_def call_def split: outcome.splits if_splits)
    with Inl Cons.prems show ?thesis by (auto simp: Let_def)
  next
    case (Inr p)
    then obtain t where r: "r = Reply t" "p = (w\<lparr>worker_Task := t\<rparr>, t)"
      by (auto simp: getTask_def call_def split: outcome.splits)
    show ?thesis
    proof (cases t)
      case None
      have "(case closeWorker dr of Inl code \<Rightarrow> code | Inr _ \<Rightarrow> 0) = (case dr of Reply _ \<Rightarrow> 0 | _ \<Rightarrow> 1)"
        by (cases dr) (simp_all add: closeWorker_def deRegWorker_def call_def)
      with None Inr r Cons.prems show ?thesis by (auto simp: Let_def)
    next
      case (Some task)
      obtain d1 go where go: "workOn (a_os A) (a_srt A) (a_enc A) (a_dec A) (a_mapf A) (a_reducef A) task d = (d1, go)" by fastforce
      let ?reqs = "reqs @ [ReqGetTask (worker_id w)] @ map (\<lambda>(k, st). ReqSetState k st) (drop (length (reports d)) (reports d1))"
      have no: "ReqDeReg k \<notin> set ?reqs" for k using Cons.prems(2) by auto
      show ?thesis
      proof (cases go)
        case True
        have "workerLoop A (w\<lparr>worker_Task := t\<rparr>) rs dr d1 ?reqs = (reqs', d', e)"
          using Cons.prems(1) Inr r Some go True by (simp add: Let_def)
        from Cons.IH [OF this no] r Some go True show ?thesis by (simp cong: option.case_cong)
      next
        case False
        with Cons.prems(1) Inr r Some go have "reqs' = ?reqs" "e = Some 1" by (auto simp: Let_def)
        with no r Some go False show ?thesis by simp
      qed
    qed
  qed
qed auto

text \<open>
  C32: a worker gives its number back at the end, and only then. If a registered worker could carry out the tasks it got and is then told that there are no more, its last request is \<open>DeRegWorker\<close> with its own number, the
  only one of its kind; it ends with code 0 if that is answered and with 1 otherwise, and the disk is what its tasks have left. In
  every other case (\<open>GetTask\<close> failed or took ten seconds, a task failed, the master is gone) it does not give the number back, and it does not end with code 0.
\<close>

theorem Worker_gives_number_back:
  assumes "n \<noteq> 0" "Worker A (Reply n) rs dr d = (reqs, d', e)"
  shows "(\<forall>ts rest d1. rs = map (\<lambda>t. Reply (Some t)) ts @ Reply None # rest \<and> carryOut A ts d = Some d1 \<longrightarrow>
       (\<exists>before. reqs = before @ [ReqDeReg n] \<and> (\<forall>k. ReqDeReg k \<notin> set before)) \<and>
       e = Some (case dr of Reply _ \<Rightarrow> 0 | _ \<Rightarrow> 1) \<and> d' = d1) \<and>
    (\<not> (\<exists>ts rest d1. rs = map (\<lambda>t. Reply (Some t)) ts @ Reply None # rest \<and> carryOut A ts d = Some d1) \<longrightarrow>
       (\<forall>k. ReqDeReg k \<notin> set reqs) \<and> e \<noteq> Some 0)"
proof -
  let ?w = "\<lparr>worker_id = n, worker_Task = Some (zeroTask\<lparr>WorkerID := n\<rparr>)\<rparr>"
  have "workerLoop A ?w rs dr d [ReqReg] = (reqs, d', e)"
    using assms by (simp add: Worker_def startWorker_def regWorker_def call_def)
  note spec = workerLoop_spec [OF this]
  show ?thesis
  proof (intro conjI allI impI)
    fix ts rest d1 assume "rs = map (\<lambda>t. Reply (Some t)) ts @ Reply None # rest \<and> carryOut A ts d = Some d1"
    then have "dismissed A rs d = Some d1" unfolding dismissed_iff by blast
    with spec show "\<exists>before. reqs = before @ [ReqDeReg n] \<and> (\<forall>k. ReqDeReg k \<notin> set before)"
      "e = Some (case dr of Reply _ \<Rightarrow> 0 | _ \<Rightarrow> 1)" "d' = d1" by simp_all
  next
    assume "\<not> (\<exists>ts rest d1. rs = map (\<lambda>t. Reply (Some t)) ts @ Reply None # rest \<and> carryOut A ts d = Some d1)"
    then have none: "dismissed A rs d = None" using dismissed_iff by (metis option.exhaust)
    with spec show "e \<noteq> Some 0" by simp
    show "ReqDeReg k \<notin> set reqs" for k using spec none by simp
  qed
qed

text \<open>A worker that is dismissed without having had a task.\<close>

definition idleApp :: App where
  "idleApp = \<lparr>a_os = sampleOS, a_srt = sort_key Key, a_enc = (\<lambda>_. []), a_dec = (\<lambda>_. None), a_mapf = (\<lambda>_ _. Inr []),
     a_reducef = (\<lambda>_ _. Inr [])\<rparr>"

theorem Worker_gives_number_back_witness:
  "\<exists>reqs before. Worker idleApp (Reply 2) [Reply None] (Reply 2) sampleDisk = (reqs, sampleDisk, Some 0) \<and> reqs = before @ [ReqDeReg 2]"
proof -
  obtain reqs d e where w: "Worker idleApp (Reply 2) [Reply None] (Reply 2) sampleDisk = (reqs, d, e)"
    by (cases "Worker idleApp (Reply 2) [Reply None] (Reply 2) sampleDisk") blast
  have "(\<exists>before. reqs = before @ [ReqDeReg 2] \<and> (\<forall>k. ReqDeReg k \<notin> set before)) \<and> e = Some 0 \<and> d = sampleDisk"
    using Worker_gives_number_back [OF _ w, THEN conjunct1, rule_format, of "[]" "[]" sampleDisk] by simp
  with w show ?thesis by auto
qed

section \<open>Heartbeats\<close>

lemma later_keeps_tasks:
  assumes "reach (\<lambda>x. x = s) mstep s'" "tasks (master s) k \<noteq> None"
  shows "tasks (master s') k \<noteq> None"
  using assms(1)
proof (induction rule: reach.induct)
  case (reach_step x e t)
  from mstep_keeps_tasks [OF reach_step.hyps(2) reach_step.IH] show ?case .
qed (use assms(2) in simp)

text \<open>
  Heartbeats do not end a worker while the master lives. Whatever the master does after it has given out a task (retries under other workers' numbers, lost workers, the next phase), it accepts
  the heartbeats of the worker that has it, as it accepts those of a worker without a task. The worker sees false all the same: the handler's answer does not reach the caller.
  When the master has exited, the next heartbeat ends the worker.
\<close>

theorem heartbeat_goes_on:
  assumes "reach (\<lambda>x. x = s) mstep s'" "worker_Task w = Some t" "TaskID t \<noteq> 0 \<Longrightarrow> tasks (master s) (TaskID t) \<noteq> None"
  shows "heartbeat w (\<lambda>args. snd (answerBeat now args s')) = (if sched s' = Exited then Inl 1 else Inr False)"
proof (cases "TaskID t = 0 \<or> sched s' = Exited")
  case True
  then show ?thesis using assms(2) by (auto simp: heartbeat_def call_def answerBeat_def WorkerHeartBeat_def)
next
  case False
  then have "tasks (master s) (TaskID t) \<noteq> None" using assms(3) by simp
  from later_keeps_tasks [OF assms(1) this] obtain u where "tasks (master s') (TaskID t) = Some u" by blast
  with False assms(2) show ?thesis
    by (simp add: heartbeat_def call_def answerBeat_def WorkerHeartBeat_def heartBeatLoad_def)
qed

text \<open>With all numbers out, a new worker ends at once, with code 0; the check for the number 0 is never reached.\<close>

lemma startWorker_full:
  assumes "workerIDs m = []"
  shows "startWorker (snd (answerReg m)) = Inl 0"
  using assms by (simp add: startWorker_def regWorker_def answerReg_def RegWorker_def getWorkerID_def call_def)

end
