(* ===== verification/MR_Main.thy ===== *)
theory MR_Main
  imports MR_Process
begin

text \<open>
  \<open>main\<close> of \<open>main/mrworker.go\<close> and \<open>main/mrsequential.go\<close> with the loading of the application. What Go's \<open>plugin\<close> package finds
  in a file is a parameter: \<open>None\<close> for a file it cannot open, otherwise the symbols of the file.
\<close>

text \<open>An exported symbol, by its type: one with the type of \<open>Map\<close>, one with the type of \<open>Reduce\<close>, or another.\<close>

datatype symbol =
    MapFunc "string \<Rightarrow> string \<Rightarrow> KeyValue list res"
  | ReduceFunc "string \<Rightarrow> string list \<Rightarrow> string res"
  | OtherSymbol

type_synonym plugins = "string \<Rightarrow> (string \<Rightarrow> symbol option) option"

text \<open>A failed type assertion panics.\<close>

definition loadPlugin :: "plugins \<Rightarrow> string
    \<Rightarrow> ((string \<Rightarrow> string \<Rightarrow> KeyValue list res) \<times> (string \<Rightarrow> string list \<Rightarrow> string res)) res" where
  "loadPlugin open filename =
     (case open filename of
        None \<Rightarrow> Inl LogFatal
      | Some lookup \<Rightarrow>
          (case lookup ''Map'' of
             None \<Rightarrow> Inl LogFatal
           | Some (MapFunc mapf) \<Rightarrow>
               (case lookup ''Reduce'' of
                  None \<Rightarrow> Inl LogFatal
                | Some (ReduceFunc reducef) \<Rightarrow> Inr (mapf, reducef)
                | Some _ \<Rightarrow> Inl TypeAssertion)
           | Some _ \<Rightarrow> Inl TypeAssertion))"

text \<open>The exit code of a program that ends with \<open>log.Fatalf\<close> is 1, after a panic it is 2.\<close>

fun exitCode :: "go_panic \<Rightarrow> int" where
  "exitCode LogFatal = 1"
| "exitCode _ = 2"

text \<open>\<open>args\<close> are the arguments after the name of the program; the parts of \<open>A\<close> other than its two functions are those of the system.\<close>

definition mrworker :: "plugins \<Rightarrow> App \<Rightarrow> string list \<Rightarrow> 32 word outcome \<Rightarrow> MRTask option outcome list \<Rightarrow> 32 word outcome
    \<Rightarrow> WState \<Rightarrow> workerReq list \<times> WState \<times> int option" where
  "mrworker open A args reg rs dr d =
     (if length args \<noteq> 1 then ([], d, Some 1)
      else case loadPlugin open (args ! 0) of
             Inl p \<Rightarrow> ([], d, Some (exitCode p))
           | Inr (mapf, reducef) \<Rightarrow> Worker (A\<lparr>a_mapf := mapf, a_reducef := reducef\<rparr>) reg rs dr d)"

definition mrsequentialMain :: "plugins \<Rightarrow> OS \<Rightarrow> (KeyValue list \<Rightarrow> KeyValue list) \<Rightarrow> string list \<Rightarrow> WState \<Rightarrow> WState res" where
  "mrsequentialMain open os srt args w =
     (if length args < 2 then Inl LogFatal
      else rbind (loadPlugin open (args ! 0)) (\<lambda>(mapf, reducef).
        mrsequential os srt mapf reducef (drop 1 args) w))"

section \<open>Both programs run the application\<close>

lemma loadPlugin_Inr:
  "loadPlugin open filename = Inr (mapf, reducef) \<longleftrightarrow>
   (\<exists>lookup. open filename = Some lookup \<and> lookup ''Map'' = Some (MapFunc mapf) \<and> lookup ''Reduce'' = Some (ReduceFunc reducef))"
  by (auto simp: loadPlugin_def split: option.splits symbol.splits)

lemma loadPlugin_Inl: "loadPlugin open filename = Inl p \<Longrightarrow> p = LogFatal \<or> p = TypeAssertion"
  by (auto simp: loadPlugin_def split: option.splits symbol.splits)

text \<open>
  A worker makes requests only if the file holds an application, and then it runs that one; a worker without it leaves the disk alone and ends with a code other than 0.
\<close>

lemma mrworker_cases:
  shows "(\<exists>lookup mapf reducef. open so = Some lookup \<and> lookup ''Map'' = Some (MapFunc mapf) \<and>
            lookup ''Reduce'' = Some (ReduceFunc reducef) \<and>
            mrworker open A [so] reg rs dr d = Worker (A\<lparr>a_mapf := mapf, a_reducef := reducef\<rparr>) reg rs dr d) \<or>
         (\<exists>code. code \<noteq> 0 \<and> mrworker open A [so] reg rs dr d = ([], d, Some code))"
proof (cases "loadPlugin open so")
  case (Inl p)
  then show ?thesis using loadPlugin_Inl [OF Inl] by (auto simp: mrworker_def)
next
  case (Inr fs)
  then show ?thesis using loadPlugin_Inr [of "open" so "fst fs" "snd fs"] by (auto simp: mrworker_def split: prod.splits)
qed

text \<open>With the same file, the sequential program runs the same two functions on the files named after it.\<close>

lemma mrsequentialMain_runs:
  assumes "loadPlugin open so = Inr (mapf, reducef)"
  shows "mrsequentialMain open os srt (so # fs) w = mrsequential os srt mapf reducef fs w"
  using assms by (cases fs) (simp_all add: mrsequentialMain_def mrsequential_def)

end
