(* ===== verification/MR_Apps_Test.thy ===== *)
theory MR_Apps_Test
  imports MR_Apps
begin

text \<open>
  The applications of the test script that do more than compute: \<open>mrapps/crash.go\<close> ends or delays its process at random, \<open>mtiming.go\<close> and
  \<open>rtiming.go\<close> count the workers that run at the same time. The random numbers, the process number, the files of the directory and the processes that are alive are
  arguments.
\<close>

section \<open>crash.go\<close>

datatype crashAct = ExitProcess int | SleepFor int | GoOn

text \<open>Two random numbers: below 1000 and, in milliseconds, below 10000.\<close>

definition maybeCrash :: "int \<times> int \<Rightarrow> crashAct" where
  "maybeCrash rnd = (if fst rnd < 330 then ExitProcess 1 else if fst rnd < 660 then SleepFor (snd rnd) else GoOn)"

text \<open>The one of \<open>nocrash.go\<close> never crashes.\<close>

definition nocrash_maybeCrash :: "int \<times> int \<Rightarrow> crashAct" where
  "nocrash_maybeCrash rnd = (if False \<and> fst rnd < 500 then ExitProcess 1 else GoOn)"

definition crash_Map :: "int \<times> int \<Rightarrow> string \<Rightarrow> string \<Rightarrow> int + KeyValue list" where
  "crash_Map rnd filename contents =
     (case maybeCrash rnd of
        ExitProcess code \<Rightarrow> Inl code
      | _ \<Rightarrow> Inr [\<lparr>Key = ''a'', Value = filename\<rparr>,
                 \<lparr>Key = ''b'', Value = itoa (length filename)\<rparr>,
                 \<lparr>Key = ''c'', Value = itoa (length contents)\<rparr>,
                 \<lparr>Key = ''d'', Value = ''xyzzy''\<rparr>])"

definition crash_Reduce :: "int \<times> int \<Rightarrow> string \<Rightarrow> string list \<Rightarrow> int + string" where
  "crash_Reduce rnd key vals =
     (case maybeCrash rnd of
        ExitProcess code \<Rightarrow> Inl code
      | _ \<Rightarrow> let vv = sort vals in Inr (Join vv '' ''))"

section \<open>Counting workers\<close>

text \<open>
  \<open>fmt.Sscanf(name, prefix + "%d", \<dots>)\<close>: the prefix, spaces, an optional sign, then digits; what follows them does not matter. A number that does not fit into 64
  bits is an error.
\<close>

definition isDigit :: "char \<Rightarrow> bool" where
  "isDigit c \<longleftrightarrow> 48 \<le> (of_char c :: nat) \<and> (of_char c :: nat) \<le> 57"

definition scanInt :: "string \<Rightarrow> int option" where
  "scanInt s =
     (let s = dropWhile (\<lambda>c. c = CHR '' '' \<or> c = CHR 0x09) s;
          neg = (s \<noteq> [] \<and> hd s = CHR ''-'');
          s = (if s \<noteq> [] \<and> (hd s = CHR ''-'' \<or> hd s = CHR ''+'') then tl s else s);
          ds = takeWhile isDigit s;
          v = (if neg then - int (digits_value ds) else int (digits_value ds))
      in if ds = [] \<or> v < - (2 ^ 63) \<or> 2 ^ 63 \<le> v then None else Some v)"

definition scanName :: "string \<Rightarrow> string \<Rightarrow> int option" where
  "scanName pre name = (if take (length pre) name = pre then scanInt (drop (length pre) name) else None)"

definition workerFile :: "string \<Rightarrow> nat \<Rightarrow> string" where
  "workerFile phase pid = ''mr-worker-'' @ phase @ ''-'' @ itoa pid"

definition removeFile :: "string \<Rightarrow> WState \<Rightarrow> WState" where
  "removeFile name w = w\<lparr>w_disk := filter (\<lambda>(n, c). n \<noteq> name) (w_disk w)\<rparr>"

text \<open>
  \<open>nparallel\<close>: write a file with the own process number, count the files of workers that are alive (\<open>syscall.Kill\<close> with signal 0), remove
  the file. \<open>others\<close> is what the other processes do to the directory in the meantime.
\<close>

definition nparallel :: "OS \<Rightarrow> (int \<Rightarrow> bool) \<Rightarrow> (WState \<Rightarrow> WState) \<Rightarrow> string \<Rightarrow> nat \<Rightarrow> WState \<Rightarrow> (WState \<times> nat) res" where
  "nparallel os alive others phase pid w =
     (let myfilename = workerFile phase pid in
      if \<not> createOk os myfilename \<or> \<not> writeOk os myfilename then Inl AppPanic
      else let w = putFile myfilename ''x'' w in
           if \<not> readOk os ''.'' then Inl AppPanic
           else let names = take 1000000 (map fst (w_disk w));
                    ret = length (filter (\<lambda>name. case scanName (''mr-worker-'' @ phase @ ''-'') name of
                                            None \<Rightarrow> False | Some xpid \<Rightarrow> alive xpid) names);
                    w = others w
                in if map_of (w_disk w) myfilename = None then Inl AppPanic
                   else Inr (removeFile myfilename w, ret))"

text \<open>\<open>rtiming.go\<close> has a copy of its own.\<close>

definition rtiming_nparallel :: "OS \<Rightarrow> (int \<Rightarrow> bool) \<Rightarrow> (WState \<Rightarrow> WState) \<Rightarrow> string \<Rightarrow> nat \<Rightarrow> WState \<Rightarrow> (WState \<times> nat) res" where
  "rtiming_nparallel = nparallel"

section \<open>The timing applications\<close>

text \<open>\<open>ts\<close> is the time in seconds, printed with one decimal.\<close>

definition mtiming_Map :: "OS \<Rightarrow> (int \<Rightarrow> bool) \<Rightarrow> (WState \<Rightarrow> WState) \<Rightarrow> nat \<Rightarrow> string \<Rightarrow> WState \<Rightarrow> (WState \<times> KeyValue list) res" where
  "mtiming_Map os alive others pid ts w =
     rbind (nparallel os alive others ''map'' pid w) (\<lambda>(w, n).
       Inr (w, [\<lparr>Key = ''times-'' @ itoa pid, Value = ts\<rparr>, \<lparr>Key = ''parallel-'' @ itoa pid, Value = itoa n\<rparr>]))"

definition mtiming_Reduce :: "string \<Rightarrow> string list \<Rightarrow> string res" where
  "mtiming_Reduce key vals = (let vv = sort vals in Inr (Join vv '' ''))"

definition rtiming_Map :: "string \<Rightarrow> string \<Rightarrow> KeyValue list res" where
  "rtiming_Map filename contents = Inr (map (\<lambda>k. \<lparr>Key = [k], Value = ''1''\<rparr>) ''abcdefghij'')"

definition rtiming_Reduce :: "OS \<Rightarrow> (int \<Rightarrow> bool) \<Rightarrow> (WState \<Rightarrow> WState) \<Rightarrow> nat \<Rightarrow> WState \<Rightarrow> (WState \<times> string) res" where
  "rtiming_Reduce os alive others pid w =
     rbind (rtiming_nparallel os alive others ''reduce'' pid w) (\<lambda>(w, n). Inr (w, itoa n))"

section \<open>Properties\<close>

text \<open>
  The crashing application is the other one with crashes: when a function of \<open>crash.go\<close> returns, it returns what that of \<open>nocrash.go\<close> does; it ends the process exactly
  for the first 330 of the 1000 random numbers.
\<close>

lemma crash_matches_nocrash:
  "crash_Map rnd f c = (if fst rnd < 330 then Inl 1 else Inr (projr (nocrash_Map f c)))"
  "crash_Reduce rnd k vs = (if fst rnd < 330 then Inl 1 else Inr (projr (nocrash_Reduce k vs)))"
  by (auto simp: crash_Map_def crash_Reduce_def maybeCrash_def nocrash_Map_def nocrash_Reduce_def Let_def)

lemma isDigit_itoa: "c \<in> set (itoa n) \<Longrightarrow> isDigit c"
  using itoa_digits by (auto simp: isDigit_def)

lemma scanInt_itoa:
  assumes "int n < 2 ^ 63"
  shows "scanInt (itoa n) = Some (int n)"
proof -
  obtain c cs where i: "itoa n = c # cs" using itoa_nonempty by (meson neq_Nil_conv)
  then have c: "isDigit c" using isDigit_itoa by (metis list.set_intros(1))
  then have no: "c \<noteq> CHR '' ''" "c \<noteq> CHR 0x09" "c \<noteq> CHR ''-''" "c \<noteq> CHR ''+''" by (auto simp: isDigit_def)
  have "takeWhile isDigit (itoa n) = itoa n" using isDigit_itoa by (simp add: takeWhile_eq_all_conv)
  with i no assms show ?thesis using itoa_value [of n] by (simp add: scanInt_def Let_def)
qed

lemma scanName_own: "int n < 2 ^ 63 \<Longrightarrow> scanName (''mr-worker-'' @ phase @ ''-'') (workerFile phase n) = Some (int n)"
  by (simp add: scanName_def workerFile_def scanInt_itoa)

lemma scanName_other: "take (length pre) name \<noteq> pre \<Longrightarrow> scanName pre name = None"
  by (simp add: scanName_def)

lemma workerFile_inj [simp]: "workerFile phase p = workerFile phase q \<longleftrightarrow> p = q"
  by (simp add: workerFile_def)

lemma update_new: "n \<notin> fst ` set xs \<Longrightarrow> AList.update n c xs = xs @ [(n, c)]"
  by (induction xs) auto

text \<open>
  What \<open>nparallel\<close> counts. If the names in the directory that start like those of workers are such names, the result is the number of workers of the
  phase that have a file and are alive, the caller included; files that dead workers have left do not count. The own file is gone afterwards.
\<close>

theorem nparallel_counts:
  assumes os: "good_os os" and d: "disk_ok w" "length (w_disk w) < 1000000"
    and own: "int pid < 2 ^ 63" "alive (int pid)" "map_of (w_disk w) (workerFile phase pid) = None"
    and names: "\<And>name. name \<in> fst ` set (w_disk w) \<Longrightarrow> (\<exists>p. int p < 2 ^ 63 \<and> name = workerFile phase p) \<or>
        take (length (''mr-worker-'' @ phase @ ''-'')) name \<noteq> ''mr-worker-'' @ phase @ ''-''"
    and others: "map_of (w_disk (others (putFile (workerFile phase pid) ''x'' w))) (workerFile phase pid) \<noteq> None"
  shows "\<exists>w'. nparallel os alive others phase pid w =
      Inr (w', Suc (card {p. workerFile phase p \<in> fst ` set (w_disk w) \<and> alive (int p)})) \<and>
    map_of (w_disk w') (workerFile phase pid) = None"
proof -
  let ?pre = "''mr-worker-'' @ phase @ ''-''" and ?my = "workerFile phase pid"
  let ?live = "\<lambda>name. case scanName ?pre name of None \<Rightarrow> False | Some xpid \<Rightarrow> alive xpid"
  let ?P = "{p. workerFile phase p \<in> fst ` set (w_disk w) \<and> alive (int p)}"
  have "?my \<notin> fst ` set (w_disk w)" using own(3) by (simp add: map_of_eq_None_iff)
  then have disk: "map fst (w_disk (putFile ?my ''x'' w)) = map fst (w_disk w) @ [?my]"
    by (simp add: putFile_def update_new)
  have live: "?live name \<longleftrightarrow> name \<in> workerFile phase ` ?P" if "name \<in> fst ` set (w_disk w)" for name
    using names [OF that]
  proof
    assume "\<exists>p. int p < 2 ^ 63 \<and> name = workerFile phase p"
    then obtain p where p: "int p < 2 ^ 63" "name = workerFile phase p" by blast
    with that scanName_own [OF p(1), of phase] show ?thesis by auto
  next
    assume no: "take (length ?pre) name \<noteq> ?pre"
    have "take (length ?pre) (workerFile phase p) = ?pre" for p by (simp add: workerFile_def)
    with no have "name \<noteq> workerFile phase p" for p by metis
    with scanName_other [OF no] show ?thesis by auto
  qed
  define L where "L = filter ?live (map fst (w_disk w))"
  have "set L = workerFile phase ` ?P"
  proof (rule set_eqI)
    fix name
    show "name \<in> set L \<longleftrightarrow> name \<in> workerFile phase ` ?P"
      using live [of name] by (cases "name \<in> fst ` set (w_disk w)") (simp_all add: L_def image_iff, blast)
  qed
  moreover have "distinct L" using d(1) by (simp add: disk_ok_def L_def)
  ultimately have "length L = card (workerFile phase ` ?P)" by (simp add: distinct_card [symmetric])
  also have "\<dots> = card ?P" by (rule card_image) (simp add: inj_on_def)
  finally have "length (filter ?live (map fst (w_disk w))) = card ?P" unfolding L_def .
  moreover have "?live ?my" using scanName_own [OF own(1), of phase] own(2) by simp
  ultimately have cnt: "length (filter ?live (take 1000000 (map fst (w_disk (putFile ?my ''x'' w))))) = Suc (card ?P)"
    unfolding disk using d(2) by simp
  have gone: "map_of (w_disk (removeFile n v)) n = None" for n v
    by (auto simp: removeFile_def map_of_eq_None_iff)
  show ?thesis
    using os others cnt gone by (auto simp: nparallel_def Let_def good_os_def)
qed

end
