(* ===== verification/Spec2Isabelle.thy ===== *)
theory Spec2Isabelle
  imports Raft_Bounds Raft_Overwrite Raft_Timing Raft_Verdicts Raft_Agreement Lab_Gob MR_Apps_Job MR_Main MR_Apps_Test
begin

text \<open>
  A verification development for the two programs of the repository: the Raft library of \<open>lab2_raft\<close> and the
  MapReduce system of \<open>lab1_mapreduce\<close>.

  \<^bold>\<open>How Go is modelled.\<close> A struct is a record, an \<open>int\<close> is an \<open>int\<close> (no computation of the programs comes
  near 64 bits), a \<open>uint32\<close> is a \<open>32 word\<close>, a string is a list of bytes. A function that can panic returns
  \<open>go_panic + 'a\<close> (\<open>Prelude\<close>): indexing and slicing out of range, division by zero, \<open>make\<close> with a negative size. The
  clock and the random numbers are arguments (\<open>env\<close>). Goroutines are steps of a transition relation; a step is what
  the code does while it holds its lock. Where it holds none, the accesses whose interleaving is known to matter are steps of their own; \<open>MR_Schedule\<close> and \<open>Raft_Config\<close> name the functions
  that are one step although the code would allow others in between (\<open>handleHeartbeat\<close>, \<open>SetTaskState\<close>, \<open>isTasksDone\<close> and the search for a task to retry in \<open>master.go\<close>, the reader of applied entries in \<open>config.go\<close>).

  \<^bold>\<open>Raft.\<close>
    \<^item> \<open>Stable_Storage\<close> is \<open>persister.go\<close>, with the locale \<open>stable_store\<close> of what its clients rely on.
    \<^item> \<open>Raft_State\<close> is \<open>raft.go\<close> and \<open>util.go\<close>: the struct \<open>Raft\<close>, timers, \<open>persist\<close> and \<open>readPersist\<close>, \<open>changeRole\<close>,
      \<open>Start\<close>, \<open>Make\<close>, the apply goroutine. Theorems: recovery after a crash, delivery in order, \<open>Start\<close>, the timer.
    \<^item> \<open>Raft_Vote\<close> is \<open>vote.go\<close>: the handler \<open>RequestVote\<close> and \<open>startElection\<close>, in the three parts between which
      other steps can happen (\<open>electionBegin\<close>, \<open>electionReply\<close>, \<open>electionEnd\<close>).
    \<^item> \<open>Raft_Entry\<close> is \<open>entry.go\<close>: the handler \<open>AppendEntries\<close> and the leader's \<open>SendHeartbeat\<close>, \<open>getAppendLogs\<close>, \<open>commitLog\<close>.
      Theorems: both handlers on every branch, what \<open>commitLog\<close> commits.
    \<^item> \<open>Raft_Replication\<close> relates leader and follower: the handler against the rule of the Raft paper, and
      convergence of the follower's log within \<open>2 * length log + 2\<close> answered heartbeats (each heartbeat either
      moves the next index down or completes the log; the bound is the measure \<open>sync_measure\<close>).
    \<^item> \<open>Raft_Cluster\<close> is the cluster: \<open>cstep\<close> has a step for every handler, goroutine and client call, and for crashes.
      Messages stay in the network once sent, so they can be delivered late, out of order, repeatedly or never.
      The invariant \<open>election_system_inv\<close> is proved for every step; \<open>benign\<close> names the three
      behaviours of the code that break it.
    \<^item> \<open>Raft_Scenarios\<close> has an executable version of the steps, election safety for benign runs, and for each of
      the three behaviours a run of three servers with two winners of one term. \<open>Raft_Divergence\<close> continues one of them to two servers that
      apply different commands at one index.
    \<^item> \<open>Raft_Bounds\<close> shows that no RPC handler, election, heartbeat or client call of the cluster panics, under any run: every index stays within its slice. The apply goroutine is the exception; it
      panics exactly when the log ends before the next committed entry. \<open>Raft_Overwrite\<close> has a benign run of five servers that leads there: an entry of an older term is
      committed by counting copies and then cut off.
    \<^item> \<open>Raft_Timing\<close> is the time that calls and rounds of heartbeats take, and the time from the arrival of a heartbeat to the arrival of the next one against the election timer; and the election goroutine.

  \<^bold>\<open>The libraries of the tests.\<close>
    \<^item> \<open>Lab_RPC\<close> is \<open>labrpc.go\<close>: the simulated network, in which a request in flight is a goroutine with a control state (\<open>stage\<close>) and \<open>nstep\<close> is
      one step of one of them; servers, services, dispatch. Theorems: requests are handled at most once and answered once; a server that was deleted before the answer was decided does not answer; on a
      reliable network that is left alone every call is answered positively, in at most \<open>stepsLeft\<close> steps. \<open>nrun\<close> has the steps as a function, for concrete runs.
    \<^item> \<open>Lab_Gob\<close> is \<open>labgob.go\<close>: the checks around \<open>encoding/gob\<close>; \<open>Utf8\<close> decodes the first rune of a field name.
    \<^item> \<open>Raft_Config\<close> is \<open>config.go\<close>: it builds, connects, crashes and restarts servers on the network and judges what they
      do; \<open>Rand_String\<close> makes up the names of its client ends. \<open>Raft_Wiring\<close> and \<open>Raft_Harness\<close> have its invariant (who can reach whom, what is on disk, what was applied), \<open>Raft_Verdicts\<close> its
      verdicts about leaders, \<open>Raft_Agreement\<close> the function \<open>one\<close>.

  \<^bold>\<open>MapReduce.\<close>
    \<^item> \<open>MR_Util\<close> is \<open>util.go\<close> with what is used of Go's \<open>strconv\<close>, \<open>strings\<close>, \<open>hash/fnv\<close> and \<open>path/filepath\<close>.
    \<^item> \<open>MR_Master\<close> is \<open>rpc.go\<close> and \<open>master.go\<close>: the RPC handlers, the watch over heartbeats and the scheduler, whose
      control state is the datatype \<open>Sched\<close>.
    \<^item> \<open>MR_Schedule\<close> is the master under arbitrary interleaving of its goroutines: the phases are in order and the job is
      complete when it is declared done. \<open>MR_Table\<close> says exactly which tasks its table holds.
    \<^item> \<open>MR_Worker\<close> is \<open>worker.go\<close>: map and reduce tasks on a disk that is a list of named files.
    \<^item> \<open>MR_Job\<close> is \<open>main/mrsequential.go\<close> and the theorem that a worker which is given all tasks of a job produces the same lines.
    \<^item> \<open>MR_Steps\<close> cuts the tasks into single operations on files; \<open>MR_Results\<close> says what a task is to leave on the disk.
    \<^item> \<open>MR_Crew\<close> has the workers as a list of control states (\<open>wpc\<close>) and their invariant; the states of a worker in \<open>GetTask\<close> are those of the master's handler (it has yet to look for a task to
      retry, it waits at the channel, it has received a file), with a flag that says whether the worker still waits for the answer; \<open>MR_System\<close> puts a master, any number
      of workers and one disk together (\<open>jstep\<close>); \<open>MR_Correct\<close> proves the invariant of the whole for careful runs, and \<open>MR_Output\<close> that the output of
      a job that is done is that of the sequential program, whatever workers crashed on the way. A run is careful if a task is given out again only when its worker is
      gone; \<open>MR_Output\<close> also has the run in which a slow worker spoils the output. \<open>MR_Progress\<close> shows that a job gets done if
      a new worker is started when nobody works and what is left waits for one: there is always a step that brings the job forward, and each such step goes down in a lexicographic order (\<open>left\<close>: what is left to
      do, then the handlers and workers to get ready, then the writes). \<open>MR_Exec\<close> has the steps as a function, for concrete runs. The bound
      \<open>length F + N < 2^32\<close> keeps the 32-bit task numbers from wrapping around.
    \<^item> \<open>MR_Process\<close> is the life of a worker process (registration, heartbeats, calls that time out, exit codes) and \<open>main/mrmaster.go\<close>; \<open>MR_Main\<close> is \<open>main/mrworker.go\<close> and the loading of the
      application in both programs.
    \<^item> \<open>MR_Apps\<close> is \<open>mrapps/wc.go\<close>, \<open>indexer.go\<close> and \<open>nocrash.go\<close>; \<open>MR_Apps_Test\<close> is \<open>crash.go\<close>, \<open>mtiming.go\<close> and \<open>rtiming.go\<close>. \<open>MR_Apps_Job\<close> puts word
      count and the index on the whole job: what is in the output files at the end.

  \<^bold>\<open>Interfaces.\<close> The locales \<open>invariant_system\<close>, \<open>progress_system\<close> and \<open>quorum_system\<close> (\<open>Prelude\<close>), \<open>stable_store\<close>, \<open>crash_recovery\<close> (\<open>Raft_State\<close>),
  \<open>go_sort\<close> and \<open>key_sorter\<close> (\<open>MR_Job\<close>) and \<open>task_files\<close> (\<open>MR_Crew\<close>) state what one part relies on of another; each is interpreted on the definitions of the model.

  \<^bold>\<open>Parameters.\<close> Code outside the repository is a parameter: JSON encoding and decoding, \<open>sort.Sort\<close>, \<open>unicode.IsLetter\<close>, the
  order in which a Go map or \<open>sync.Map\<close> is visited, the answers of peers, which file operations fail, what the
  \<open>plugin\<close> package finds in a file, random numbers and the clock.

  \<^bold>\<open>Not modelled.\<close> The Unix socket and HTTP server of \<open>master.go\<close> and the contents of \<open>net/rpc\<close>; logging and the
  goroutine of \<open>Make\<close> that prints the log; \<open>makeSeed\<close>, as random numbers are arguments; the stub \<open>tmpmain.go\<close>; the constructors of \<open>labgob\<close> that only wrap \<open>encoding/gob\<close>; the test files. A call between processes is what comes of it: an answer, an error, a timeout. A reduce task reads
  its files in one step: in a careful run they do not change while it runs. Of \<open>encoding/gob\<close> the model uses that decoding inverts encoding for the three values that are persisted.
\<close>

end
